(* ===== verification/Prelude.thy ===== *)
theory Prelude
  imports Main "HOL-Library.Word"
begin

text \<open>
  Shared vocabulary of the development: the outcome of a Rust computation that may panic,
  checked machine arithmetic, the \<open>?\<close> operator over state-passing computations, loops
  over lists that may panic, and a few operations of the standard library (\<open>Vec::resize\<close>).

  Conventions. \<open>Ret x\<close> is a normal return, \<open>Panic\<close> an unwinding thread, \<open>Diverge\<close> a
  call that never returns. Integer
  arithmetic has overflow checks, as in Cargo's default (dev) profile: an overflow is a
  \<open>Panic\<close>. A \<open>Result<T, E>\<close> is \<open>'e + 't\<close> with \<open>Inl\<close> the error.
\<close>

unbundle bit_operations_syntax

type_synonym u8 = "8 word"
type_synonym u16 = "16 word"
type_synonym u32 = "32 word"
type_synonym usize = "64 word"
type_synonym byte = "8 word"

named_theorems outcome_simps "equations and inversions of computations that may panic"
named_theorems returns "computations that do not run for ever"

subsection \<open>Computations that may panic\<close>

datatype 'a rust = Ret 'a | Panic | Diverge

primrec rbind :: "'a rust \<Rightarrow> ('a \<Rightarrow> 'b rust) \<Rightarrow> 'b rust" where
  "rbind (Ret x) f = f x"
| "rbind Panic f = Panic"
| "rbind Diverge f = Diverge"

lemma rbind_cong [fundef_cong]:
  "m = m' \<Longrightarrow> (\<And>x. m' = Ret x \<Longrightarrow> f x = g x) \<Longrightarrow> rbind m f = rbind m' g"
  by (cases m') auto

lemma rbind_Ret_iff [outcome_simps]:
  "rbind m f = Ret y \<longleftrightarrow> (\<exists>x. m = Ret x \<and> f x = Ret y)"
  by (cases m) auto

lemma rbind_Panic_iff [outcome_simps]:
  "rbind m f = Panic \<longleftrightarrow> m = Panic \<or> (\<exists>x. m = Ret x \<and> f x = Panic)"
  by (cases m) auto

lemma rbind_Diverge_iff [outcome_simps]:
  "rbind m f = Diverge \<longleftrightarrow> m = Diverge \<or> (\<exists>x. m = Ret x \<and> f x = Diverge)"
  by (cases m) auto

lemma if_returns:
  "(b \<Longrightarrow> x \<noteq> Diverge) \<Longrightarrow> (\<not> b \<Longrightarrow> y \<noteq> Diverge) \<Longrightarrow> (if b then x else y) \<noteq> Diverge"
  by simp

lemma option_returns:
  "(r = None \<Longrightarrow> x \<noteq> Diverge) \<Longrightarrow> (\<And>a. r = Some a \<Longrightarrow> f a \<noteq> Diverge) \<Longrightarrow>
     (case r of None \<Rightarrow> x | Some a \<Rightarrow> f a) \<noteq> Diverge"
  by (cases r) auto

lemma bool_returns:
  "(b \<Longrightarrow> x \<noteq> Diverge) \<Longrightarrow> (\<not> b \<Longrightarrow> y \<noteq> Diverge) \<Longrightarrow>
     (case b of True \<Rightarrow> x | False \<Rightarrow> y) \<noteq> Diverge"
  by (cases b) auto

lemma rbind_returns:
  "m \<noteq> Diverge \<Longrightarrow> (\<And>x. m = Ret x \<Longrightarrow> f x \<noteq> Diverge) \<Longrightarrow> rbind m f \<noteq> Diverge"
  by (cases m) auto

text \<open>The outcome of a loop defined by \<^theory_text>\<open>partial_function (option)\<close>.\<close>

definition of_loop :: "'a option \<Rightarrow> 'a rust" where
  "of_loop r = (case r of None \<Rightarrow> Diverge | Some x \<Rightarrow> Ret x)"

lemma of_loop_simps [simp]: "of_loop None = Diverge" "of_loop (Some x) = Ret x"
  by (simp_all add: of_loop_def)

text \<open>The outcome of such a loop when a round of it may panic or wait for ever.\<close>

definition loop_outcome :: "'a rust option \<Rightarrow> 'a rust" where
  "loop_outcome r = (case r of None \<Rightarrow> Diverge | Some x \<Rightarrow> x)"

text \<open>A \<open>for\<close> loop whose body updates an accumulator and may panic.\<close>

primrec rfold :: "('s \<Rightarrow> 'a \<Rightarrow> 's rust) \<Rightarrow> 's \<Rightarrow> 'a list \<Rightarrow> 's rust" where
  "rfold f s [] = Ret s"
| "rfold f s (x # xs) = rbind (f s x) (\<lambda>s'. rfold f s' xs)"

lemma rfold_append: "rfold f s (xs @ ys) = rbind (rfold f s xs) (\<lambda>s'. rfold f s' ys)"
proof (induction xs arbitrary: s)
  case (Cons x xs)
  then show ?case by (cases "f s x") auto
qed simp

subsection \<open>The \<open>?\<close> operator over state passing\<close>

text \<open>
  A method \<open>fn m(&mut self) -> Result<T, E>\<close> is a function to \<open>('s \<times> ('e + 't)) rust\<close>.
  \<open>rtry\<close> is \<open>let x = m?; k\<close>: an error is returned at once with the state reached.
\<close>

definition rtry ::
  "('s \<times> ('e + 'a)) rust \<Rightarrow> ('s \<Rightarrow> 'a \<Rightarrow> ('s \<times> ('e + 'b)) rust) \<Rightarrow> ('s \<times> ('e + 'b)) rust" where
  "rtry m k = rbind m (\<lambda>(s, r). case r of Inl e \<Rightarrow> Ret (s, Inl e) | Inr x \<Rightarrow> k s x)"

lemma rtry_simps [simp]:
  "rtry (Ret (s, Inl e)) k = Ret (s, Inl e)"
  "rtry (Ret (s, Inr x)) k = k s x"
  "rtry Panic k = Panic"
  "rtry Diverge k = Diverge"
  by (simp_all add: rtry_def)

lemma rtry_Ret_iff [outcome_simps]:
  "rtry m k = Ret (s', r') \<longleftrightarrow>
     (\<exists>e. m = Ret (s', Inl e) \<and> r' = Inl e) \<or> (\<exists>s x. m = Ret (s, Inr x) \<and> k s x = Ret (s', r'))"
  by (cases m) (auto simp: rtry_def split: sum.splits)

lemma rtry_returns:
  "m \<noteq> Diverge \<Longrightarrow> (\<And>s x. m = Ret (s, Inr x) \<Longrightarrow> k s x \<noteq> Diverge) \<Longrightarrow> rtry m k \<noteq> Diverge"
  unfolding rtry_def by (intro rbind_returns) (auto split: sum.splits)

text \<open>\<open>Option::ok_or\<close> and \<open>Result::map_err\<close>.\<close>

definition ok_or :: "'a option \<Rightarrow> 'e \<Rightarrow> 'e + 'a" where
  "ok_or x e = (case x of None \<Rightarrow> Inl e | Some a \<Rightarrow> Inr a)"

definition map_err :: "('e \<Rightarrow> 'f) \<Rightarrow> 'e + 'a \<Rightarrow> 'f + 'a" where
  "map_err f r = (case r of Inl e \<Rightarrow> Inl (f e) | Inr a \<Rightarrow> Inr a)"

lemma ok_or_simps [simp]: "ok_or None e = Inl e" "ok_or (Some a) e = Inr a"
  by (simp_all add: ok_or_def)

lemma map_err_simps [simp]: "map_err f (Inl e) = Inl (f e)" "map_err f (Inr a) = Inr a"
  by (simp_all add: map_err_def)

lemma map_err_iff [simp]:
  "map_err f r = Inl e \<longleftrightarrow> (\<exists>x. r = Inl x \<and> e = f x)"
  "map_err f r = Inr a \<longleftrightarrow> r = Inr a"
  by (cases r; auto)+

subsection \<open>Checked machine arithmetic\<close>

definition checked_add :: "'a::len word \<Rightarrow> 'a word \<Rightarrow> 'a word rust" where
  "checked_add a b = (if unat a + unat b < 2 ^ LENGTH('a) then Ret (a + b) else Panic)"

definition checked_sub :: "'a::len word \<Rightarrow> 'a word \<Rightarrow> 'a word rust" where
  "checked_sub a b = (if b \<le> a then Ret (a - b) else Panic)"

definition checked_mul :: "'a::len word \<Rightarrow> 'a word \<Rightarrow> 'a word rust" where
  "checked_mul a b = (if unat a * unat b < 2 ^ LENGTH('a) then Ret (a * b) else Panic)"

text \<open>\<open>u32::checked_shl\<close>: \<open>None\<close> when the shift is not smaller than the width.\<close>

definition checked_shl :: "u32 \<Rightarrow> u32 \<Rightarrow> u32 option" where
  "checked_shl x k = (if unat k < 32 then Some (push_bit (unat k) x) else None)"

text \<open>Subtraction on \<open>i64\<close>, whose values are the integers of that range.\<close>

definition checked_sub_i64 :: "int \<Rightarrow> int \<Rightarrow> int rust" where
  "checked_sub_i64 a b =
     (if - (2 ^ 63) \<le> a - b \<and> a - b < 2 ^ 63 then Ret (a - b) else Panic)"

text \<open>\<open>Vec::len\<close> (and \<open>VecDeque::len\<close>): a \<open>usize\<close>.\<close>

definition vec_len :: "'a list \<Rightarrow> usize" where
  "vec_len xs = word_of_nat (length xs)"

lemma checked_returns [simp]:
  "checked_add a b \<noteq> Diverge" "checked_sub a b \<noteq> Diverge" "checked_mul a b \<noteq> Diverge"
  by (simp_all add: checked_add_def checked_sub_def checked_mul_def)

lemma checked_add_Ret_iff [outcome_simps]:
  "checked_add a b = Ret (c :: 'a::len word) \<longleftrightarrow>
     unat a + unat b < 2 ^ LENGTH('a) \<and> unat c = unat a + unat b"
  by (auto simp: checked_add_def unat_word_ariths word_unat_eq_iff)

lemma checked_add_ok:
  "unat a + unat b < 2 ^ LENGTH('a) \<Longrightarrow>
     checked_add a (b :: 'a::len word) = Ret (word_of_nat (unat a + unat b))"
  by (simp add: checked_add_def)

lemma checked_add_Panic_iff [outcome_simps]:
  "checked_add a (b :: 'a::len word) = Panic \<longleftrightarrow> 2 ^ LENGTH('a) \<le> unat a + unat b"
  by (auto simp: checked_add_def)

lemma checked_sub_ok: "unat b \<le> unat a \<Longrightarrow> checked_sub a b = Ret (word_of_nat (unat a - unat b))"
  by (simp add: checked_sub_def word_le_nat_alt)

lemma checked_sub_Panic_iff [outcome_simps]:
  "checked_sub a b = Panic \<longleftrightarrow> unat a < unat b"
  by (auto simp: checked_sub_def word_le_nat_alt)

lemma checked_mul_ok:
  "unat a * unat b < 2 ^ LENGTH('a) \<Longrightarrow>
     checked_mul a (b :: 'a::len word) = Ret (word_of_nat (unat a * unat b))"
  by (simp add: checked_mul_def)

lemma checked_mul_Ret_iff [outcome_simps]:
  "checked_mul a b = Ret (c :: 'a::len word) \<longleftrightarrow>
     unat a * unat b < 2 ^ LENGTH('a) \<and> unat c = unat a * unat b"
  by (auto simp: checked_mul_def unat_word_ariths word_unat_eq_iff)

lemma checked_mul_Panic_iff [outcome_simps]:
  "checked_mul a (b :: 'a::len word) = Panic \<longleftrightarrow> 2 ^ LENGTH('a) \<le> unat a * unat b"
  by (auto simp: checked_mul_def)

lemma unat_vec_len: "length xs < 2 ^ 64 \<Longrightarrow> unat (vec_len xs) = length xs"
  by (simp add: vec_len_def unat_of_nat)

lemma unat_of_nat_usize: "n < 2 ^ 64 \<Longrightarrow> unat (word_of_nat n :: usize) = n"
  by (simp add: unat_of_nat)

lemma usize_less_of_nat_iff:
  "n < 2 ^ 64 \<Longrightarrow> (i :: usize) < word_of_nat n \<longleftrightarrow> unat i < n"
  by (simp add: word_less_nat_alt unat_of_nat)

lemma unat_usize_less: "unat (i :: usize) < 2 ^ 64"
  using unsigned_less [of i, where 'a = nat] by simp

lemma unat_Suc_less: "(i :: usize) < j \<Longrightarrow> unat (i + 1) = Suc (unat i)"
  using unat_usize_less [of j] by (simp add: word_less_nat_alt unat_word_ariths)

subsection \<open>Vectors\<close>

definition resize_vec :: "nat \<Rightarrow> 'a \<Rightarrow> 'a list \<Rightarrow> 'a list" where
  "resize_vec n x xs = (if n \<le> length xs then take n xs else xs @ replicate (n - length xs) x)"

lemma length_resize_vec [simp]: "length (resize_vec n x xs) = n"
  by (simp add: resize_vec_def)

end
