(* ===== verification/Bit_Interface.thy ===== *)
theory Bit_Interface
  imports Prelude
begin

text \<open>
  The interface of a growable sequence of bits, as the run-length coder and the helpers of
  \<^verbatim>\<open>src/bitvec.rs\<close> use it: a value \<open>new\<close>, \<open>push\<close>, \<open>len\<close> and \<open>get\<close>, with the list of
  bits a value stands for (\<open>bits_of\<close>) and the representation invariant (\<open>good\<close>). The
  laws say that none of the operations panics on a good value, what each does to the list,
  and that the representation is canonical, so that the derived \<open>PartialEq\<close> compares lists
  of bits. The model of \<open>BitVec\<close> interprets it in \<open>BitVec.thy\<close>.
\<close>

locale bit_sequence =
  fixes new :: 'b
    and push :: "'b \<Rightarrow> bool \<Rightarrow> 'b rust"
    and len :: "'b \<Rightarrow> usize rust"
    and get :: "'b \<Rightarrow> usize \<Rightarrow> bool option rust"
    and bits_of :: "'b \<Rightarrow> bool list"
    and good :: "'b \<Rightarrow> bool"
  assumes good_new: "good new"
    and bits_new: "bits_of new = []"
    and push_law: "good b \<Longrightarrow> \<exists>b'. push b x = Ret b' \<and> good b' \<and> bits_of b' = bits_of b @ [x]"
    and len_law: "good b \<Longrightarrow> length (bits_of b) < 2 ^ 64 \<Longrightarrow>
      len b = Ret (word_of_nat (length (bits_of b)))"
    and get_law: "good b \<Longrightarrow> length (bits_of b) < 2 ^ 64 \<Longrightarrow>
      get b i = Ret (if unat i < length (bits_of b) then Some (bits_of b ! unat i) else None)"
    and canonical: "good a \<Longrightarrow> good b \<Longrightarrow> bits_of a = bits_of b \<Longrightarrow> a = b"
begin

text \<open>Pushing a whole list appends it.\<close>

lemma push_list:
  "good b \<Longrightarrow> \<exists>b'. rfold push b xs = Ret b' \<and> good b' \<and> bits_of b' = bits_of b @ xs"
proof (induction xs arbitrary: b)
  case Nil
  then show ?case by simp
next
  case (Cons x xs)
  then obtain b1 where b1: "push b x = Ret b1" "good b1" "bits_of b1 = bits_of b @ [x]"
    using push_law by blast
  with Cons.IH obtain b2 where "rfold push b1 xs = Ret b2" "good b2" "bits_of b2 = bits_of b1 @ xs"
    by blast
  with b1 show ?case by simp
qed

lemma push_list_new: "\<exists>b. rfold push new xs = Ret b \<and> good b \<and> bits_of b = xs"
  using push_list [OF good_new, of xs] by (simp add: bits_new)

text \<open>Every list of bits is represented, by exactly one good value.\<close>

lemma represented: "\<exists>!b. good b \<and> bits_of b = xs"
  using push_list_new [of xs] canonical by blast

lemma eq_iff: "good a \<Longrightarrow> good b \<Longrightarrow> a = b \<longleftrightarrow> bits_of a = bits_of b"
  using canonical by blast

text \<open>Rebuilding a value from its own bits gives it back.\<close>

lemma push_list_bits: "good b \<Longrightarrow> rfold push new (bits_of b) = Ret b"
  using push_list_new [of "bits_of b"] canonical by fastforce

text \<open>Bits already stored are never changed by a push.\<close>

lemma push_keeps_get:
  assumes "good b" "push b x = Ret b'" "length (bits_of b) + 1 < 2 ^ 64"
    and "unat i < length (bits_of b)"
  shows "get b' i = get b i"
proof -
  from push_law [OF assms(1), of x] assms(2)
  have b': "good b'" "bits_of b' = bits_of b @ [x]" by auto
  with assms show ?thesis by (simp add: get_law nth_append)
qed

lemma get_None_iff:
  "good b \<Longrightarrow> length (bits_of b) < 2 ^ 64 \<Longrightarrow> get b i = Ret None \<longleftrightarrow> length (bits_of b) \<le> unat i"
  by (auto simp: get_law)

end

end
