(* ===== verification/BitVec.thy ===== *)
theory BitVec
  imports Bit_Interface
begin

text \<open>
  \<^verbatim>\<open>struct BitVec\<close> of \<^verbatim>\<open>src/bitvec.rs\<close>: a vector of bits packed into \<open>u32\<close> words with the
  number of bits in use in the last word. Each method is one definition; the iterator is its
  own state. \<open>bits\<close> is the list of bits a value stands for and \<open>wf_bitvec\<close> the
  representation invariant; \<open>bv\<close> interprets the interface of \<open>Bit_Interface.thy\<close>.
  The fields are public to the deserializer, so every operation is defined (possibly as a
  panic) on ill-formed values as well.
\<close>

record bitvec =
  storage :: "u32 list"
  len_of_last :: u8

definition bv_new :: bitvec where
  "bv_new = \<lparr>storage = [0], len_of_last = 0\<rparr>"

definition bv_len :: "bitvec \<Rightarrow> usize rust" where
  "bv_len b =
     rbind (checked_sub (vec_len (storage b)) 1) (\<lambda>n.
     rbind (checked_mul 32 n) (\<lambda>m.
     checked_add m (ucast (len_of_last b))))"

definition bv_is_empty :: "bitvec \<Rightarrow> bool" where
  "bv_is_empty b \<longleftrightarrow> len_of_last b = 0"

definition bv_push :: "bitvec \<Rightarrow> bool \<Rightarrow> bitvec rust" where
  "bv_push b x =
     (if len_of_last b = 32 then
        Ret (b\<lparr>storage := storage b @ [of_bool x], len_of_last := 1\<rparr>)
      else if x = True then
        (case checked_shl 1 (ucast (len_of_last b)) of
           None \<Rightarrow> Panic
         | Some new_bit \<Rightarrow>
             (if storage b = [] then Panic
              else rbind (checked_add (len_of_last b) 1) (\<lambda>l.
                Ret (b\<lparr>storage := butlast (storage b) @ [last (storage b) OR new_bit],
                       len_of_last := l\<rparr>))))
      else rbind (checked_add (len_of_last b) 1) (\<lambda>l. Ret (b\<lparr>len_of_last := l\<rparr>)))"

definition bv_from_slice :: "bool list \<Rightarrow> bitvec rust" where
  "bv_from_slice sl = rfold bv_push bv_new sl"

definition bv_get :: "bitvec \<Rightarrow> usize \<Rightarrow> bool option rust" where
  "bv_get b index =
     rbind (bv_len b) (\<lambda>n.
       if n \<le> index then Ret None
       else if unat (index div 32) < length (storage b) then
         (case checked_shl 1 (ucast (index mod 32)) of
            None \<Rightarrow> Panic
          | Some bit_mask \<Rightarrow>
              Ret (Some ((storage b ! unat (index div 32)) AND bit_mask \<noteq> 0)))
       else Ret None)"

text \<open>The iterator: \<open>next\<close> reads the bit under the counter and moves the counter on.\<close>

record bitvec_iter =
  it_bitvec :: bitvec
  bit_counter :: usize

definition bv_into_iter :: "bitvec \<Rightarrow> bitvec_iter" where
  "bv_into_iter b = \<lparr>it_bitvec = b, bit_counter = 0\<rparr>"

definition bv_iter_next :: "bitvec_iter \<Rightarrow> (bitvec_iter \<times> bool option) rust" where
  "bv_iter_next it =
     rbind (bv_get (it_bitvec it) (bit_counter it)) (\<lambda>r.
       case r of
         Some b \<Rightarrow> rbind (checked_add (bit_counter it) 1) (\<lambda>c.
           Ret (it\<lparr>bit_counter := c\<rparr>, Some b))
       | None \<Rightarrow> Ret (it, None))"

lemma bv_get_Some_less: "bv_get b i = Ret (Some x) \<Longrightarrow> \<exists>n. bv_len b = Ret n \<and> i < n"
  by (auto simp: bv_get_def outcome_simps split: if_splits)

lemma bv_iter_next_Some:
  assumes "bv_iter_next it = Ret (it', Some x)"
  shows "it_bitvec it' = it_bitvec it \<and> bit_counter it < bit_counter it'"
proof -
  from assms obtain c where c: "checked_add (bit_counter it) 1 = Ret c" "it' = it\<lparr>bit_counter := c\<rparr>"
    by (auto simp: bv_iter_next_def rbind_Ret_iff split: option.splits)
  then show ?thesis by (simp add: checked_add_Ret_iff word_less_nat_alt)
qed

text \<open>\<open>append\<close>: the \<open>for\<close> loop over the other vector's iterator, pushing every bit.\<close>

function bv_append_loop :: "bitvec \<Rightarrow> bitvec_iter \<Rightarrow> bitvec rust" where
  "bv_append_loop acc it =
     rbind (bv_iter_next it) (\<lambda>(it', r).
       case r of
         None \<Rightarrow> Ret acc
       | Some b \<Rightarrow> rbind (bv_push acc b) (\<lambda>acc'. bv_append_loop acc' it'))"
  by pat_completeness auto
termination
proof (relation "measure (\<lambda>(acc, it). 2 ^ 64 - unat (bit_counter it))", goal_cases)
  case (2 acc it r it' o' b acc')
  then have "bit_counter it < bit_counter it'"
    using bv_iter_next_Some [of it it' b] by simp
  then show ?case
    using unat_usize_less [of "bit_counter it'"] by (simp add: word_less_nat_alt)
qed simp

declare bv_append_loop.simps [simp del]

definition bv_append :: "bitvec \<Rightarrow> bitvec \<Rightarrow> bitvec rust" where
  "bv_append b other = bv_append_loop b (bv_into_iter other)"

text \<open>\<open>range\<close>: reads the bits of \<open>start..end\<close>, giving up at the first missing one.\<close>

function bv_range_loop :: "bitvec \<Rightarrow> bitvec \<Rightarrow> usize \<Rightarrow> usize \<Rightarrow> bitvec option rust" where
  "bv_range_loop b acc idx end_idx =
     (if idx < end_idx then
        rbind (bv_get b idx) (\<lambda>r.
          case r of
            None \<Rightarrow> Ret None
          | Some x \<Rightarrow> rbind (bv_push acc x) (\<lambda>acc'. bv_range_loop b acc' (idx + 1) end_idx))
      else Ret (Some acc))"
  by pat_completeness auto
termination
  by (relation "measure (\<lambda>(b, acc, idx, end_idx). unat end_idx - unat idx)")
    (auto simp: unat_Suc_less word_less_nat_alt)

declare bv_range_loop.simps [simp del]

definition bv_range :: "bitvec \<Rightarrow> usize \<Rightarrow> usize \<Rightarrow> bitvec option rust" where
  "bv_range b start end_idx = bv_range_loop b bv_new start end_idx"

subsection \<open>The bits a value stands for, and the representation invariant\<close>

definition bv_size :: "bitvec \<Rightarrow> nat" where
  "bv_size b = 32 * (length (storage b) - 1) + unat (len_of_last b)"

definition bit_at :: "bitvec \<Rightarrow> nat \<Rightarrow> bool" where
  "bit_at b i = bit (storage b ! (i div 32)) (i mod 32)"

definition bits :: "bitvec \<Rightarrow> bool list" where
  "bits b = map (bit_at b) [0..<bv_size b]"

definition wf_bitvec :: "bitvec \<Rightarrow> bool" where
  "wf_bitvec b \<longleftrightarrow> storage b \<noteq> [] \<and> unat (len_of_last b) \<le> 32 \<and>
     (len_of_last b = 0 \<longrightarrow> length (storage b) = 1) \<and>
     (\<forall>i \<in> {unat (len_of_last b)..<32}. \<not> bit (last (storage b)) i)"

lemma length_bits [simp]: "length (bits b) = bv_size b"
  by (simp add: bits_def)

lemma nth_bits: "i < bv_size b \<Longrightarrow> bits b ! i = bit_at b i"
  by (simp add: bits_def)

subsection \<open>Each operation on well-formed vectors\<close>

lemma test_bit_mask: "k < 32 \<Longrightarrow> ((w :: u32) AND 2 ^ k \<noteq> 0) = bit w k"
  by (simp add: and_exp_eq_0_iff_not_bit)

lemma checked_shl_one: "unat k < 32 \<Longrightarrow> checked_shl 1 k = Some (push_bit (unat k) 1)"
  by (simp add: checked_shl_def)

lemma unat_ucast_u8_u32 [simp]: "unat (ucast (l :: u8) :: u32) = unat l"
  using unsigned_less [of l, where 'a = nat] by (simp add: unsigned_ucast_eq take_bit_nat_eq_self)

lemma unat_ucast_u8_usize [simp]: "unat (ucast (l :: u8) :: usize) = unat l"
  using unsigned_less [of l, where 'a = nat] by (simp add: unsigned_ucast_eq take_bit_nat_eq_self)

lemma wf_storage: "wf_bitvec b \<Longrightarrow> storage b \<noteq> []"
  by (simp add: wf_bitvec_def)

lemma bv_len_ok:
  assumes "storage b \<noteq> []" "bv_size b < 2 ^ 64"
  shows "bv_len b = Ret (word_of_nat (bv_size b))"
proof -
  define n where "n = length (storage b) - 1"
  from assms have len: "length (storage b) = Suc n" and n: "32 * n + unat (len_of_last b) < 2 ^ 64"
    by (simp_all add: n_def bv_size_def)
  have "checked_sub (vec_len (storage b)) 1 = Ret (word_of_nat n)"
    using n len by (subst checked_sub_ok) (simp_all add: unat_vec_len)
  moreover have "checked_mul 32 (word_of_nat n :: usize) = Ret (word_of_nat (32 * n))"
    using n by (subst checked_mul_ok) (simp_all add: unat_of_nat)
  moreover have "unat (word_of_nat (32 * n) :: usize) = 32 * n"
    using n by (intro unat_of_nat_usize) simp
  then have "checked_add (word_of_nat (32 * n)) (ucast (len_of_last b)) =
      Ret (word_of_nat (bv_size b) :: usize)"
    using n by (subst checked_add_ok) (simp_all only: bv_size_def len unat_ucast_u8_usize, simp_all)
  ultimately show ?thesis by (simp add: bv_len_def)
qed

lemma bv_get_ok:
  assumes "wf_bitvec b" "bv_size b < 2 ^ 64"
  shows "bv_get b i = Ret (if unat i < bv_size b then Some (bits b ! unat i) else None)"
proof (cases "unat i < bv_size b")
  case True
  with assms have "unat i < 32 * length (storage b)"
    by (cases "storage b") (auto simp: bv_size_def wf_bitvec_def)
  then have idx: "unat (i div 32) < length (storage b)"
    by (simp add: unat_div less_mult_imp_div_less mult.commute)
  have m: "unat (ucast (i mod 32) :: u32) = unat i mod 32"
  proof -
    have "unat (i mod 32) < 32" by (simp add: unat_mod)
    then show ?thesis by (simp add: unsigned_ucast_eq take_bit_nat_eq_self unat_mod)
  qed
  have "bv_get b i = Ret (Some (bit (storage b ! unat (i div 32)) (unat i mod 32)))"
    using True assms idx
    by (simp add: bv_get_def bv_len_ok wf_storage checked_shl_one m test_bit_mask
        word_le_nat_alt unat_of_nat)
  then show ?thesis using True by (simp add: nth_bits bit_at_def unat_div)
next
  case False
  with assms show ?thesis
    by (simp add: bv_get_def bv_len_ok wf_storage word_le_nat_alt unat_of_nat)
qed

text \<open>A vector that grew by one bit and kept the others.\<close>

lemma bits_snocI:
  assumes "bv_size b' = Suc (bv_size b)" "\<And>i. i < bv_size b \<Longrightarrow> bit_at b' i = bit_at b i"
    and "bit_at b' (bv_size b) = x"
  shows "bits b' = bits b @ [x]"
  using assms by (auto simp: bits_def intro!: map_cong)

lemma bv_push_full:
  assumes wf: "wf_bitvec b" and full: "len_of_last b = 32"
  shows "\<exists>b'. bv_push b x = Ret b' \<and> wf_bitvec b' \<and> bits b' = bits b @ [x]"
proof -
  let ?b' = "b\<lparr>storage := storage b @ [of_bool x], len_of_last := 1\<rparr>"
  have size: "bv_size b = 32 * length (storage b)"
    using wf full by (cases "storage b") (auto simp: bv_size_def wf_bitvec_def)
  have "bits ?b' = bits b @ [x]"
  proof (rule bits_snocI)
    show "bv_size ?b' = Suc (bv_size b)"
      by (simp add: size) (simp add: bv_size_def)
    show "bit_at ?b' i = bit_at b i" if "i < bv_size b" for i
      using that by (simp add: bit_at_def size nth_append less_mult_imp_div_less mult.commute)
    show "bit_at ?b' (bv_size b) = x"
      by (simp add: bit_at_def size)
  qed
  moreover have "wf_bitvec ?b'"
    by (cases x) (auto simp: wf_bitvec_def bit_1_iff)
  ultimately show ?thesis using full by (simp add: bv_push_def)
qed

lemma bv_push_room:
  assumes wf: "wf_bitvec b" and room: "len_of_last b \<noteq> 32"
  shows "\<exists>b'. bv_push b x = Ret b' \<and> wf_bitvec b' \<and> bits b' = bits b @ [x]"
proof -
  define k where "k = unat (len_of_last b)"
  obtain ys w where st: "storage b = ys @ [w]"
    using wf by (metis append_butlast_last_id wf_storage)
  have k: "k < 32" using wf room
    by (auto simp: k_def wf_bitvec_def le_less word_unat_eq_iff)
  then have l: "checked_add (len_of_last b) 1 = Ret (len_of_last b + 1)"
    and ul: "unat (len_of_last b + 1) = Suc k"
    by (simp_all add: checked_add_def k_def unat_word_ariths)
  let ?w = "if x then w OR push_bit k 1 else w"
  let ?b' = "b\<lparr>storage := ys @ [?w], len_of_last := len_of_last b + 1\<rparr>"
  have wbits: "\<not> bit w i" if "k \<le> i" "i < 32" for i
    using wf that by (auto simp: wf_bitvec_def st k_def)
  have bw: "bit ?w i = (if i = k then x else bit w i)" if "i < 32" for i
    using that k wbits [of k] by (auto simp: bit_or_iff bit_exp_iff)
  have size: "bv_size b = 32 * length ys + k" by (simp add: bv_size_def st k_def)
  have "bits ?b' = bits b @ [x]"
  proof (rule bits_snocI)
    show "bv_size ?b' = Suc (bv_size b)"
      using ul by (simp add: size) (simp add: bv_size_def)
    show "bit_at ?b' i = bit_at b i" if "i < bv_size b" for i
    proof (cases "i div 32 < length ys")
      case False
      with that size k have d: "i div 32 = length ys" by auto
      moreover have "i mod 32 < k"
        using that size mult_div_mod_eq [of 32 i] unfolding d by linarith
      ultimately have "i div 32 = length ys" "i mod 32 < k" by simp_all
      with k show ?thesis using bw [of "i mod 32"] by (auto simp: bit_at_def st nth_append)
    qed (simp add: bit_at_def st nth_append)
    show "bit_at ?b' (bv_size b) = x"
      using k bw [of k] by (simp add: bit_at_def size nth_append)
  qed
  moreover have "wf_bitvec ?b'"
    using k ul wbits wf bw by (auto simp: wf_bitvec_def st k_def [symmetric])
  moreover have "bv_push b x = Ret ?b'"
    using room k by (simp add: bv_push_def l st checked_shl_one k_def)
  ultimately show ?thesis by blast
qed

lemma bv_push_ok:
  "wf_bitvec b \<Longrightarrow> \<exists>b'. bv_push b x = Ret b' \<and> wf_bitvec b' \<and> bits b' = bits b @ [x]"
  using bv_push_full bv_push_room by blast

lemma wf_bv_new [simp]: "wf_bitvec bv_new" and bits_bv_new [simp]: "bits bv_new = []"
  by (simp_all add: wf_bitvec_def bv_new_def bits_def bv_size_def)

text \<open>
  The representation is canonical: the words and the fill of the last one are determined by
  the bits, because unused bits are zero and only the empty vector has an empty last word.
\<close>

lemma wf_shape:
  assumes "wf_bitvec b"
  shows "length (storage b) = Suc ((bv_size b - 1) div 32)"
    and "unat (len_of_last b) = bv_size b - 32 * ((bv_size b - 1) div 32)"
proof -
  obtain n where n: "length (storage b) = Suc n"
    using assms by (cases "storage b") (auto simp: wf_bitvec_def)
  have "n = 0 \<or> unat (len_of_last b) \<noteq> 0" and "unat (len_of_last b) \<le> 32"
    using assms n by (auto simp: wf_bitvec_def unat_eq_zero)
  then have "(32 * n + unat (len_of_last b) - 1) div 32 = n" by auto
  then show "length (storage b) = Suc ((bv_size b - 1) div 32)"
    and "unat (len_of_last b) = bv_size b - 32 * ((bv_size b - 1) div 32)"
    by (simp_all add: bv_size_def n)
qed

lemma wf_storage_bit:
  assumes "wf_bitvec b" "j < length (storage b)" "i < 32"
  shows "bit (storage b ! j) i \<longleftrightarrow> 32 * j + i < bv_size b \<and> bits b ! (32 * j + i)"
proof (cases "32 * j + i < bv_size b")
  case True
  with \<open>i < 32\<close> show ?thesis by (simp add: nth_bits bit_at_def)
next
  case False
  with assms have "Suc j = length (storage b)" and i: "unat (len_of_last b) \<le> i"
    by (auto simp: bv_size_def)
  then have "storage b ! j = last (storage b)"
    using assms by (simp add: last_conv_nth wf_storage flip: \<open>Suc j = length (storage b)\<close>)
  with False i assms show ?thesis by (simp add: wf_bitvec_def)
qed

lemma bits_inj:
  assumes a: "wf_bitvec a" and b: "wf_bitvec b" and eq: "bits a = bits b"
  shows "a = b"
proof -
  have size: "bv_size a = bv_size b" using arg_cong [OF eq, of length] by simp
  have "storage a = storage b"
  proof (rule nth_equalityI)
    show "length (storage a) = length (storage b)"
      using wf_shape(1) [OF a] wf_shape(1) [OF b] size by simp
    fix j assume j: "j < length (storage a)"
    with \<open>length (storage a) = _\<close> have j': "j < length (storage b)" by simp
    show "storage a ! j = storage b ! j"
      by (rule bit_word_eqI) (use wf_storage_bit [OF a j] wf_storage_bit [OF b j'] eq size in simp)
  qed
  moreover have "len_of_last a = len_of_last b"
    using wf_shape(2) [OF a] wf_shape(2) [OF b] size by (simp add: word_unat_eq_iff)
  ultimately show ?thesis by simp
qed

interpretation bv: bit_sequence bv_new bv_push bv_len bv_get bits wf_bitvec
proof unfold_locales
  show "wf_bitvec bv_new" and "bits bv_new = []" by simp_all
  show "\<exists>b'. bv_push b x = Ret b' \<and> wf_bitvec b' \<and> bits b' = bits b @ [x]" if "wf_bitvec b" for b x
    using that by (rule bv_push_ok)
  show "bv_len b = Ret (word_of_nat (length (bits b)))"
    if "wf_bitvec b" "length (bits b) < 2 ^ 64" for b
    using that by (simp add: bv_len_ok wf_storage)
  show "bv_get b i = Ret (if unat i < length (bits b) then Some (bits b ! unat i) else None)"
    if "wf_bitvec b" "length (bits b) < 2 ^ 64" for b i
    using that by (simp add: bv_get_ok)
  show "a = b" if "wf_bitvec a" "wf_bitvec b" "bits a = bits b" for a b
    using that by (rule bits_inj)
qed

subsection \<open>Loops over bits\<close>

lemma bv_from_slice_ok: "\<exists>b. bv_from_slice xs = Ret b \<and> wf_bitvec b \<and> bits b = xs"
  using bv.push_list_new by (simp add: bv_from_slice_def)

lemma bv_is_empty_iff: "wf_bitvec b \<Longrightarrow> bv_is_empty b \<longleftrightarrow> bits b = []"
  by (auto simp: bv_is_empty_def wf_bitvec_def bits_def bv_size_def unat_eq_zero)

lemma bv_iter_next_ok:
  assumes "wf_bitvec (it_bitvec it)" "bv_size (it_bitvec it) < 2 ^ 64"
  shows "bv_iter_next it =
    (if unat (bit_counter it) < bv_size (it_bitvec it)
     then Ret (it\<lparr>bit_counter := bit_counter it + 1\<rparr>, Some (bits (it_bitvec it) ! unat (bit_counter it)))
     else Ret (it, None))"
  using assms by (simp add: bv_iter_next_def bv_get_ok checked_add_def)

text \<open>The loop of \<open>append\<close> pushes the bits the iterator has not yet given.\<close>

lemma bv_append_loop_eq:
  assumes "wf_bitvec (it_bitvec it)" "bv_size (it_bitvec it) < 2 ^ 64"
  shows "bv_append_loop acc it = rfold bv_push acc (drop (unat (bit_counter it)) (bits (it_bitvec it)))"
  using assms
proof (induction acc it rule: bv_append_loop.induct)
  case (1 acc it)
  let ?o = "it_bitvec it" and ?c = "bit_counter it"
  note nx = bv_iter_next_ok [OF "1.prems"]
  show ?case
  proof (cases "unat ?c < bv_size ?o")
    case True
    let ?it = "it\<lparr>bit_counter := ?c + 1\<rparr>"
    have c: "unat (?c + 1) = Suc (unat ?c)"
      using True "1.prems" by (intro unat_Suc_less [of _ "word_of_nat (bv_size ?o)"])
        (simp add: usize_less_of_nat_iff)
    have "bv_append_loop acc it = rbind (bv_push acc (bits ?o ! unat ?c)) (\<lambda>acc'. bv_append_loop acc' ?it)"
      using True by (simp add: bv_append_loop.simps [of acc it] nx)
    also have "\<dots> = rbind (bv_push acc (bits ?o ! unat ?c)) (\<lambda>acc'. rfold bv_push acc' (drop (Suc (unat ?c)) (bits ?o)))"
    proof (rule rbind_cong [OF refl])
      fix acc' assume "bv_push acc (bits ?o ! unat ?c) = Ret acc'"
      with "1.IH" [OF _ refl refl, of ?it "bits ?o ! unat ?c"] True "1.prems"
      show "bv_append_loop acc' ?it = rfold bv_push acc' (drop (Suc (unat ?c)) (bits ?o))"
        by (simp add: nx c)
    qed
    also have "\<dots> = rfold bv_push acc (drop (unat ?c) (bits ?o))"
      using True by (simp add: Cons_nth_drop_Suc [symmetric])
    finally show ?thesis .
  next
    case False
    then show ?thesis by (simp add: bv_append_loop.simps [of acc it] nx)
  qed
qed

lemma bv_append_eq:
  "wf_bitvec other \<Longrightarrow> bv_size other < 2 ^ 64 \<Longrightarrow> bv_append b other = rfold bv_push b (bits other)"
  by (simp add: bv_append_def bv_append_loop_eq bv_into_iter_def)

lemma bv_append_ok:
  "wf_bitvec b \<Longrightarrow> wf_bitvec other \<Longrightarrow> bv_size other < 2 ^ 64 \<Longrightarrow>
     \<exists>b'. bv_append b other = Ret b' \<and> wf_bitvec b' \<and> bits b' = bits b @ bits other"
  by (simp add: bv_append_eq bv.push_list)

text \<open>The loop of \<open>range\<close> pushes a slice, or finds a bit missing.\<close>

lemma bv_range_loop_eq:
  assumes "wf_bitvec b" "bv_size b < 2 ^ 64" "wf_bitvec acc"
  shows "bv_range_loop b acc i e =
    (if unat e \<le> max (unat i) (bv_size b)
     then rbind (rfold bv_push acc (take (unat e - unat i) (drop (unat i) (bits b)))) (\<lambda>r. Ret (Some r))
     else Ret None)"
  using assms
proof (induction b acc i e rule: bv_range_loop.induct)
  case (1 b acc i e)
  show ?case
  proof (cases "i < e \<and> unat i < bv_size b")
    case True
    obtain acc' where acc': "bv_push acc (bits b ! unat i) = Ret acc'" "wf_bitvec acc'"
      using bv_push_ok "1.prems" by blast
    have c: "unat (i + 1) = Suc (unat i)" using True by (blast intro: unat_Suc_less)
    have "take (unat e - unat i) (drop (unat i) (bits b)) =
        bits b ! unat i # take (unat e - Suc (unat i)) (drop (Suc (unat i)) (bits b))"
      using True by (simp add: Cons_nth_drop_Suc [symmetric] take_Cons' word_less_nat_alt)
    moreover have "bv_range_loop b acc i e = bv_range_loop b acc' (i + 1) e"
      using True "1.prems" acc' by (simp add: bv_range_loop.simps [of b acc i e] bv_get_ok)
    moreover have "unat e \<le> max (unat i) (bv_size b) \<longleftrightarrow> unat e \<le> max (Suc (unat i)) (bv_size b)"
      using True by auto
    ultimately show ?thesis
      using "1.IH" [OF _ _ refl, of "bits b ! unat i" acc'] True "1.prems" acc' c
      by (simp add: bv_get_ok)
  next
    case False
    then show ?thesis
      using "1.prems" by (auto simp: bv_range_loop.simps [of b acc i e] bv_get_ok word_less_nat_alt)
  qed
qed

lemma bv_range_ok:
  assumes "wf_bitvec b" "bv_size b < 2 ^ 64" "unat s \<le> unat e" "unat e \<le> bv_size b"
  shows "\<exists>r. bv_range b s e = Ret (Some r) \<and> wf_bitvec r \<and>
    bits r = take (unat e - unat s) (drop (unat s) (bits b))"
  using assms bv.push_list_new [of "take (unat e - unat s) (drop (unat s) (bits b))"]
  by (auto simp: bv_range_def bv_range_loop_eq)

lemma bv_range_missing:
  "wf_bitvec b \<Longrightarrow> bv_size b < 2 ^ 64 \<Longrightarrow> unat s < unat e \<Longrightarrow> bv_size b < unat e \<Longrightarrow>
     bv_range b s e = Ret None"
  by (simp add: bv_range_def bv_range_loop_eq)

text \<open>
  A slice has the announced length and is well-formed, whatever vector it is taken from: it is
  built by \<open>push\<close> from the empty vector.
\<close>

lemma bv_range_loop_Some:
  "bv_range_loop b acc i e = Ret (Some r) \<Longrightarrow> wf_bitvec acc \<Longrightarrow>
     wf_bitvec r \<and> bv_size r = bv_size acc + (unat e - unat i)"
proof (induction b acc i e rule: bv_range_loop.induct)
  case (1 b acc i e)
  show ?case
  proof (cases "i < e")
    case True
    with "1.prems"(1) obtain x where get: "bv_get b i = Ret (Some x)"
      by (auto simp: bv_range_loop.simps [of b acc i e] rbind_Ret_iff split: option.splits)
    obtain acc' where acc': "bv_push acc x = Ret acc'" "wf_bitvec acc'" "bits acc' = bits acc @ [x]"
      using bv_push_ok "1.prems"(2) by blast
    from acc'(3) have "bv_size acc' = Suc (bv_size acc)" by (metis length_append_singleton length_bits)
    moreover have "bv_range_loop b acc' (i + 1) e = Ret (Some r)"
      using "1.prems"(1) True get acc'(1) by (simp add: bv_range_loop.simps [of b acc i e])
    ultimately show ?thesis
      using "1.IH" [OF True get refl acc'(1)] acc'(2) True by (simp add: unat_Suc_less word_less_nat_alt)
  next
    case False
    with "1.prems" show ?thesis by (simp add: bv_range_loop.simps [of b acc i e] word_less_nat_alt)
  qed
qed

lemma bv_range_Some: "bv_range b s e = Ret (Some r) \<Longrightarrow> wf_bitvec r \<and> bv_size r = unat e - unat s"
  using bv_range_loop_Some [of b bv_new s e r] length_bits [of bv_new] by (simp add: bv_range_def del: length_bits)

text \<open>What the deserializer can make: no operation that reads a value reads out of bounds.\<close>

lemma bv_len_Panic_iff: "bv_len b = Panic \<longleftrightarrow>
    vec_len (storage b) = 0 \<or> 2 ^ 64 \<le> 32 * unat (vec_len (storage b) - 1) \<or>
    2 ^ 64 \<le> 32 * unat (vec_len (storage b) - 1) + unat (len_of_last b)"
proof (cases "vec_len (storage b) = 0")
  case True
  then show ?thesis by (simp add: bv_len_def checked_sub_def word_le_nat_alt)
next
  case False
  define n where "n = vec_len (storage b) - 1"
  from False have "checked_sub (vec_len (storage b)) 1 = Ret n"
    by (simp add: checked_sub_def n_def word_le_nat_alt unat_gt_0 Suc_le_eq)
  then have "bv_len b = rbind (checked_mul 32 n) (\<lambda>m. checked_add m (ucast (len_of_last b)))"
    by (simp add: bv_len_def)
  then have "bv_len b = Panic \<longleftrightarrow> 2 ^ 64 \<le> 32 * unat n \<or> 2 ^ 64 \<le> 32 * unat n + unat (len_of_last b)"
    by (cases "checked_mul 32 n") (auto simp: outcome_simps)
  with False show ?thesis by (simp add: n_def)
qed

lemma bv_get_Panic_iff: "bv_get b i = Panic \<longleftrightarrow> bv_len b = Panic"
proof -
  have "unat (ucast (i mod 32) :: u32) < 32"
    by (simp add: unsigned_ucast_eq unat_mod take_bit_nat_less_eq_self [THEN le_less_trans])
  then show ?thesis by (auto simp: bv_get_def outcome_simps checked_shl_one)
qed

text \<open>None of the loops runs for ever, on any value.\<close>

lemma bv_len_returns [returns]: "bv_len b \<noteq> Diverge"
  by (simp add: bv_len_def outcome_simps)

lemma bv_push_returns [returns]: "bv_push b x \<noteq> Diverge"
  by (auto simp: bv_push_def outcome_simps split: option.split)

lemma bv_get_returns [returns]: "bv_get b i \<noteq> Diverge"
  by (auto simp: bv_get_def outcome_simps returns split: option.split)

lemma bv_range_loop_returns: "bv_range_loop b acc i e \<noteq> Diverge"
proof (induction b acc i e rule: bv_range_loop.induct)
  case (1 b acc i e)
  then show ?case
    by (auto simp: bv_range_loop.simps [of b acc i e] outcome_simps returns split: option.split)
qed

lemma bv_range_returns [returns]: "bv_range b s e \<noteq> Diverge"
  by (simp add: bv_range_def bv_range_loop_returns)

lemma bv_iter_next_returns [returns]: "bv_iter_next it \<noteq> Diverge"
  unfolding bv_iter_next_def by (intro rbind_returns option_returns) (simp_all add: returns)

lemma bv_append_loop_returns: "bv_append_loop acc it \<noteq> Diverge"
proof (induction acc it rule: bv_append_loop.induct)
  case (1 acc it)
  then show ?case
    by (auto simp: bv_append_loop.simps [of acc it] outcome_simps returns split: option.split)
qed

lemma bv_append_returns [returns]: "bv_append b c \<noteq> Diverge"
  by (simp add: bv_append_def bv_append_loop_returns)

subsection \<open>Properties\<close>

text \<open>
  C17: a vector built from a slice holds exactly the bits of the slice: its length is the
  slice's, \<open>get\<close> returns the bit at every index below it and \<open>None\<close> from there on, and no
  operation panics.
\<close>

theorem from_slice_get:
  assumes "length xs < 2 ^ 64"
  shows "\<exists>b. bv_from_slice xs = Ret b \<and> bv_len b = Ret (word_of_nat (length xs)) \<and>
    (\<forall>i. bv_get b i = Ret (if unat i < length xs then Some (xs ! unat i) else None))"
proof -
  obtain b where "bv_from_slice xs = Ret b" "wf_bitvec b" "bits b = xs"
    using bv_from_slice_ok by blast
  with assms show ?thesis using bv.len_law [of b] bv.get_law [of b] by auto
qed

theorem from_slice_get_witness:
  "\<exists>b. bv_from_slice [True, False, True] = Ret b \<and> bv_len b = Ret 3 \<and>
    bv_get b 1 = Ret (Some False) \<and> bv_get b 3 = Ret None"
proof -
  have "length [True, False, True] < 2 ^ 64" by simp
  from from_slice_get [OF this] obtain b where b: "bv_from_slice [True, False, True] = Ret b"
    "bv_len b = Ret 3" "\<And>i. bv_get b i =
      Ret (if unat i < 3 then Some ([True, False, True] ! unat i) else None)"
    by auto
  then show ?thesis using b(3) [of 1] b(3) [of 3] by auto
qed

text \<open>
  C18: the derived equality of two well-formed vectors is equality of their contents: they
  are equal exactly when \<open>get\<close> answers the same at every index. (Unused bits of the last word
  are zero, so equal contents have equal words.)
\<close>

theorem bitvec_equality:
  assumes "wf_bitvec a" "wf_bitvec b" "bv_size a < 2 ^ 64" "bv_size b < 2 ^ 64"
  shows "a = b \<longleftrightarrow> (\<forall>i. bv_get a i = bv_get b i)"
proof
  assume gets: "\<forall>i. bv_get a i = bv_get b i"
  have at: "(if n < bv_size a then Some (bits a ! n) else None) =
      (if n < bv_size b then Some (bits b ! n) else None)" if "n < 2 ^ 64" for n
  proof -
    have "unat (word_of_nat n :: usize) = n" using that by (rule unat_of_nat_usize)
    with spec [OF gets, of "word_of_nat n"] assms show ?thesis by (auto simp: bv_get_ok split: if_splits)
  qed
  have "bv_size a = bv_size b"
    using at [of "bv_size a"] at [of "bv_size b"] assms(3,4) by (auto split: if_splits)
  moreover have "bits a ! n = bits b ! n" if "n < bv_size a" for n
    using at [of n] that assms(3) \<open>bv_size a = bv_size b\<close> by simp
  ultimately have "bits a = bits b" by (simp add: list_eq_iff_nth_eq)
  with assms(1,2) show "a = b" by (rule bits_inj)
qed simp

theorem bitvec_equality_witness:
  "\<lparr>storage = [1], len_of_last = 1\<rparr> \<noteq> bv_new \<and>
     \<not> (\<forall>i. bv_get \<lparr>storage = [1], len_of_last = 1\<rparr> i = bv_get bv_new i)"
proof -
  let ?a = "\<lparr>storage = [1], len_of_last = 1\<rparr>"
  have "wf_bitvec ?a" "bv_size ?a < 2 ^ 64" "bv_size bv_new < 2 ^ 64"
    by (auto simp: wf_bitvec_def bv_size_def bv_new_def bit_1_iff)
  then have "?a = bv_new \<longleftrightarrow> (\<forall>i. bv_get ?a i = bv_get bv_new i)"
    by (intro bitvec_equality) simp_all
  moreover have "?a \<noteq> bv_new" by (simp add: bv_new_def)
  ultimately show ?thesis by blast
qed

text \<open>
  C19: appending and slicing are inverse: after \<open>a.append(b)\<close> the first \<open>a.len()\<close> bits are
  \<open>a\<close> and the rest are \<open>b\<close>, as equal values.
\<close>

theorem append_range:
  assumes "wf_bitvec a" "wf_bitvec b" "bv_size a + bv_size b < 2 ^ 64"
  shows "\<exists>c. bv_append a b = Ret c \<and>
    bv_range c 0 (word_of_nat (bv_size a)) = Ret (Some a) \<and>
    bv_range c (word_of_nat (bv_size a)) (word_of_nat (bv_size a + bv_size b)) = Ret (Some b)"
proof -
  obtain c where c: "bv_append a b = Ret c" "wf_bitvec c" "bits c = bits a @ bits b"
    using bv_append_ok [OF assms(1,2)] assms(3) by auto
  have size: "bv_size c = bv_size a + bv_size b"
    using arg_cong [OF c(3), of length] by simp
  let ?m = "word_of_nat (bv_size a) :: usize" and ?n = "word_of_nat (bv_size a + bv_size b) :: usize"
  have u: "unat ?m = bv_size a" using assms(3) by (intro unat_of_nat_usize) simp
  have v: "unat ?n = bv_size a + bv_size b" using assms(3) by (intro unat_of_nat_usize) simp
  obtain r1 where r1: "bv_range c 0 ?m = Ret (Some r1)" "wf_bitvec r1" "bits r1 = bits a"
    using bv_range_ok [OF c(2), of 0 ?m] assms(3) size u c(3) by auto
  obtain r2 where r2: "bv_range c ?m ?n = Ret (Some r2)" "wf_bitvec r2" "bits r2 = bits b"
    using bv_range_ok [OF c(2), of ?m ?n] assms(3) size u v c(3) by (auto simp del: of_nat_add)
  from r1 r2 assms(1,2) have "r1 = a" "r2 = b" by (auto intro: bits_inj)
  with c r1 r2 show ?thesis by blast
qed

theorem append_range_witness:
  "\<exists>c. bv_append \<lparr>storage = [5], len_of_last = 3\<rparr> \<lparr>storage = [2], len_of_last = 2\<rparr> = Ret c \<and>
     bv_range c 0 3 = Ret (Some \<lparr>storage = [5], len_of_last = 3\<rparr>) \<and>
     bv_range c 3 5 = Ret (Some \<lparr>storage = [2], len_of_last = 2\<rparr>)"
proof -
  let ?a = "\<lparr>storage = [5], len_of_last = 3\<rparr>" and ?b = "\<lparr>storage = [2], len_of_last = 2\<rparr>"
  have "bv_size ?a = 3" "bv_size ?b = 2" by (simp_all add: bv_size_def)
  moreover have "wf_bitvec ?a" "wf_bitvec ?b"
    by (auto simp: wf_bitvec_def bit_numeral_rec bit_1_iff split: nat.split)
  ultimately show ?thesis using append_range [of ?a ?b] by simp
qed

text \<open>
  C20: the representation invariant (a last word exists, at most 32 bits of it are in use,
  the unused ones are zero, and only the empty vector has none in use) holds of the new
  vector and of one made by \<open>from_slice\<close>, and is kept by \<open>push\<close>, \<open>append\<close> and \<open>range\<close>. None of
  them panics, and their results have the sizes of the slice, one bit more, the sum, and the
  range.
\<close>

theorem bitvec_invariant:
  assumes "wf_bitvec b" "wf_bitvec other" "bv_size b < 2 ^ 64" "bv_size other < 2 ^ 64"
  shows "wf_bitvec bv_new \<and>
    (\<exists>b'. bv_from_slice xs = Ret b' \<and> wf_bitvec b' \<and> bv_size b' = length xs) \<and>
    (\<exists>b'. bv_push b x = Ret b' \<and> wf_bitvec b' \<and> bv_size b' = Suc (bv_size b)) \<and>
    (\<exists>b'. bv_append b other = Ret b' \<and> wf_bitvec b' \<and> bv_size b' = bv_size b + bv_size other) \<and>
    (\<exists>r. bv_range b s e = Ret r \<and> pred_option (\<lambda>b'. wf_bitvec b' \<and> bv_size b' = unat e - unat s) r)"
proof (intro conjI)
  show "wf_bitvec bv_new" by simp
  show "\<exists>b'. bv_from_slice xs = Ret b' \<and> wf_bitvec b' \<and> bv_size b' = length xs"
    using bv_from_slice_ok [of xs] by (metis length_bits)
  show "\<exists>b'. bv_push b x = Ret b' \<and> wf_bitvec b' \<and> bv_size b' = Suc (bv_size b)"
    using bv_push_ok [OF assms(1), of x] by (metis length_append_singleton length_bits)
  show "\<exists>b'. bv_append b other = Ret b' \<and> wf_bitvec b' \<and> bv_size b' = bv_size b + bv_size other"
    using bv_append_ok [OF assms(1,2,4)] by (metis length_append length_bits)
  have "\<exists>r. bv_range b s e = Ret r"
    using bv.push_list [OF wf_bv_new, of "take (unat e - unat s) (drop (unat s) (bits b))"] assms
    by (auto simp: bv_range_def bv_range_loop_eq)
  then obtain r where "bv_range b s e = Ret r" ..
  then show "\<exists>r. bv_range b s e = Ret r \<and> pred_option (\<lambda>b'. wf_bitvec b' \<and> bv_size b' = unat e - unat s) r"
    using bv_range_Some [of b s e] by (cases r) simp_all
qed

theorem bitvec_invariant_witness:
  "(\<exists>b'. bv_push bv_new True = Ret b' \<and> wf_bitvec b' \<and> bv_size b' = 1) \<and>
   (\<exists>b'. bv_from_slice [True, False] = Ret b' \<and> wf_bitvec b' \<and> bv_size b' = 2)"
proof -
  have size: "bv_size bv_new = 0" by (simp add: bv_size_def bv_new_def)
  then show ?thesis
    using bitvec_invariant [of bv_new bv_new "[True, False]" True 0 0] by (simp add: numeral_2_eq_2)
qed

end
