(* ===== verification/Compression.thy ===== *)
theory Compression
  imports BitVec
begin

text \<open>
  The run-length coder of \<^verbatim>\<open>src/bitvec.rs\<close>: the functions \<open>compress\<close> and \<open>decompress\<close> and
  the two methods of \<open>CompressedBitVec\<close>. \<open>rle_encode\<close> and \<open>rle_decode\<close> are the reference
  coder on plain lists of bits; the code refines them (\<open>compress_refines\<close>,
  \<open>decompress_refines\<close>), and the round trip is proved once, on the reference.
\<close>

record compressed_bitvec =
  comp_bits :: bitvec
  element_size :: usize

fun compress_loop :: "usize \<Rightarrow> bitvec option \<Rightarrow> bitvec \<Rightarrow> bitvec list \<Rightarrow> bitvec option rust" where
  "compress_loop es previous payload [] = Ret (Some payload)"
| "compress_loop es previous payload (element # rest) =
     rbind (bv_len element) (\<lambda>n.
       if n \<noteq> es then Ret None
       else if (case previous of None \<Rightarrow> True | Some p \<Rightarrow> element \<noteq> p) then
         rbind (bv_push payload True) (\<lambda>payload1.
         rbind (bv_append payload1 element) (\<lambda>payload2.
         compress_loop es (Some element) payload2 rest))
       else if (case previous of None \<Rightarrow> False | Some p \<Rightarrow> element = p) then
         rbind (bv_push payload False) (\<lambda>payload1. compress_loop es previous payload1 rest)
       else compress_loop es previous payload rest)"

definition compress :: "usize \<Rightarrow> bitvec list \<Rightarrow> bitvec option rust" where
  "compress es elements = compress_loop es None bv_new elements"

function decompress_loop ::
  "usize \<Rightarrow> bitvec \<Rightarrow> bitvec list \<Rightarrow> usize \<Rightarrow> bitvec option \<Rightarrow> bitvec list option rust" where
  "decompress_loop es payload out idx previous =
     rbind (bv_len payload) (\<lambda>n.
       if idx < n then
         rbind (bv_get payload idx) (\<lambda>r.
           case r of
             None \<Rightarrow> Ret None
           | Some True \<Rightarrow>
               rbind (checked_add idx 1) (\<lambda>start.
               rbind (checked_add idx es) (\<lambda>t.
               rbind (checked_add t 1) (\<lambda>end_idx.
               rbind (bv_range payload start end_idx) (\<lambda>r.
                 case r of
                   None \<Rightarrow> Ret None
                 | Some element \<Rightarrow>
                     rbind (checked_add es 1) (\<lambda>d.
                     rbind (checked_add idx d) (\<lambda>idx'.
                     decompress_loop es payload (out @ [element]) idx' (Some element)))))))
           | Some False \<Rightarrow>
               (case previous of
                  Some element \<Rightarrow>
                    rbind (checked_add idx 1) (\<lambda>idx'.
                    decompress_loop es payload (out @ [element]) idx' previous)
                | None \<Rightarrow> Ret None))
       else Ret (Some out))"
  by pat_completeness auto
termination
proof (relation "measure (\<lambda>(es, payload, out, idx, previous). 2 ^ 64 - unat idx)", goal_cases)
  case (2 es payload out idx previous n r x start t end_idx r' element d idx')
  then have "unat idx < unat idx'" by (simp add: outcome_simps)
  then show ?case using unat_usize_less [of idx'] by simp
next
  case (3 es payload out idx previous n r x element idx')
  then have "unat idx < unat idx'" by (simp add: outcome_simps)
  then show ?case using unat_usize_less [of idx'] by simp
qed simp

declare decompress_loop.simps [simp del]

definition decompress :: "usize \<Rightarrow> bitvec \<Rightarrow> bitvec list option rust" where
  "decompress es payload = decompress_loop es payload [] 0 None"

definition cbv_compress :: "bitvec list \<Rightarrow> compressed_bitvec option rust" where
  "cbv_compress elements =
     rbind (case elements of [] \<Rightarrow> Ret 0 | element # _ \<Rightarrow> bv_len element) (\<lambda>es.
     rbind (compress es elements) (\<lambda>r.
       case r of
         None \<Rightarrow> Ret None
       | Some b \<Rightarrow> Ret (Some \<lparr>comp_bits = b, element_size = es\<rparr>)))"

definition cbv_decompress :: "compressed_bitvec \<Rightarrow> bitvec list option rust" where
  "cbv_decompress c = decompress (element_size c) (comp_bits c)"

subsection \<open>The reference coder on lists of bits\<close>

fun rle_encode :: "bool list option \<Rightarrow> bool list list \<Rightarrow> bool list" where
  "rle_encode prev [] = []"
| "rle_encode prev (x # xs) =
     (if prev = Some x then False # rle_encode prev xs else True # x @ rle_encode (Some x) xs)"

fun rle_decode :: "nat \<Rightarrow> bool list option \<Rightarrow> bool list \<Rightarrow> bool list list option" where
  "rle_decode n prev [] = Some []"
| "rle_decode n prev (True # bs) =
     (if length bs < n then None
      else map_option (Cons (take n bs)) (rle_decode n (Some (take n bs)) (drop n bs)))"
| "rle_decode n None (False # bs) = None"
| "rle_decode n (Some p) (False # bs) = map_option (Cons p) (rle_decode n (Some p) bs)"

lemma rle_roundtrip: "list_all (\<lambda>x. length x = n) xs \<Longrightarrow> rle_decode n prev (rle_encode prev xs) = Some xs"
  by (induction prev xs rule: rle_encode.induct) auto

lemma rle_decode_lengths:
  "rle_decode n prev bs = Some xs \<Longrightarrow> pred_option (\<lambda>p. length p = n) prev \<Longrightarrow>
     list_all (\<lambda>x. length x = n) xs"
  by (induction n prev bs arbitrary: xs rule: rle_decode.induct) (fastforce split: if_splits)+

lemma rle_encode_length_le:
  "list_all (\<lambda>x. length x = n) xs \<Longrightarrow> length (rle_encode prev xs) \<le> length xs * Suc n"
  by (induction prev xs rule: rle_encode.induct) auto

lemma rle_encode_length_ge: "length xs \<le> length (rle_encode prev xs)"
  by (induction prev xs rule: rle_encode.induct) auto

subsection \<open>The code refines the reference coder\<close>

text \<open>The vector that holds given bits.\<close>

definition bitvec_of :: "bool list \<Rightarrow> bitvec" where
  "bitvec_of xs = (case bv_from_slice xs of Ret b \<Rightarrow> b | _ \<Rightarrow> bv_new)"

lemma wf_bitvec_of [simp]: "wf_bitvec (bitvec_of xs)"
  and bits_bitvec_of [simp]: "bits (bitvec_of xs) = xs"
  using bv_from_slice_ok [of xs] by (auto simp: bitvec_of_def)

lemma bv_size_bitvec_of [simp]: "bv_size (bitvec_of xs) = length xs"
  by (metis length_bits bits_bitvec_of)

lemma bitvec_of_bits [simp]: "wf_bitvec b \<Longrightarrow> bitvec_of (bits b) = b"
  by (simp add: bits_inj)

lemma eq_bitvec_ofI: "wf_bitvec b \<Longrightarrow> bits b = xs \<Longrightarrow> b = bitvec_of xs"
  by auto

lemma bv_push_bitvec_of: "wf_bitvec b \<Longrightarrow> bv_push b x = Ret (bitvec_of (bits b @ [x]))"
  using bv_push_ok [of b x] by (auto intro: eq_bitvec_ofI)

lemma bv_append_bitvec_of:
  "wf_bitvec b \<Longrightarrow> wf_bitvec c \<Longrightarrow> bv_size c < 2 ^ 64 \<Longrightarrow>
     bv_append b c = Ret (bitvec_of (bits b @ bits c))"
  using bv_append_ok [of b c] by (auto intro: eq_bitvec_ofI)

lemma bv_range_bitvec_of:
  assumes "wf_bitvec b" "bv_size b < 2 ^ 64" "unat s \<le> unat e"
  shows "bv_range b s e =
    Ret (if unat e \<le> bv_size b \<or> s = e
         then Some (bitvec_of (take (unat e - unat s) (drop (unat s) (bits b)))) else None)"
proof (cases "s = e")
  case True
  then show ?thesis by (simp add: bv_range_def bv_range_loop.simps eq_bitvec_ofI)
next
  case False
  with assms have "unat s < unat e" by (simp add: word_unat_eq_iff)
  with assms show ?thesis
    using bv_range_ok [OF assms(1,2), of s e] bv_range_missing [OF assms(1,2), of s e]
    by (cases "unat e \<le> bv_size b") (auto intro: eq_bitvec_ofI)
qed

lemma compress_loop_refines:
  assumes "list_all (\<lambda>b. wf_bitvec b \<and> bv_size b < 2 ^ 64) elements" "wf_bitvec payload"
    and "\<And>p. previous = Some p \<Longrightarrow> wf_bitvec p"
  shows "compress_loop es previous payload elements =
    Ret (if list_all (\<lambda>b. bv_size b = unat es) elements
         then Some (bitvec_of (bits payload @ rle_encode (map_option bits previous) (map bits elements)))
         else None)"
  using assms
proof (induction es previous payload elements rule: compress_loop.induct)
  case (1 es previous payload)
  then show ?case by simp
next
  case (2 es previous payload element rest)
  then have el: "wf_bitvec element" "bv_size element < 2 ^ 64" by simp_all
  have len: "bv_len element = Ret (word_of_nat (bv_size element))"
    using el by (simp add: bv_len_ok wf_storage)
  have es: "word_of_nat (bv_size element) = es \<longleftrightarrow> bv_size element = unat es"
    using el by (auto simp: unat_of_nat_usize word_unat_eq_iff)
  show ?case
  proof (cases "bv_size element = unat es")
    case False
    with es show ?thesis by (simp add: len)
  next
    case True
    show ?thesis
    proof (cases "previous = Some element")
      case same: True
      with True es "2.prems" show ?thesis
        using "2.IH"(2) [of "word_of_nat (bv_size element)" "bitvec_of (bits payload @ [False])"]
        by (simp add: len bv_push_bitvec_of)
    next
      case differs: False
      then have "map_option bits previous \<noteq> Some (bits element)"
        using "2.prems"(3) el by (auto dest: bits_inj)
      moreover from differs have "case previous of None \<Rightarrow> True | Some p \<Rightarrow> element \<noteq> p"
        by (auto split: option.split)
      ultimately show ?thesis
        using True es "2.prems" el "2.IH"(1) [of "word_of_nat (bv_size element)" "bitvec_of (bits payload @ [True])"
            "bitvec_of (bits payload @ True # bits element)"]
        by (auto simp add: len bv_push_bitvec_of bv_append_bitvec_of)
    qed
  qed
qed

lemma compress_refines:
  assumes "list_all (\<lambda>b. wf_bitvec b \<and> bv_size b < 2 ^ 64) elements"
  shows "compress es elements =
    Ret (if list_all (\<lambda>b. bv_size b = unat es) elements
         then Some (bitvec_of (rle_encode None (map bits elements))) else None)"
  using compress_loop_refines [OF assms wf_bv_new, of None es] by (simp add: compress_def)

text \<open>The loop of \<open>decompress\<close> appends what the reference decodes from the rest of the payload.\<close>

lemma decompress_loop_refines:
  assumes "wf_bitvec payload" "bv_size payload + unat es < 2 ^ 64"
    and "pred_option wf_bitvec previous" "unat idx \<le> bv_size payload"
  shows "decompress_loop es payload out idx previous =
    Ret (map_option (\<lambda>xs. out @ map bitvec_of xs)
      (rle_decode (unat es) (map_option bits previous) (drop (unat idx) (bits payload))))"
  using assms
proof (induction es payload out idx previous rule: decompress_loop.induct)
  case (1 es payload out idx previous)
  let ?n = "bv_size payload" and ?i = "unat idx"
  have n: "?n < 2 ^ 64" using "1.prems" by simp
  have len: "bv_len payload = Ret (word_of_nat ?n)"
    using "1.prems" by (simp add: bv_len_ok wf_storage)
  have iff: "idx < word_of_nat ?n \<longleftrightarrow> ?i < ?n" using n by (rule usize_less_of_nat_iff)
  note unfold = decompress_loop.simps [of es payload out idx previous]
  show ?case
  proof (cases "?i < ?n")
    case False
    with iff show ?thesis by (simp add: unfold len)
  next
    case True
    with iff have lt: "idx < word_of_nat ?n" by blast
    have get: "bv_get payload idx = Ret (Some (bits payload ! ?i))"
      using True "1.prems" n by (simp add: bv_get_ok)
    have rest: "drop ?i (bits payload) = bits payload ! ?i # drop (Suc ?i) (bits payload)"
      using True by (simp add: Cons_nth_drop_Suc)
    show ?thesis
    proof (cases "bits payload ! ?i")
      case bit0: False
      have add: "checked_add idx 1 = Ret (idx + 1)" and u: "unat (idx + 1) = Suc ?i"
        using lt by (simp_all add: unat_Suc_less checked_add_def, insert True n, simp)
      show ?thesis
      proof (cases previous)
        case (Some p)
        with bit0 show ?thesis
          using "1.IH"(2) [of "word_of_nat ?n" "Some False" False p "idx + 1"] "1.prems" True lt
          by (simp add: decompress_loop.simps [of es payload out idx "Some p"] len get rest add u
              option.map_comp comp_def)
      qed (use bit0 lt in \<open>simp add: decompress_loop.simps [of es payload out idx None] len get rest\<close>)
    next
      case bit1: True
      let ?j = "?i + unat es + 1"
      have adds: "checked_add idx 1 = Ret (idx + 1)" "checked_add idx es = Ret (idx + es)"
          "checked_add (idx + es) 1 = Ret (idx + es + 1)"
        and u: "unat (idx + 1) = Suc ?i" "unat (idx + es + 1) = ?j"
        using True "1.prems"(2) by (simp_all add: checked_add_def unat_word_ariths)
      have adds': "checked_add es 1 = Ret (es + 1)" "checked_add idx (es + 1) = Ret (idx + es + 1)"
        using True "1.prems"(2) by (simp_all add: checked_add_def unat_word_ariths)
      let ?el = "bitvec_of (take (unat es) (drop (Suc ?i) (bits payload)))"
      show ?thesis
      proof (cases "?j \<le> ?n")
        case fits: True
        have range: "bv_range payload (idx + 1) (idx + es + 1) = Ret (Some ?el)"
          using fits "1.prems" n u by (simp add: bv_range_bitvec_of)
        have dec: "decompress_loop es payload out idx previous =
            decompress_loop es payload (out @ [?el]) (idx + es + 1) (Some ?el)"
          using bit1 lt by (simp add: unfold len get adds adds' range)
        have "decompress_loop es payload (out @ [?el]) (idx + es + 1) (Some ?el) =
          Ret (map_option (\<lambda>xs. (out @ [?el]) @ map bitvec_of xs)
            (rle_decode (unat es) (map_option bits (Some ?el)) (drop ?j (bits payload))))"
          using "1.IH"(1) [of "word_of_nat ?n" "Some True" True "idx + 1" "idx + es" "idx + es + 1"
              "Some ?el" ?el "es + 1" "idx + es + 1"] bit1 lt fits u "1.prems"
          by (simp add: len get adds adds' range)
        with dec show ?thesis
          using fits bit1
          by (simp add: rest add.commute option.map_comp comp_def)
      next
        case short: False
        have "bv_range payload (idx + 1) (idx + es + 1) = Ret None"
          using short True "1.prems" n u
          by (subst bv_range_bitvec_of) (auto simp: word_unat_eq_iff)
        with short bit1 lt True show ?thesis by (simp add: unfold len get adds rest)
      qed
    qed
  qed
qed

lemma decompress_refines:
  assumes "wf_bitvec payload" "bv_size payload + unat es < 2 ^ 64"
  shows "decompress es payload =
    Ret (map_option (map bitvec_of) (rle_decode (unat es) None (bits payload)))"
  using decompress_loop_refines [OF assms, of None 0 "[]"] by (simp add: decompress_def)

subsection \<open>The methods of CompressedBitVec\<close>

text \<open>A sequence the coder accepts: well-formed vectors, all of \<open>n\<close> bits.\<close>

definition uniform :: "nat \<Rightarrow> bitvec list \<Rightarrow> bool" where
  "uniform n elements \<longleftrightarrow> list_all (\<lambda>b. wf_bitvec b \<and> bv_size b = n) elements"

lemma uniform_simps [simp]:
  "uniform n []" "uniform n (b # bs) \<longleftrightarrow> wf_bitvec b \<and> bv_size b = n \<and> uniform n bs"
  "uniform n (bs @ cs) \<longleftrightarrow> uniform n bs \<and> uniform n cs"
  by (auto simp: uniform_def)

lemma uniform_map_bits: "uniform n elements \<Longrightarrow> list_all (\<lambda>x. length x = n) (map bits elements)"
  by (simp add: uniform_def list_all_iff)

lemma uniform_drop: "uniform n elements \<Longrightarrow> uniform n (drop k elements)"
  by (auto simp: uniform_def list_all_iff dest: in_set_dropD)

lemma map_bitvec_of_bits: "uniform n elements \<Longrightarrow> map (bitvec_of \<circ> bits) elements = elements"
  by (induction elements) auto

text \<open>The element size that \<open>CompressedBitVec::compress\<close> takes from the front element.\<close>

definition front_size :: "bitvec list \<Rightarrow> nat" where
  "front_size elements = (case elements of [] \<Rightarrow> 0 | b # _ \<Rightarrow> bv_size b)"

lemma cbv_compress_refines:
  assumes "list_all (\<lambda>b. wf_bitvec b \<and> bv_size b < 2 ^ 64) elements"
  shows "cbv_compress elements =
    Ret (if list_all (\<lambda>b. bv_size b = front_size elements) elements
         then Some \<lparr>comp_bits = bitvec_of (rle_encode None (map bits elements)),
                    element_size = word_of_nat (front_size elements)\<rparr>
         else None)"
proof -
  have "(case elements of [] \<Rightarrow> Ret 0 | element # _ \<Rightarrow> bv_len element) =
      Ret (word_of_nat (front_size elements))"
    using assms by (cases elements) (simp_all add: front_size_def bv_len_ok wf_storage)
  moreover have "unat (word_of_nat (front_size elements) :: usize) = front_size elements"
    using assms by (cases elements) (simp_all add: front_size_def unat_of_nat_usize)
  ultimately show ?thesis by (simp add: cbv_compress_def compress_refines [OF assms])
qed

lemma uniform_front_size: "uniform n (b # bs) \<Longrightarrow> front_size (b # bs) = n"
  by (simp add: front_size_def)

lemma cbv_compress_uniform:
  assumes "uniform n elements" "n < 2 ^ 64"
  shows "cbv_compress elements =
    Ret (Some \<lparr>comp_bits = bitvec_of (rle_encode None (map bits elements)),
               element_size = word_of_nat (front_size elements)\<rparr>)"
proof -
  have "list_all (\<lambda>b. bv_size b = front_size elements) elements"
    using assms by (cases elements) (auto simp: front_size_def uniform_def list_all_iff)
  moreover have "list_all (\<lambda>b. wf_bitvec b \<and> bv_size b < 2 ^ 64) elements"
    using assms by (auto simp: uniform_def list_all_iff)
  ultimately show ?thesis by (simp add: cbv_compress_refines)
qed

lemma cbv_decompress_uniform:
  assumes "uniform n elements" "length elements * Suc n + n < 2 ^ 64"
  shows "cbv_decompress \<lparr>comp_bits = bitvec_of (rle_encode None (map bits elements)),
      element_size = word_of_nat (front_size elements)\<rparr> = Ret (Some elements)"
proof (cases elements)
  case Nil
  then show ?thesis
    by (simp add: cbv_decompress_def decompress_refines front_size_def)
next
  case (Cons b bs)
  have n: "front_size elements = n" using assms(1) unfolding Cons by (rule uniform_front_size)
  have u: "unat (word_of_nat n :: usize) = n" using assms(2) by (intro unat_of_nat_usize) simp
  have "length (rle_encode None (map bits elements)) + n < 2 ^ 64"
    using rle_encode_length_le [OF uniform_map_bits [OF assms(1)], of None] assms(2) by simp
  then show ?thesis
    by (simp add: n cbv_decompress_def decompress_refines u
        rle_roundtrip [OF uniform_map_bits [OF assms(1)]] map_bitvec_of_bits [OF assms(1)])
qed

text \<open>Cost of the encoding: one bit per repeated element, one bit and the element otherwise.\<close>

lemma rle_encode_replicate_same: "rle_encode (Some x) (replicate k x) = replicate k False"
  by (induction k) auto

lemma rle_encode_replicate:
  "length (rle_encode None (replicate (Suc k) x)) = length x + Suc k"
  by (simp add: rle_encode_replicate_same)

text \<open>An element size near the top of \<open>usize\<close> makes the bounds of the slice overflow.\<close>

lemma decompress_overflow:
  assumes "wf_bitvec payload" "bv_size payload < 2 ^ 64" "bits payload = True # rest"
    and "es = - 1"
  shows "decompress es payload = Panic"
proof -
  have size: "bv_size payload = Suc (length rest)"
    using arg_cong [OF assms(3), of length] by simp
  have "bv_len payload = Ret (word_of_nat (Suc (length rest)))"
    using assms by (simp add: bv_len_ok wf_storage size)
  moreover have "(0 :: usize) < word_of_nat (Suc (length rest))"
    using assms(2) size by (subst usize_less_of_nat_iff) simp_all
  moreover have "bv_get payload 0 = Ret (Some True)"
    using assms by (simp add: bv_get_ok size)
  moreover have "checked_add 0 (- 1 :: usize) = Ret (- 1)" and "checked_add (- 1 :: usize) 1 = Panic"
    by (simp_all add: checked_add_def unsigned_minus_1_eq_mask mask_eq_exp_minus_1)
  moreover have "checked_add 0 (1 :: usize) = Ret 1" by (simp add: checked_add_def)
  ultimately show ?thesis
    using assms(4) by (simp add: decompress_def decompress_loop.simps)
qed

text \<open>
  What decoding makes of any value at all, as a deserializer may hand it over: every element is
  a slice of the payload of the announced size, or a repetition of one.
\<close>

lemma decompress_loop_uniform:
  "decompress_loop es payload out idx previous = Ret (Some elements) \<Longrightarrow> uniform (unat es) out \<Longrightarrow>
     pred_option (\<lambda>p. uniform (unat es) [p]) previous \<Longrightarrow> uniform (unat es) elements"
proof (induction es payload out idx previous rule: decompress_loop.induct)
  case (1 es payload out idx previous)
  note unfold = decompress_loop.simps [of es payload out idx previous]
  from "1.prems"(1) obtain n where n: "bv_len payload = Ret n" by (auto simp: unfold rbind_Ret_iff)
  show ?case
  proof (cases "idx < n")
    case False
    with "1.prems" n show ?thesis by (simp add: unfold)
  next
    case True
    with "1.prems"(1) n obtain x where get: "bv_get payload idx = Ret (Some x)"
      by (auto simp: unfold rbind_Ret_iff split: option.splits)
    show ?thesis
    proof (cases x)
      case bit1: True
      with get have get1: "bv_get payload idx = Ret (Some True)" by simp
      with "1.prems"(1) n True obtain start t end_idx element d idx' where
        adds: "checked_add idx 1 = Ret start" "checked_add idx es = Ret t" "checked_add t 1 = Ret end_idx"
          "checked_add es 1 = Ret d" "checked_add idx d = Ret idx'"
        and range: "bv_range payload start end_idx = Ret (Some element)"
        and rest: "decompress_loop es payload (out @ [element]) idx' (Some element) = Ret (Some elements)"
        by (auto simp: unfold rbind_Ret_iff split: option.splits)
      from adds(1-3) have "unat end_idx - unat start = unat es" by (simp add: checked_add_Ret_iff)
      with bv_range_Some [OF range] have "uniform (unat es) [element]" by simp
      with "1.IH"(1) [OF n True get1 refl refl adds(1-3) range refl adds(4,5) rest] "1.prems"(2) show ?thesis by simp
    next
      case bit0: False
      with get have get0: "bv_get payload idx = Ret (Some False)" by simp
      with "1.prems"(1) n True obtain p idx' where "previous = Some p" "checked_add idx 1 = Ret idx'"
        and "decompress_loop es payload (out @ [p]) idx' previous = Ret (Some elements)"
        by (auto simp: unfold rbind_Ret_iff split: option.splits)
      with "1.IH"(2) [OF n True get0 refl] "1.prems"(2,3) show ?thesis by simp
    qed
  qed
qed

subsection \<open>Coding and decoding always end\<close>

lemma compress_loop_returns: "compress_loop es previous payload elements \<noteq> Diverge"
proof (induction elements arbitrary: previous payload)
  case (Cons element rest)
  show ?case
    unfolding compress_loop.simps
    by (intro rbind_returns if_returns Cons.IH) (simp_all add: returns)
qed simp

lemma cbv_compress_returns [returns]: "cbv_compress elements \<noteq> Diverge"
  unfolding cbv_compress_def compress_def
  by (intro rbind_returns option_returns)
    (simp_all add: returns compress_loop_returns split: list.split)

lemma decompress_loop_returns: "decompress_loop es payload out idx previous \<noteq> Diverge"
proof (induction "2 ^ 64 - unat idx" arbitrary: out idx previous rule: less_induct)
  case less
  have IH: "decompress_loop es payload out' idx' previous' \<noteq> Diverge"
    if "checked_add idx d = Ret idx'" "d \<noteq> 0" for out' idx' previous' d
  proof (rule less.hyps)
    from that have "unat idx < unat idx'" by (simp add: checked_add_Ret_iff unat_gt_0)
    then show "2 ^ 64 - unat idx' < 2 ^ 64 - unat idx" using unat_usize_less [of idx'] by simp
  qed
  have pos: "d \<noteq> 0" if "checked_add es 1 = Ret d" for d
    using that by (auto simp: checked_add_Ret_iff)
  show ?case
    unfolding decompress_loop.simps [of es payload out idx previous]
    by (intro rbind_returns if_returns option_returns bool_returns; simp add: returns)
      (use IH pos in fastforce)+
qed

lemma cbv_decompress_returns [returns]: "cbv_decompress c \<noteq> Diverge"
  by (simp add: cbv_decompress_def decompress_def decompress_loop_returns)

subsection \<open>Properties\<close>

text \<open>
  C5: compressing a sequence of well-formed vectors of one length and decompressing the
  result gives back the same sequence, for every length of the sequence and of its elements
  whose encoding can be indexed by \<open>usize\<close>; neither step fails or panics.
\<close>

theorem cbv_roundtrip:
  assumes "uniform n elements" "length elements * Suc n + n < 2 ^ 64"
  shows "\<exists>c. cbv_compress elements = Ret (Some c) \<and> cbv_decompress c = Ret (Some elements)"
proof -
  from assms(2) have "n < 2 ^ 64" by simp
  with assms show ?thesis
    using cbv_compress_uniform [OF assms(1)] cbv_decompress_uniform [OF assms] by blast
qed

theorem cbv_roundtrip_witness:
  "\<exists>c. cbv_compress [bitvec_of [True, True, False], bitvec_of [True, True, False], bitvec_of [False, True, True]] =
      Ret (Some c) \<and>
     cbv_decompress c =
      Ret (Some [bitvec_of [True, True, False], bitvec_of [True, True, False], bitvec_of [False, True, True]])"
  by (rule cbv_roundtrip [of 3]) simp_all

text \<open>
  C14: decoding refines the reference run-length decoder on lists of bits. For every
  well-formed payload whose size leaves room for the element size below the top of \<open>usize\<close>,
  valid encoding or not, decompression does not panic, fails exactly when the reference
  fails (a leading repetition bit, or a truncated element) and otherwise returns its result.
\<close>

theorem cbv_decompress_reference:
  assumes "wf_bitvec (comp_bits c)" "bv_size (comp_bits c) + unat (element_size c) < 2 ^ 64"
  shows "cbv_decompress c =
    Ret (map_option (map bitvec_of) (rle_decode (unat (element_size c)) None (bits (comp_bits c))))"
  using decompress_refines [OF assms] by (simp add: cbv_decompress_def)

theorem cbv_decompress_reference_witness:
  "cbv_decompress \<lparr>comp_bits = bitvec_of [True, True, True, False, False], element_size = 3\<rparr> =
     Ret (Some [bitvec_of [True, True, False], bitvec_of [True, True, False]])"
  using cbv_decompress_reference
    [of "\<lparr>comp_bits = bitvec_of [True, True, True, False, False], element_size = 3\<rparr>"]
  by simp

text \<open>
  C15: compression refines the reference encoder: it returns the encoding when all elements
  have the length of the first, and \<open>None\<close> exactly when some element does not.
\<close>

theorem cbv_compress_reference:
  assumes "list_all (\<lambda>b. wf_bitvec b \<and> bv_size b < 2 ^ 64) elements"
  shows "cbv_compress elements =
    Ret (if list_all (\<lambda>b. bv_size b = front_size elements) elements
         then Some \<lparr>comp_bits = bitvec_of (rle_encode None (map bits elements)),
                    element_size = word_of_nat (front_size elements)\<rparr>
         else None)"
  using assms by (rule cbv_compress_refines)

theorem cbv_compress_reference_witness:
  "cbv_compress [bitvec_of [True, False], bitvec_of [True]] = Ret None"
  using cbv_compress_reference [of "[bitvec_of [True, False], bitvec_of [True]]"]
  by (simp add: front_size_def)

text \<open>
  C21: whatever is decoded, the vectors of a successful result are well-formed and have exactly
  the announced element size. Nothing is assumed of the payload: it may be any value that a
  deserializer hands over, well-formed or not.
\<close>

theorem decompressed_uniform:
  assumes "cbv_decompress c = Ret (Some elements)"
  shows "list_all (\<lambda>b. wf_bitvec b \<and> bv_size b = unat (element_size c)) elements"
  using decompress_loop_uniform [of "element_size c" "comp_bits c" "[]" 0 None elements] assms
  by (simp add: cbv_decompress_def decompress_def uniform_def)

text \<open>A payload of four bits whose last word has a stray bit behind them.\<close>

theorem decompressed_uniform_witness:
  "\<exists>elements. cbv_decompress \<lparr>comp_bits = \<lparr>storage = [23], len_of_last = 4\<rparr>, element_size = 2\<rparr> = Ret (Some elements) \<and>
     elements \<noteq> [] \<and> list_all (\<lambda>b. wf_bitvec b \<and> bv_size b = 2) elements"
proof -
  let ?p = "\<lparr>storage = [23], len_of_last = 4\<rparr>" and ?e = "\<lparr>storage = [3], len_of_last = 2\<rparr>"
  have len: "bv_len ?p = Ret 4"
    by (simp add: bv_len_def vec_len_def checked_sub_def checked_mul_def checked_add_def)
  have get: "bv_get ?p 0 = Ret (Some True)" "bv_get ?p 1 = Ret (Some True)" "bv_get ?p 2 = Ret (Some True)"
      "bv_get ?p 3 = Ret (Some False)"
    by (simp_all add: bv_get_def len checked_shl_def word_le_nat_alt)
  have push: "bv_push bv_new True = Ret \<lparr>storage = [1], len_of_last = 1\<rparr>"
      "bv_push \<lparr>storage = [1], len_of_last = 1\<rparr> True = Ret ?e"
    by (simp_all add: bv_push_def bv_new_def checked_shl_def checked_add_def)
  have range: "bv_range ?p 1 3 = Ret (Some ?e)"
    by (simp add: bv_range_def bv_range_loop.simps [of ?p _ 1] bv_range_loop.simps [of ?p _ 2]
        bv_range_loop.simps [of ?p _ 3] get push)
  have "cbv_decompress \<lparr>comp_bits = ?p, element_size = 2\<rparr> = Ret (Some [?e, ?e])"
    by (simp add: cbv_decompress_def decompress_def decompress_loop.simps [of _ ?p _ 0] decompress_loop.simps [of _ ?p _ 3]
        decompress_loop.simps [of _ ?p _ 4] len get range checked_add_def)
  from decompressed_uniform [OF this] this show ?thesis by simp
qed

text \<open>
  C39: the cost of the code. A run of \<open>k + 1\<close> equal states takes the bits of one state, one
  bit to introduce it and one bit for each repetition; no sequence takes more than one extra
  bit per state.
\<close>

theorem compressed_size:
  assumes "uniform n elements" "n < 2 ^ 64"
  shows "\<exists>c. cbv_compress elements = Ret (Some c) \<and>
    bv_size (comp_bits c) \<le> length elements * Suc n \<and>
    (\<forall>b k. elements = replicate (Suc k) b \<longrightarrow> bv_size (comp_bits c) = n + 1 + k)"
proof -
  let ?r = "rle_encode None (map bits elements)"
  have "length ?r \<le> length elements * Suc n"
    using rle_encode_length_le [OF uniform_map_bits [OF assms(1)], of None] by simp
  moreover have "length ?r = n + 1 + k" if "elements = replicate (Suc k) b" for b k
    using assms(1) rle_encode_replicate [of k "bits b"] unfolding that by simp
  ultimately show ?thesis using cbv_compress_uniform [OF assms] by auto
qed

theorem compressed_size_witness:
  "\<exists>c. cbv_compress (replicate 3 (bitvec_of [True, True, False])) = Ret (Some c) \<and>
     bv_size (comp_bits c) = 6"
proof -
  let ?b = "bitvec_of [True, True, False]"
  have "uniform 3 (replicate (Suc 2) ?b)" by (simp add: eval_nat_numeral)
  from compressed_size [OF this] obtain c where "cbv_compress (replicate (Suc 2) ?b) = Ret (Some c)"
    "\<forall>b k. replicate (Suc 2) ?b = replicate (Suc k) b \<longrightarrow> bv_size (comp_bits c) = 3 + 1 + k"
    by auto
  then show ?thesis by (auto simp: eval_nat_numeral)
qed

end
