(* ===== verification/Control.thy ===== *)
theory Control
  imports Compression
begin

text \<open>
  \<^verbatim>\<open>src/control.rs\<close>: a sequence of controller states, one per game tick, and its compressed
  form. \<open>uniform_inputs\<close> is what the coder needs of a sequence: well-formed states of one
  width. \<open>last_tick\<close> is, as in the code, one past the tick of the last state.
\<close>

record controller_sequence =
  start_tick :: usize
  cs_seq :: "bitvec list"

record compressed_controller_sequence =
  comp_start_tick :: usize
  comp_seq :: compressed_bitvec

definition cs_new :: controller_sequence where
  "cs_new = \<lparr>start_tick = 0, cs_seq = []\<rparr>"

definition cs_push :: "controller_sequence \<Rightarrow> bitvec \<Rightarrow> controller_sequence" where
  "cs_push cs b = cs\<lparr>cs_seq := cs_seq cs @ [b]\<rparr>"

text \<open>\<open>as i64\<close> reads the tick as a signed value; \<open>skip\<close> drops elements of the iterator.\<close>

definition cs_append :: "controller_sequence \<Rightarrow> controller_sequence \<Rightarrow> controller_sequence rust" where
  "cs_append cs other =
     rbind (checked_sub_i64 (sint (start_tick other)) (sint (start_tick cs))) (\<lambda>tick_delta.
       if tick_delta > 0 then Ret (fold (\<lambda>b cs. cs_push cs b) (drop (nat tick_delta) (cs_seq other)) cs)
       else Ret cs)"

definition to_compressed :: "controller_sequence \<Rightarrow> compressed_controller_sequence option rust" where
  "to_compressed cs =
     rbind (cbv_compress (cs_seq cs)) (\<lambda>r.
       case r of
         None \<Rightarrow> Ret None
       | Some c \<Rightarrow> Ret (Some \<lparr>comp_start_tick = start_tick cs, comp_seq = c\<rparr>))"

definition last_tick :: "controller_sequence \<Rightarrow> usize rust" where
  "last_tick cs = checked_add (start_tick cs) (vec_len (cs_seq cs))"

definition cs_is_empty :: "controller_sequence \<Rightarrow> bool" where
  "cs_is_empty cs \<longleftrightarrow> cs_seq cs = []"

definition remove_till_tick :: "controller_sequence \<Rightarrow> usize \<Rightarrow> controller_sequence rust" where
  "remove_till_tick cs tick =
     rbind (last_tick cs) (\<lambda>last.
     rbind (if last > tick then
              rbind (checked_sub last tick) (\<lambda>tick_count.
                let end_idx = min tick_count (vec_len (cs_seq cs))
                in Ret (cs\<lparr>cs_seq := drop (unat end_idx) (cs_seq cs)\<rparr>))
            else Ret cs) (\<lambda>cs'.
     rbind (checked_add last 1) (\<lambda>t.
     Ret (cs'\<lparr>start_tick := t\<rparr>))))"

definition to_controller_sequence ::
  "compressed_controller_sequence \<Rightarrow> controller_sequence option rust" where
  "to_controller_sequence c =
     rbind (cbv_decompress (comp_seq c)) (\<lambda>r.
       case r of
         None \<Rightarrow> Ret None
       | Some elements \<Rightarrow> Ret (Some \<lparr>start_tick = comp_start_tick c, cs_seq = elements\<rparr>))"

subsection \<open>Sequences the coder accepts\<close>

definition uniform_inputs :: "nat \<Rightarrow> controller_sequence \<Rightarrow> bool" where
  "uniform_inputs n cs \<longleftrightarrow> uniform n (cs_seq cs)"

definition encodable :: "nat \<Rightarrow> controller_sequence \<Rightarrow> bool" where
  "encodable n cs \<longleftrightarrow> uniform_inputs n cs \<and> length (cs_seq cs) * Suc n + n < 2 ^ 64"

lemma uniform_inputs_new [simp]: "uniform_inputs n cs_new"
  by (simp add: uniform_inputs_def cs_new_def)

lemma uniform_inputs_push:
  "uniform_inputs n cs \<Longrightarrow> wf_bitvec b \<Longrightarrow> bv_size b = n \<Longrightarrow> uniform_inputs n (cs_push cs b)"
  by (simp add: uniform_inputs_def cs_push_def)

lemma cs_seq_fold_push:
  "fold (\<lambda>b cs. cs_push cs b) bs cs = cs\<lparr>cs_seq := cs_seq cs @ bs\<rparr>"
  by (induction bs arbitrary: cs) (simp_all add: cs_push_def)

lemma cs_append_Ret:
  "cs_append cs other = Ret cs' \<Longrightarrow>
     cs' = cs\<lparr>cs_seq := cs_seq cs @ (if sint (start_tick cs) < sint (start_tick other)
       then drop (nat (sint (start_tick other) - sint (start_tick cs))) (cs_seq other) else [])\<rparr>"
  by (auto simp: cs_append_def checked_sub_i64_def cs_seq_fold_push split: if_splits)

lemma remove_till_tick_eq:
  assumes "unat (start_tick cs) + length (cs_seq cs) + 1 < 2 ^ 64"
  shows "remove_till_tick cs tick =
    Ret \<lparr>start_tick = start_tick cs + vec_len (cs_seq cs) + 1,
         cs_seq = drop (unat (start_tick cs) + length (cs_seq cs) - unat tick) (cs_seq cs)\<rparr>"
proof -
  let ?n = "length (cs_seq cs)" and ?s = "unat (start_tick cs)"
  let ?last = "start_tick cs + vec_len (cs_seq cs)"
  have len: "unat (vec_len (cs_seq cs)) = ?n" using assms by (intro unat_vec_len) simp
  have last: "last_tick cs = Ret ?last" and u: "unat ?last = ?s + ?n"
    using assms by (simp_all add: last_tick_def checked_add_def unat_word_ariths len)
  have next_t: "checked_add ?last 1 = Ret (?last + 1)"
    using assms by (simp add: checked_add_def u)
  show ?thesis
  proof (cases "?last > tick")
    case True
    then have sub: "checked_sub ?last tick = Ret (?last - tick)" "unat (?last - tick) = ?s + ?n - unat tick"
      using u by (simp_all add: checked_sub_def unat_sub word_less_nat_alt word_le_nat_alt)
    then have "unat (min (?last - tick) (vec_len (cs_seq cs))) = min (?s + ?n - unat tick) ?n"
      by (simp add: min_def len word_le_nat_alt)
    with True sub show ?thesis
      by (simp add: remove_till_tick_def last next_t Let_def min_def)
  next
    case False
    then have "?s + ?n \<le> unat tick" using u by (simp add: word_less_nat_alt)
    with False show ?thesis by (simp add: remove_till_tick_def last next_t)
  qed
qed

lemma remove_till_tick_Panic_iff:
  "remove_till_tick cs tick = Panic \<longleftrightarrow>
     2 ^ 64 \<le> unat (start_tick cs) + unat (vec_len (cs_seq cs)) + 1"
  by (auto simp: remove_till_tick_def last_tick_def outcome_simps checked_sub_def Let_def
      checked_add_def unat_word_ariths)

text \<open>Whatever the tick, what is left of the inputs is a final stretch of them.\<close>

lemma remove_till_tick_drop:
  "remove_till_tick cs tick = Ret cs' \<Longrightarrow> \<exists>j. cs_seq cs' = drop j (cs_seq cs)"
  by (auto simp: remove_till_tick_def rbind_Ret_iff Let_def split: if_splits)
    (metis drop0)+

lemma to_compressed_encodable:
  assumes "encodable n cs"
  shows "to_compressed cs =
    Ret (Some \<lparr>comp_start_tick = start_tick cs,
      comp_seq = \<lparr>comp_bits = bitvec_of (rle_encode None (map bits (cs_seq cs))),
                  element_size = word_of_nat (front_size (cs_seq cs))\<rparr>\<rparr>)"
  using assms cbv_compress_uniform [of n "cs_seq cs"]
  by (simp add: to_compressed_def encodable_def uniform_inputs_def)

lemma to_controller_sequence_encodable:
  assumes "encodable n cs"
  shows "to_controller_sequence \<lparr>comp_start_tick = t,
      comp_seq = \<lparr>comp_bits = bitvec_of (rle_encode None (map bits (cs_seq cs))),
                  element_size = word_of_nat (front_size (cs_seq cs))\<rparr>\<rparr> =
    Ret (Some \<lparr>start_tick = t, cs_seq = cs_seq cs\<rparr>)"
  using assms cbv_decompress_uniform [of n "cs_seq cs"]
  by (simp add: to_controller_sequence_def encodable_def uniform_inputs_def)

subsection \<open>Decoding and ticks always end\<close>

lemma to_controller_sequence_returns [returns]: "to_controller_sequence c \<noteq> Diverge"
  by (auto simp: to_controller_sequence_def outcome_simps returns split: option.split)

lemma to_compressed_returns [returns]: "to_compressed cs \<noteq> Diverge"
  by (auto simp: to_compressed_def outcome_simps returns split: option.split)

lemma last_tick_returns [returns]: "last_tick cs \<noteq> Diverge"
  by (simp add: last_tick_def)

lemma remove_till_tick_returns [returns]: "remove_till_tick cs tick \<noteq> Diverge"
  by (auto simp: remove_till_tick_def Let_def outcome_simps returns)

lemma last_tick_eq:
  "unat (start_tick cs) + length (cs_seq cs) < 2 ^ 64 \<Longrightarrow>
     last_tick cs = Ret (start_tick cs + vec_len (cs_seq cs)) \<and>
     unat (start_tick cs + vec_len (cs_seq cs)) = unat (start_tick cs) + length (cs_seq cs)"
  using unat_vec_len [of "cs_seq cs"] by (simp add: last_tick_def checked_add_def unat_word_ariths)

subsection \<open>Properties\<close>

text \<open>
  C6: a controller sequence of well-formed states of one width, whose code \<open>usize\<close> can index,
  survives compression: the inputs and the start tick that come out of \<open>to_controller_sequence\<close>
  are those that went into \<open>to_compressed\<close>.
\<close>

theorem controller_roundtrip:
  assumes "encodable n cs"
  shows "\<exists>c. to_compressed cs = Ret (Some c) \<and> to_controller_sequence c = Ret (Some cs)"
  using to_compressed_encodable [OF assms] to_controller_sequence_encodable [OF assms, of "start_tick cs"]
  by auto

theorem controller_roundtrip_witness:
  "\<exists>c. to_compressed \<lparr>start_tick = 7, cs_seq = [bitvec_of [True], bitvec_of [True]]\<rparr> = Ret (Some c) \<and>
     to_controller_sequence c = Ret (Some \<lparr>start_tick = 7, cs_seq = [bitvec_of [True], bitvec_of [True]]\<rparr>)"
  by (rule controller_roundtrip [of 1]) (simp add: encodable_def uniform_inputs_def)

text \<open>
  C24: what \<open>remove_till_tick\<close> does. It drops as many of the oldest inputs as there are ticks
  between the acknowledged tick and the end of the sequence (all of them when there are more
  such ticks than inputs), and moves the start tick to one past the old last tick, whatever
  was removed. It panics exactly when that tick does not fit a \<open>usize\<close>.
\<close>

theorem remove_till_tick_spec:
  assumes "length (cs_seq cs) < 2 ^ 64"
  shows "remove_till_tick cs tick =
    (if unat (start_tick cs) + length (cs_seq cs) + 1 < 2 ^ 64
     then Ret \<lparr>start_tick = start_tick cs + vec_len (cs_seq cs) + 1,
               cs_seq = drop (unat (start_tick cs) + length (cs_seq cs) - unat tick) (cs_seq cs)\<rparr>
     else Panic)"
  using remove_till_tick_eq [of cs tick] remove_till_tick_Panic_iff [of cs tick] assms
  by (auto simp: unat_vec_len)

theorem remove_till_tick_spec_witness:
  "remove_till_tick \<lparr>start_tick = 10, cs_seq = [bv_new, bv_new, bv_new]\<rparr> 12 = Ret \<lparr>start_tick = 14, cs_seq = [bv_new, bv_new]\<rparr> \<and>
   remove_till_tick \<lparr>start_tick = - 1, cs_seq = [bv_new, bv_new, bv_new]\<rparr> 12 = Panic"
  using remove_till_tick_spec [of "\<lparr>start_tick = 10, cs_seq = [bv_new, bv_new, bv_new]\<rparr>" 12]
    remove_till_tick_spec [of "\<lparr>start_tick = - 1, cs_seq = [bv_new, bv_new, bv_new]\<rparr>" 12]
  by (simp add: vec_len_def unsigned_minus_1_eq_mask mask_eq_exp_minus_1)

text \<open>
  The acknowledgment of every input removes none. When the server has received the whole
  sequence (the tick is \<open>last_tick\<close> or later), every input stays in the sequence and is given
  a new, later tick; when it acknowledges nothing past the start, all inputs are dropped.
\<close>

theorem ack_of_everything_removes_nothing:
  assumes "unat (start_tick cs) + length (cs_seq cs) + 1 < 2 ^ 64"
    and "unat (start_tick cs) + length (cs_seq cs) \<le> unat tick" "tick' \<le> start_tick cs"
  shows "(\<exists>cs'. remove_till_tick cs tick = Ret cs' \<and> cs_seq cs' = cs_seq cs \<and>
      unat (start_tick cs') = unat (start_tick cs) + length (cs_seq cs) + 1) \<and>
    (\<exists>cs'. remove_till_tick cs tick' = Ret cs' \<and> cs_seq cs' = [])"
proof -
  have len: "unat (vec_len (cs_seq cs)) = length (cs_seq cs)" using assms(1) by (intro unat_vec_len) simp
  have "unat (start_tick cs + vec_len (cs_seq cs) + 1) = unat (start_tick cs) + length (cs_seq cs) + 1"
    using assms(1) by (simp add: unat_word_ariths len)
  with assms show ?thesis by (simp add: remove_till_tick_eq word_le_nat_alt)
qed

theorem ack_of_everything_removes_nothing_witness:
  "\<exists>cs'. remove_till_tick \<lparr>start_tick = 0, cs_seq = [bv_new, bv_new]\<rparr> 2 = Ret cs' \<and>
     cs_seq cs' = [bv_new, bv_new] \<and> unat (start_tick cs') = 3"
  using ack_of_everything_removes_nothing [of "\<lparr>start_tick = 0, cs_seq = [bv_new, bv_new]\<rparr>" 2 0]
  by (simp add: numeral_3_eq_3)

text \<open>
  Appending the next stretch of inputs loses it. When \<open>other\<close> starts where \<open>cs\<close> ends
  and is not longer than \<open>cs\<close> reaches from its start, \<open>append\<close> skips all of \<open>other\<close>.
\<close>

theorem append_skips_contiguous:
  assumes "unat (start_tick cs) + length (cs_seq cs) < 2 ^ 63"
    and "last_tick cs = Ret (start_tick other)" "length (cs_seq other) \<le> length (cs_seq cs)"
  shows "cs_append cs other = Ret cs"
proof -
  have u: "unat (start_tick other) = unat (start_tick cs) + length (cs_seq cs)"
    using last_tick_eq [of cs] assms(1,2) by simp
  have small: "sint w = int (unat w)" if "unat w < 2 ^ 63" for w :: usize
  proof -
    have "uint w < 2 ^ 63" using that by (metis of_nat_less_numeral_power_cancel_iff uint_nat)
    moreover have "- (2 ^ 63) \<le> uint w" by (rule order_trans [OF _ unsigned_greater_eq]) simp
    ultimately have "signed_take_bit 63 (uint w) = uint w" by (intro signed_take_bit_int_eq_self)
    then have "sint w = uint w" by (simp add: sint_uint)
    then show ?thesis by simp
  qed
  have "sint (start_tick other) - sint (start_tick cs) = int (length (cs_seq cs))"
    using assms(1) u by (simp add: small)
  with assms(1,3) show ?thesis
    by (cases "cs_seq cs") (auto simp: cs_append_def checked_sub_i64_def cs_seq_fold_push)
qed

theorem append_skips_contiguous_witness:
  "cs_append \<lparr>start_tick = 0, cs_seq = [bv_new, bv_new]\<rparr> \<lparr>start_tick = 2, cs_seq = [bv_new, bv_new]\<rparr> =
     Ret \<lparr>start_tick = 0, cs_seq = [bv_new, bv_new]\<rparr>"
  by (rule append_skips_contiguous) (simp_all add: last_tick_def vec_len_def checked_add_def)

end
