(* ===== verification/Release.thy ===== *)
theory Release
  imports Control
begin

text \<open>
  The release profile of \<^verbatim>\<open>src/bitvec.rs\<close> and \<^verbatim>\<open>src/control.rs\<close>: Cargo compiles without overflow
  checks there, and arithmetic wraps. Each function whose arithmetic can overflow has a second
  definition with the prefix \<open>rel\<close>, the same code over wrapping operations; \<open>decompress\<close>,
  whose loop may then never end, is a partial function. Outcomes are ordered by definedness
  (a panic is below everything), and the checked definitions are below the wrapping ones: where
  the dev profile does not panic, the release profile computes the same.
\<close>

subsection \<open>The order of outcomes\<close>

instantiation rust :: (type) order_bot
begin

definition bot_rust :: "'a rust" where
  "bot_rust = Panic"

definition less_eq_rust :: "'a rust \<Rightarrow> 'a rust \<Rightarrow> bool" where
  "less_eq_rust x y \<longleftrightarrow> x = Panic \<or> x = y"

definition less_rust :: "'a rust \<Rightarrow> 'a rust \<Rightarrow> bool" where
  "less_rust x y \<longleftrightarrow> x = Panic \<and> y \<noteq> Panic"

instance
  by standard (auto simp: bot_rust_def less_eq_rust_def less_rust_def)

end

named_theorems mono_intros "outcomes grow with their parts"

lemma Panic_le [simp, mono_intros]: "Panic \<le> x"
  by (simp add: less_eq_rust_def)

lemma Ret_le_iff [simp]: "Ret x \<le> y \<longleftrightarrow> y = Ret x"
  by (auto simp: less_eq_rust_def)

lemma le_Ret_D: "m \<le> m' \<Longrightarrow> m = Ret x \<Longrightarrow> m' = Ret x"
  by simp

lemma rbind_mono [mono_intros]:
  "m \<le> m' \<Longrightarrow> (\<And>x. m = Ret x \<Longrightarrow> f x \<le> f' x) \<Longrightarrow> rbind m f \<le> rbind m' f'"
  by (cases m) (auto simp: less_eq_rust_def)

lemma if_le [mono_intros]:
  fixes x y x' y' :: "'a rust"
  shows "(b \<Longrightarrow> x \<le> x') \<Longrightarrow> (\<not> b \<Longrightarrow> y \<le> y') \<Longrightarrow> (if b then x else y) \<le> (if b then x' else y')"
  by simp

lemma option_le [mono_intros]:
  fixes x x' :: "'a rust"
  shows "(r = None \<Longrightarrow> x \<le> x') \<Longrightarrow> (\<And>a. r = Some a \<Longrightarrow> f a \<le> f' a) \<Longrightarrow>
     (case r of None \<Rightarrow> x | Some a \<Rightarrow> f a) \<le> (case r of None \<Rightarrow> x' | Some a \<Rightarrow> f' a)"
  by (cases r) auto

lemma bool_le [mono_intros]:
  fixes x y x' y' :: "'a rust"
  shows "(b \<Longrightarrow> x \<le> x') \<Longrightarrow> (\<not> b \<Longrightarrow> y \<le> y') \<Longrightarrow>
     (case b of True \<Rightarrow> x | False \<Rightarrow> y) \<le> (case b of True \<Rightarrow> x' | False \<Rightarrow> y')"
  by (cases b) auto

lemma rfold_mono: "(\<And>s x. f s x \<le> f' s x) \<Longrightarrow> rfold f s xs \<le> rfold f' s xs"
  by (induction xs arbitrary: s) (auto intro: rbind_mono)

text \<open>Wrapping arithmetic, as an outcome that is always a value.\<close>

definition wrapping_add :: "'a::len word \<Rightarrow> 'a word \<Rightarrow> 'a word rust" where
  "wrapping_add a b = Ret (a + b)"

definition wrapping_sub :: "'a::len word \<Rightarrow> 'a word \<Rightarrow> 'a word rust" where
  "wrapping_sub a b = Ret (a - b)"

definition wrapping_mul :: "'a::len word \<Rightarrow> 'a word \<Rightarrow> 'a word rust" where
  "wrapping_mul a b = Ret (a * b)"

lemma checked_le_wrapping [mono_intros]:
  "checked_add a b \<le> wrapping_add a b" "checked_sub a b \<le> wrapping_sub a b"
  "checked_mul a b \<le> wrapping_mul a b"
  by (simp_all add: checked_add_def checked_sub_def checked_mul_def
      wrapping_add_def wrapping_sub_def wrapping_mul_def)

lemmas wrapping_defs = wrapping_add_def wrapping_sub_def wrapping_mul_def

subsection \<open>Bit vectors\<close>

definition rel_len :: "bitvec \<Rightarrow> usize rust" where
  "rel_len b =
     rbind (wrapping_sub (vec_len (storage b)) 1) (\<lambda>n.
     rbind (wrapping_mul 32 n) (\<lambda>m.
     wrapping_add m (ucast (len_of_last b))))"

definition rel_push :: "bitvec \<Rightarrow> bool \<Rightarrow> bitvec rust" where
  "rel_push b x =
     (if len_of_last b = 32 then
        Ret (b\<lparr>storage := storage b @ [of_bool x], len_of_last := 1\<rparr>)
      else if x = True then
        (case checked_shl 1 (ucast (len_of_last b)) of
           None \<Rightarrow> Panic
         | Some new_bit \<Rightarrow>
             (if storage b = [] then Panic
              else rbind (wrapping_add (len_of_last b) 1) (\<lambda>l.
                Ret (b\<lparr>storage := butlast (storage b) @ [last (storage b) OR new_bit],
                       len_of_last := l\<rparr>))))
      else rbind (wrapping_add (len_of_last b) 1) (\<lambda>l. Ret (b\<lparr>len_of_last := l\<rparr>)))"

definition rel_get :: "bitvec \<Rightarrow> usize \<Rightarrow> bool option rust" where
  "rel_get b index =
     rbind (rel_len b) (\<lambda>n.
       if n \<le> index then Ret None
       else if unat (index div 32) < length (storage b) then
         (case checked_shl 1 (ucast (index mod 32)) of
            None \<Rightarrow> Panic
          | Some bit_mask \<Rightarrow>
              Ret (Some ((storage b ! unat (index div 32)) AND bit_mask \<noteq> 0)))
       else Ret None)"

definition rel_iter_next :: "bitvec_iter \<Rightarrow> (bitvec_iter \<times> bool option) rust" where
  "rel_iter_next it =
     rbind (rel_get (it_bitvec it) (bit_counter it)) (\<lambda>r.
       case r of
         Some b \<Rightarrow> rbind (wrapping_add (bit_counter it) 1) (\<lambda>c.
           Ret (it\<lparr>bit_counter := c\<rparr>, Some b))
       | None \<Rightarrow> Ret (it, None))"

text \<open>The counter stays below the length, so it does not wrap and the loop ends.\<close>

lemma rel_len_Ret: "\<exists>n. rel_len b = Ret n"
  by (simp add: rel_len_def wrapping_defs)

lemma rel_get_Some_less: "rel_get b i = Ret (Some x) \<Longrightarrow> \<exists>n. rel_len b = Ret n \<and> i < n"
  unfolding rel_get_def rbind_Ret_iff by (auto split: if_splits)

lemma rel_iter_next_Some:
  assumes "rel_iter_next it = Ret (it', Some x)"
  shows "bit_counter it < bit_counter it'"
proof -
  from assms obtain r where get: "rel_get (it_bitvec it) (bit_counter it) = Ret r"
    and r: "(case r of
         Some b \<Rightarrow> rbind (wrapping_add (bit_counter it) 1) (\<lambda>c. Ret (it\<lparr>bit_counter := c\<rparr>, Some b))
       | None \<Rightarrow> Ret (it, None)) = Ret (it', Some x)"
    unfolding rel_iter_next_def rbind_Ret_iff by blast
  from r have "r = Some x" and it': "it' = it\<lparr>bit_counter := bit_counter it + 1\<rparr>"
    by (cases r; simp add: wrapping_add_def)+
  with get rel_get_Some_less obtain n where "bit_counter it < n" by blast
  then have "unat (bit_counter it + 1) = Suc (unat (bit_counter it))" by (rule unat_Suc_less)
  with it' show ?thesis by (simp add: word_less_nat_alt)
qed

function rel_append_loop :: "bitvec \<Rightarrow> bitvec_iter \<Rightarrow> bitvec rust" where
  "rel_append_loop acc it =
     rbind (rel_iter_next it) (\<lambda>(it', r).
       case r of
         None \<Rightarrow> Ret acc
       | Some b \<Rightarrow> rbind (rel_push acc b) (\<lambda>acc'. rel_append_loop acc' it'))"
  by pat_completeness auto
termination
proof (relation "measure (\<lambda>(acc, it). 2 ^ 64 - unat (bit_counter it))", goal_cases)
  case (2 acc it r it' o' b acc')
  then have "bit_counter it < bit_counter it'"
    using rel_iter_next_Some [of it it' b] by simp
  then show ?case
    using unat_usize_less [of "bit_counter it'"] by (simp add: word_less_nat_alt)
qed simp

declare rel_append_loop.simps [simp del]

definition rel_append :: "bitvec \<Rightarrow> bitvec \<Rightarrow> bitvec rust" where
  "rel_append b other = rel_append_loop b (bv_into_iter other)"

function rel_range_loop :: "bitvec \<Rightarrow> bitvec \<Rightarrow> usize \<Rightarrow> usize \<Rightarrow> bitvec option rust" where
  "rel_range_loop b acc idx end_idx =
     (if idx < end_idx then
        rbind (rel_get b idx) (\<lambda>r.
          case r of
            None \<Rightarrow> Ret None
          | Some x \<Rightarrow> rbind (rel_push acc x) (\<lambda>acc'. rel_range_loop b acc' (idx + 1) end_idx))
      else Ret (Some acc))"
  by pat_completeness auto
termination
  by (relation "measure (\<lambda>(b, acc, idx, end_idx). unat end_idx - unat idx)")
    (auto simp: unat_Suc_less word_less_nat_alt)

declare rel_range_loop.simps [simp del]

definition rel_range :: "bitvec \<Rightarrow> usize \<Rightarrow> usize \<Rightarrow> bitvec option rust" where
  "rel_range b start end_idx = rel_range_loop b bv_new start end_idx"

lemma bv_len_le [mono_intros]: "bv_len b \<le> rel_len b"
  unfolding bv_len_def rel_len_def by (intro mono_intros)

lemma bv_push_le [mono_intros]: "bv_push b x \<le> rel_push b x"
  unfolding bv_push_def rel_push_def by (intro mono_intros order_refl)

lemma bv_get_le [mono_intros]: "bv_get b i \<le> rel_get b i"
  unfolding bv_get_def rel_get_def by (intro mono_intros order_refl)

lemma bv_iter_next_le [mono_intros]: "bv_iter_next it \<le> rel_iter_next it"
  unfolding bv_iter_next_def rel_iter_next_def by (intro mono_intros order_refl)

lemma bv_append_loop_le: "bv_append_loop acc it \<le> rel_append_loop acc it"
proof (induction acc it rule: bv_append_loop.induct)
  case (1 acc it)
  then show ?case
    unfolding bv_append_loop.simps [of acc it] rel_append_loop.simps [of acc it]
    by (intro rbind_mono bv_iter_next_le) (auto split: option.split intro!: mono_intros)
qed

lemma bv_append_le [mono_intros]: "bv_append b c \<le> rel_append b c"
  by (simp add: bv_append_def rel_append_def bv_append_loop_le)

lemma bv_range_loop_le: "bv_range_loop b acc i e \<le> rel_range_loop b acc i e"
proof (induction b acc i e rule: bv_range_loop.induct)
  case (1 b acc i e)
  then show ?case
    unfolding bv_range_loop.simps [of b acc i e] rel_range_loop.simps [of b acc i e]
    by (intro mono_intros order_refl) auto
qed

lemma bv_range_le [mono_intros]: "bv_range b s e \<le> rel_range b s e"
  by (simp add: bv_range_def rel_range_def bv_range_loop_le)

subsection \<open>The coder\<close>

fun rel_compress_loop :: "usize \<Rightarrow> bitvec option \<Rightarrow> bitvec \<Rightarrow> bitvec list \<Rightarrow> bitvec option rust" where
  "rel_compress_loop es previous payload [] = Ret (Some payload)"
| "rel_compress_loop es previous payload (element # rest) =
     rbind (rel_len element) (\<lambda>n.
       if n \<noteq> es then Ret None
       else if (case previous of None \<Rightarrow> True | Some p \<Rightarrow> element \<noteq> p) then
         rbind (rel_push payload True) (\<lambda>payload1.
         rbind (rel_append payload1 element) (\<lambda>payload2.
         rel_compress_loop es (Some element) payload2 rest))
       else if (case previous of None \<Rightarrow> False | Some p \<Rightarrow> element = p) then
         rbind (rel_push payload False) (\<lambda>payload1. rel_compress_loop es previous payload1 rest)
       else rel_compress_loop es previous payload rest)"

definition rel_cbv_compress :: "bitvec list \<Rightarrow> compressed_bitvec option rust" where
  "rel_cbv_compress elements =
     rbind (case elements of [] \<Rightarrow> Ret 0 | element # _ \<Rightarrow> rel_len element) (\<lambda>es.
     rbind (rel_compress_loop es None bv_new elements) (\<lambda>r.
       case r of
         None \<Rightarrow> Ret None
       | Some b \<Rightarrow> Ret (Some \<lparr>comp_bits = b, element_size = es\<rparr>)))"

partial_function (option) rel_decompress_loop ::
  "usize \<Rightarrow> bitvec \<Rightarrow> bitvec list \<Rightarrow> usize \<Rightarrow> bitvec option \<Rightarrow> bitvec list option rust option" where
  "rel_decompress_loop es payload out idx previous =
     (case rel_len payload of
        Panic \<Rightarrow> Some Panic
      | Diverge \<Rightarrow> Some Diverge
      | Ret n \<Rightarrow>
     (if idx < n then
        (case rel_get payload idx of
           Panic \<Rightarrow> Some Panic
         | Diverge \<Rightarrow> Some Diverge
         | Ret r \<Rightarrow>
        (case r of
           None \<Rightarrow> Some (Ret None)
         | Some b \<Rightarrow>
             (if b then
                (case rel_range payload (idx + 1) (idx + es + 1) of
                   Panic \<Rightarrow> Some Panic
                 | Diverge \<Rightarrow> Some Diverge
                 | Ret r \<Rightarrow>
                (case r of
                   None \<Rightarrow> Some (Ret None)
                 | Some element \<Rightarrow>
                     rel_decompress_loop es payload (out @ [element]) (idx + (es + 1)) (Some element)))
              else
                (case previous of
                   Some element \<Rightarrow> rel_decompress_loop es payload (out @ [element]) (idx + 1) previous
                 | None \<Rightarrow> Some (Ret None)))))
      else Some (Ret (Some out))))"

definition rel_cbv_decompress :: "compressed_bitvec \<Rightarrow> bitvec list option rust" where
  "rel_cbv_decompress c =
     loop_outcome (rel_decompress_loop (element_size c) (comp_bits c) [] 0 None)"

text \<open>The loop, written in the way of the checked one.\<close>

lemma rel_decompress_loop_outcome:
  "loop_outcome (rel_decompress_loop es payload out idx previous) =
     rbind (rel_len payload) (\<lambda>n.
       if idx < n then
         rbind (rel_get payload idx) (\<lambda>r.
           case r of
             None \<Rightarrow> Ret None
           | Some True \<Rightarrow>
               rbind (wrapping_add idx 1) (\<lambda>start.
               rbind (wrapping_add idx es) (\<lambda>t.
               rbind (wrapping_add t 1) (\<lambda>end_idx.
               rbind (rel_range payload start end_idx) (\<lambda>r.
                 case r of
                   None \<Rightarrow> Ret None
                 | Some element \<Rightarrow>
                     rbind (wrapping_add es 1) (\<lambda>d.
                     rbind (wrapping_add idx d) (\<lambda>idx'.
                     loop_outcome (rel_decompress_loop es payload (out @ [element]) idx' (Some element))))))))
           | Some False \<Rightarrow>
               (case previous of
                  Some element \<Rightarrow>
                    rbind (wrapping_add idx 1) (\<lambda>idx'.
                    loop_outcome (rel_decompress_loop es payload (out @ [element]) idx' previous))
                | None \<Rightarrow> Ret None))
       else Ret (Some out))"
  by (subst rel_decompress_loop.simps)
    (auto simp: wrapping_defs loop_outcome_def split: rust.split option.split bool.split)

lemma compress_loop_le: "compress_loop es previous payload elements \<le> rel_compress_loop es previous payload elements"
proof (induction elements arbitrary: previous payload)
  case (Cons element rest)
  show ?case
    unfolding compress_loop.simps rel_compress_loop.simps
    by (intro mono_intros order_refl Cons.IH)
qed simp

lemma cbv_compress_le [mono_intros]: "cbv_compress elements \<le> rel_cbv_compress elements"
proof -
  have "(case elements of [] \<Rightarrow> Ret 0 | element # _ \<Rightarrow> bv_len element) \<le>
      (case elements of [] \<Rightarrow> Ret 0 | element # _ \<Rightarrow> rel_len element)"
    by (cases elements) (simp_all add: bv_len_le)
  then show ?thesis
    unfolding cbv_compress_def rel_cbv_compress_def compress_def
    by (intro rbind_mono compress_loop_le option_le order_refl)
qed

lemma decompress_loop_le:
  "decompress_loop es payload out idx previous \<le> loop_outcome (rel_decompress_loop es payload out idx previous)"
proof (induction "2 ^ 64 - unat idx" arbitrary: out idx previous rule: less_induct)
  case less
  have IH: "decompress_loop es payload out' idx' previous' \<le>
      loop_outcome (rel_decompress_loop es payload out' idx' previous')"
    if "checked_add idx d = Ret idx'" "d \<noteq> 0" for out' idx' previous' d
  proof (rule less.hyps)
    from that have "unat idx < unat idx'" by (simp add: checked_add_Ret_iff unat_gt_0)
    then show "2 ^ 64 - unat idx' < 2 ^ 64 - unat idx" using unat_usize_less [of idx'] by simp
  qed
  have pos: "d \<noteq> 0" if "checked_add es 1 = Ret d" for d
    using that by (auto simp: checked_add_Ret_iff)
  show ?case
    unfolding decompress_loop.simps [of es payload out idx previous]
      rel_decompress_loop_outcome [of es payload out idx previous]
    by (intro mono_intros order_refl) (use IH pos in fastforce)+
qed

lemma cbv_decompress_le [mono_intros]: "cbv_decompress c \<le> rel_cbv_decompress c"
  by (simp add: cbv_decompress_def decompress_def rel_cbv_decompress_def decompress_loop_le)

subsection \<open>Controller sequences\<close>

definition rel_to_compressed :: "controller_sequence \<Rightarrow> compressed_controller_sequence option rust" where
  "rel_to_compressed cs =
     rbind (rel_cbv_compress (cs_seq cs)) (\<lambda>r.
       case r of
         None \<Rightarrow> Ret None
       | Some c \<Rightarrow> Ret (Some \<lparr>comp_start_tick = start_tick cs, comp_seq = c\<rparr>))"

definition rel_to_controller_sequence ::
  "compressed_controller_sequence \<Rightarrow> controller_sequence option rust" where
  "rel_to_controller_sequence c =
     rbind (rel_cbv_decompress (comp_seq c)) (\<lambda>r.
       case r of
         None \<Rightarrow> Ret None
       | Some elements \<Rightarrow> Ret (Some \<lparr>start_tick = comp_start_tick c, cs_seq = elements\<rparr>))"

definition rel_last_tick :: "controller_sequence \<Rightarrow> usize rust" where
  "rel_last_tick cs = wrapping_add (start_tick cs) (vec_len (cs_seq cs))"

definition rel_remove_till_tick :: "controller_sequence \<Rightarrow> usize \<Rightarrow> controller_sequence rust" where
  "rel_remove_till_tick cs tick =
     rbind (rel_last_tick cs) (\<lambda>last.
     rbind (if last > tick then
              rbind (wrapping_sub last tick) (\<lambda>tick_count.
                let end_idx = min tick_count (vec_len (cs_seq cs))
                in Ret (cs\<lparr>cs_seq := drop (unat end_idx) (cs_seq cs)\<rparr>))
            else Ret cs) (\<lambda>cs'.
     rbind (wrapping_add last 1) (\<lambda>t.
     Ret (cs'\<lparr>start_tick := t\<rparr>))))"

text \<open>The subtraction of two \<open>i64\<close> that wraps is the signed reading of the words' difference.\<close>

definition rel_cs_append :: "controller_sequence \<Rightarrow> controller_sequence \<Rightarrow> controller_sequence rust" where
  "rel_cs_append cs other =
     (let tick_delta = sint (start_tick other - start_tick cs) in
      if tick_delta > 0 then Ret (fold (\<lambda>b cs. cs_push cs b) (drop (nat tick_delta) (cs_seq other)) cs)
      else Ret cs)"

lemma last_tick_le [mono_intros]: "last_tick cs \<le> rel_last_tick cs"
  unfolding last_tick_def rel_last_tick_def by (intro mono_intros)

lemma sint_diff:
  "- (2 ^ 63) \<le> sint a - sint b \<Longrightarrow> sint a - sint b < 2 ^ 63 \<Longrightarrow> sint (a - b :: usize) = sint a - sint b"
  by (simp add: sint_word_ariths signed_take_bit_int_eq_self)

lemma cs_append_le: "cs_append cs other \<le> rel_cs_append cs other"
  by (simp add: cs_append_def rel_cs_append_def checked_sub_i64_def sint_diff Let_def)

text \<open>
  Where the checked function returns a value the wrapping one returns the same, so what is
  proved of the checked coder holds of the wrapping one as long as nothing overflows.
\<close>

lemma to_compressed_le: "to_compressed cs \<le> rel_to_compressed cs"
  unfolding to_compressed_def rel_to_compressed_def by (intro mono_intros order_refl)

lemma to_controller_sequence_le: "to_controller_sequence c \<le> rel_to_controller_sequence c"
  unfolding to_controller_sequence_def rel_to_controller_sequence_def by (intro mono_intros order_refl)

lemma remove_till_tick_le: "remove_till_tick cs tick \<le> rel_remove_till_tick cs tick"
  unfolding remove_till_tick_def rel_remove_till_tick_def Let_def by (intro mono_intros order_refl)

lemma rel_remove_till_tick_cases:
  "rel_remove_till_tick cs tick =
     Ret \<lparr>start_tick = start_tick cs + vec_len (cs_seq cs) + 1,
          cs_seq = drop (if tick < start_tick cs + vec_len (cs_seq cs)
            then unat (min (start_tick cs + vec_len (cs_seq cs) - tick) (vec_len (cs_seq cs))) else 0) (cs_seq cs)\<rparr>"
  by (simp add: rel_remove_till_tick_def rel_last_tick_def wrapping_defs Let_def)

subsection \<open>Properties\<close>

text \<open>
  C16: without overflow checks the coder still refines the reference coder on lists of bits.
  A well-formed payload whose size leaves room for the element size below the top of \<open>usize\<close>
  decodes to what the reference decodes, and not at all exactly when the reference fails;
  well-formed vectors are encoded as the reference encodes them, or refused when their lengths
  differ; and a controller sequence of one width that fits comes back as it was.
\<close>

theorem release_coder_reference:
  assumes "wf_bitvec payload" "bv_size payload + unat es < 2 ^ 64"
    and "list_all (\<lambda>b. wf_bitvec b \<and> bv_size b < 2 ^ 64) elements"
    and "encodable n cs"
  shows "rel_cbv_decompress \<lparr>comp_bits = payload, element_size = es\<rparr> =
      Ret (map_option (map bitvec_of) (rle_decode (unat es) None (bits payload))) \<and>
    rel_cbv_compress elements =
      Ret (if list_all (\<lambda>b. bv_size b = front_size elements) elements
           then Some \<lparr>comp_bits = bitvec_of (rle_encode None (map bits elements)),
                      element_size = word_of_nat (front_size elements)\<rparr>
           else None) \<and>
    (\<exists>c. rel_to_compressed cs = Ret (Some c) \<and> rel_to_controller_sequence c = Ret (Some cs))"
proof (intro conjI)
  show "rel_cbv_decompress \<lparr>comp_bits = payload, element_size = es\<rparr> =
      Ret (map_option (map bitvec_of) (rle_decode (unat es) None (bits payload)))"
    using assms(1,2) by (intro le_Ret_D [OF cbv_decompress_le]) (simp add: cbv_decompress_def decompress_refines)
  show "rel_cbv_compress elements =
      Ret (if list_all (\<lambda>b. bv_size b = front_size elements) elements
           then Some \<lparr>comp_bits = bitvec_of (rle_encode None (map bits elements)),
                      element_size = word_of_nat (front_size elements)\<rparr>
           else None)"
    by (rule le_Ret_D [OF cbv_compress_le cbv_compress_refines [OF assms(3)]])
  show "\<exists>c. rel_to_compressed cs = Ret (Some c) \<and> rel_to_controller_sequence c = Ret (Some cs)"
    using le_Ret_D [OF to_compressed_le to_compressed_encodable [OF assms(4)]]
      le_Ret_D [OF to_controller_sequence_le to_controller_sequence_encodable [OF assms(4), of "start_tick cs"]]
    by auto
qed

theorem release_coder_reference_witness:
  "rel_cbv_decompress \<lparr>comp_bits = bitvec_of [True, True, False, False], element_size = 2\<rparr> =
     Ret (Some [bitvec_of [True, False], bitvec_of [True, False]]) \<and>
   rel_cbv_compress [bitvec_of [True, False], bitvec_of [True]] = Ret None \<and>
   (\<exists>c. rel_to_compressed \<lparr>start_tick = 7, cs_seq = [bitvec_of [True], bitvec_of [True]]\<rparr> = Ret (Some c) \<and>
      rel_to_controller_sequence c = Ret (Some \<lparr>start_tick = 7, cs_seq = [bitvec_of [True], bitvec_of [True]]\<rparr>))"
proof -
  have "encodable 1 \<lparr>start_tick = 7, cs_seq = [bitvec_of [True], bitvec_of [True]]\<rparr>"
    by (simp add: encodable_def uniform_inputs_def)
  from release_coder_reference [OF _ _ _ this, of "bitvec_of [True, True, False, False]" 2
      "[bitvec_of [True, False], bitvec_of [True]]"]
  show ?thesis by (simp add: front_size_def)
qed

text \<open>
  The removal of acknowledged inputs never panics without overflow checks. As long as the ticks
  do not wrap it does the same as with them. When they do, the new start tick is the wrapped
  one, and if the end of the sequence has wrapped too, no input is removed for an
  acknowledgment of its start tick or a later one.
\<close>

theorem release_remove_till_tick:
  assumes "length (cs_seq cs) < 2 ^ 64"
  shows "if unat (start_tick cs) + length (cs_seq cs) + 1 < 2 ^ 64
    then rel_remove_till_tick cs tick =
      Ret \<lparr>start_tick = start_tick cs + vec_len (cs_seq cs) + 1,
           cs_seq = drop (unat (start_tick cs) + length (cs_seq cs) - unat tick) (cs_seq cs)\<rparr>
    else \<exists>cs'. rel_remove_till_tick cs tick = Ret cs' \<and>
      unat (start_tick cs') = unat (start_tick cs) + length (cs_seq cs) + 1 - 2 ^ 64 \<and>
      (unat (start_tick cs) + length (cs_seq cs) \<noteq> 2 ^ 64 - 1 \<longrightarrow> start_tick cs \<le> tick \<longrightarrow> cs_seq cs' = cs_seq cs)"
proof (cases "unat (start_tick cs) + length (cs_seq cs) + 1 < 2 ^ 64")
  case True
  then show ?thesis using le_Ret_D [OF remove_till_tick_le remove_till_tick_eq [OF True]] by simp
next
  case False
  have len: "unat (vec_len (cs_seq cs)) = length (cs_seq cs)" using assms by (rule unat_vec_len)
  let ?s = "unat (start_tick cs)" and ?n = "length (cs_seq cs)"
  let ?last = "start_tick cs + vec_len (cs_seq cs)"
  have last: "unat ?last = (?s + ?n) mod 2 ^ 64" and tick: "unat (?last + 1) = (?s + ?n + 1) mod 2 ^ 64"
    by (simp_all add: unat_word_ariths len mod_simps)
  have "?s + ?n + 1 < 2 * 2 ^ 64" using assms unat_usize_less [of "start_tick cs"] by simp
  with False have "unat (?last + 1) = ?s + ?n + 1 - 2 ^ 64" by (simp add: tick le_mod_geq)
  moreover have "\<not> tick < ?last" if "?s + ?n \<noteq> 2 ^ 64 - 1" "start_tick cs \<le> tick"
  proof -
    from False that(1) have "2 ^ 64 \<le> ?s + ?n" by simp
    with \<open>?s + ?n + 1 < 2 * 2 ^ 64\<close> have "unat ?last = ?s + ?n - 2 ^ 64" by (simp add: last le_mod_geq)
    with assms have "unat ?last \<le> ?s" by simp
    with that(2) show ?thesis by (simp add: word_less_nat_alt word_le_nat_alt)
  qed
  ultimately show ?thesis using False by (simp add: rel_remove_till_tick_cases)
qed

theorem release_remove_till_tick_witness:
  "\<exists>cs'. rel_remove_till_tick \<lparr>start_tick = - 1, cs_seq = [bv_new, bv_new, bv_new]\<rparr> (- 1) = Ret cs' \<and>
     unat (start_tick cs') = 3 \<and> cs_seq cs' = [bv_new, bv_new, bv_new]"
  using release_remove_till_tick [of "\<lparr>start_tick = - 1, cs_seq = [bv_new, bv_new, bv_new]\<rparr>" "- 1"]
  by (simp add: unsigned_minus_1_eq_mask mask_eq_exp_minus_1)

text \<open>
  C28: a datagram can hang a release build. Without overflow checks a payload that starts with
  a one bit and announces the largest element size is decoded for ever: each round adds an
  empty element and moves the index by zero. The build with checks panics on it.
\<close>

theorem release_decompress_hangs:
  assumes "wf_bitvec payload" "bv_size payload < 2 ^ 64" "bits payload = True # rest"
  shows "rel_cbv_decompress \<lparr>comp_bits = payload, element_size = - 1\<rparr> = Diverge \<and>
    cbv_decompress \<lparr>comp_bits = payload, element_size = - 1\<rparr> = Panic"
proof -
  have size: "bv_size payload = Suc (length rest)"
    using arg_cong [OF assms(3), of length] by simp
  have "bv_len payload = Ret (word_of_nat (bv_size payload))"
    using assms by (simp add: bv_len_ok wf_storage)
  then have len: "rel_len payload = Ret (word_of_nat (bv_size payload))"
    using bv_len_le [of payload] by (rule le_Ret_D [rotated])
  have pos: "(0 :: usize) < word_of_nat (bv_size payload)"
    using assms(2) size by (subst usize_less_of_nat_iff) simp_all
  have "bv_get payload 0 = Ret (Some True)"
    using assms by (simp add: bv_get_ok size)
  then have get: "rel_get payload 0 = Ret (Some True)"
    using bv_get_le [of payload 0] by (rule le_Ret_D [rotated])
  have range: "rel_range payload 1 0 = Ret (Some bv_new)"
    by (simp add: rel_range_def rel_range_loop.simps)
  have step: "rel_len payload = Ret (word_of_nat (bv_size payload)) \<and> (0 :: usize) < word_of_nat (bv_size payload) \<and>
      rel_get payload 0 = Ret (Some True) \<and> rel_range payload 1 0 = Ret (Some bv_new)"
    using len pos get range by blast
  have "rel_decompress_loop es p out idx previous = Some r \<Longrightarrow> \<not> (es = - 1 \<and> p = payload \<and> idx = 0)"
    for es p out idx previous r
    by (rule rel_decompress_loop.raw_induct
        [where P = "\<lambda>es p out idx previous r. \<not> (es = - 1 \<and> p = payload \<and> idx = 0)"])
      (use step in \<open>fastforce simp: add.commute\<close>)
  then have "rel_decompress_loop (- 1) payload [] 0 None = None"
    by (cases "rel_decompress_loop (- 1) payload [] 0 None") blast+
  moreover have "cbv_decompress \<lparr>comp_bits = payload, element_size = - 1\<rparr> = Panic"
    using decompress_overflow [OF assms refl] by (simp add: cbv_decompress_def)
  ultimately show ?thesis by (simp add: rel_cbv_decompress_def loop_outcome_def)
qed

theorem release_decompress_hangs_witness:
  "rel_cbv_decompress \<lparr>comp_bits = bitvec_of [True, False], element_size = - 1\<rparr> = Diverge"
  using release_decompress_hangs [of "bitvec_of [True, False]" "[False]"] by simp

end
