(* ===== verification/Msg.thy ===== *)
theory Msg
  imports Control
begin

text \<open>
  \<^verbatim>\<open>src/msg.rs\<close>: user names, credentials, the errors a servicer meets and the messages of
  the two transports, with the standard library's socket addresses and I/O errors. The
  error type of the serializer, which is not part of the repository, is the type variable
  \<open>'be\<close>.
\<close>

datatype username = Username string

text \<open>\<open>std::net::SocketAddr\<close> with \<open>set_port\<close>.\<close>

datatype socket_addr =
    SockV4 u32 u16
  | SockV6 "128 word" u16 u32 u32

primrec addr_port :: "socket_addr \<Rightarrow> u16" where
  "addr_port (SockV4 ip port) = port"
| "addr_port (SockV6 ip port flow scope) = port"

primrec set_port :: "socket_addr \<Rightarrow> u16 \<Rightarrow> socket_addr" where
  "set_port (SockV4 ip port) p = SockV4 ip p"
| "set_port (SockV6 ip port flow scope) p = SockV6 ip p flow scope"

record client_data =
  cd_username :: username
  udp_addr :: socket_addr

record credentials =
  cr_username :: username
  password :: string
  udp_port :: u16

text \<open>\<open>std::io::Error\<close>, up to its kind; the enumeration is open-ended in the library.\<close>

datatype io_error_kind =
    NotFound | ConnectionReset | WouldBlock | InvalidInput | InvalidData | WriteZero
  | Interrupted | OtherError | UnexpectedEof | PermissionDenied | ConnectionRefused
  | ConnectionAborted | NotConnected | AddrInUse | AddrNotAvailable | BrokenPipe
  | AlreadyExists | TimedOut | UnlistedKind string

datatype io_error = IoError (err_kind: io_error_kind)

datatype 'be warning =
    FailedToCompress
  | FailedToDecompress
  | FailedToDeserialize 'be
  | IoWarning io_error
  | FailedToSerialize 'be
  | FailedToSerializeAck 'be
  | WrongMessageType
  | UnknownSource socket_addr

datatype drop_reason =
    AlreadyConnected
  | ApplicationThreadDisconnected
  | ServicerThreadDisconnected
  | FailedToAuthenticate credentials
  | FailedToBind io_error
  | FailedToConnect io_error
  | IoFailure io_error

datatype 'be comm_error =
    Warning "'be warning"
  | Drop drop_reason
  | Exit

datatype application_error = Shutdown

text \<open>\<open>impl From<std::io::Error> for CommError\<close>.\<close>

definition comm_error_from :: "io_error \<Rightarrow> 'be comm_error" where
  "comm_error_from err =
     (case err_kind err of
        NotFound \<Rightarrow> Warning (IoWarning err)
      | ConnectionReset \<Rightarrow> Warning (IoWarning err)
      | WouldBlock \<Rightarrow> Warning (IoWarning err)
      | InvalidInput \<Rightarrow> Warning (IoWarning err)
      | InvalidData \<Rightarrow> Warning (IoWarning err)
      | WriteZero \<Rightarrow> Warning (IoWarning err)
      | Interrupted \<Rightarrow> Warning (IoWarning err)
      | OtherError \<Rightarrow> Warning (IoWarning err)
      | UnexpectedEof \<Rightarrow> Warning (IoWarning err)
      | PermissionDenied \<Rightarrow> Drop (IoFailure err)
      | ConnectionRefused \<Rightarrow> Drop (IoFailure err)
      | ConnectionAborted \<Rightarrow> Drop (IoFailure err)
      | NotConnected \<Rightarrow> Drop (IoFailure err)
      | AddrInUse \<Rightarrow> Drop (IoFailure err)
      | AddrNotAvailable \<Rightarrow> Drop (IoFailure err)
      | BrokenPipe \<Rightarrow> Drop (IoFailure err)
      | AlreadyExists \<Rightarrow> Drop (IoFailure err)
      | TimedOut \<Rightarrow> Drop (IoFailure err)
      | _ \<Rightarrow> Drop (IoFailure err))"

lemma comm_error_from_not_Exit [simp]: "comm_error_from err \<noteq> Exit"
  by (simp add: comm_error_from_def split: io_error_kind.split)

lemma comm_error_from_cases:
  "comm_error_from err = Warning (IoWarning err) \<or> comm_error_from err = Drop (IoFailure err)"
  by (simp add: comm_error_from_def split: io_error_kind.split)

text \<open>Messages of the reliable transport.\<close>

datatype join_response = Confirmation u16 | AuthenticationError

datatype re_client_message = ClientChat string | JoinRequest credentials

record chat_message =
  chat_from :: username
  chat_text :: string

datatype re_server_message = JoinResponse join_response | ServerChat chat_message

text \<open>Messages of the low-latency transport.\<close>

datatype ll_client_message = ControllerInput compressed_controller_sequence

datatype ll_server_message = WorldState "byte list" | LastTickReceived usize

end
