(* ===== verification/Channel.thy ===== *)
theory Channel
  imports Msg
begin

text \<open>
  In-process queues and the drain loops of \<^verbatim>\<open>src/util.rs\<close>. A queue end is used through
  \<open>try_recv\<close>; the locale \<open>receiver\<close> states what a receiver promises over the list of
  messages waiting for it, and \<open>channel\<close> adds the sending end. The model of the standard
  library's \<open>mpsc\<close> channel interprets both. The \<open>spmc\<close> crate is not part of the
  repository: its \<open>try_recv\<close> is an argument of the definitions that use it, and theorems
  about them assume \<open>receiver\<close> of it.
  A drain is one atomic step of the model: it sees the queue as it is when the loop starts.
\<close>

datatype try_recv_error = Empty | Disconnected

type_synonym ('r, 'm) recv_fun = "'r \<Rightarrow> 'r \<times> (try_recv_error + 'm)"

text \<open>The loop both drain functions have.\<close>

partial_function (option) drain_receiver ::
  "('r, 'm) recv_fun \<Rightarrow> 'm list \<Rightarrow> 'r \<Rightarrow> ('r \<times> (drop_reason + 'm list)) option" where
  "drain_receiver try_recv msgs r =
     (case try_recv r of
        (r', Inr msg) \<Rightarrow> drain_receiver try_recv (msgs @ [msg]) r'
      | (r', Inl Empty) \<Rightarrow> Some (r', Inr msgs)
      | (r', Inl Disconnected) \<Rightarrow> Some (r', Inl ApplicationThreadDisconnected))"

definition drain_spmc_receiver ::
  "('r, 'm) recv_fun \<Rightarrow> 'r \<Rightarrow> ('r \<times> (drop_reason + 'm list)) rust" where
  "drain_spmc_receiver try_recv r = of_loop (drain_receiver try_recv [] r)"

locale receiver =
  fixes try_recv :: "('r, 'm) recv_fun"
    and pending :: "'r \<Rightarrow> 'm list"
    and connected :: "'r \<Rightarrow> bool"
  assumes recv_message: "pending r = m # ms \<Longrightarrow>
      \<exists>r'. try_recv r = (r', Inr m) \<and> pending r' = ms \<and> connected r' = connected r"
    and recv_empty: "pending r = [] \<Longrightarrow> connected r \<Longrightarrow>
      \<exists>r'. try_recv r = (r', Inl Empty) \<and> pending r' = [] \<and> connected r'"
    and recv_disconnected: "pending r = [] \<Longrightarrow> \<not> connected r \<Longrightarrow>
      \<exists>r'. try_recv r = (r', Inl Disconnected) \<and> pending r' = [] \<and> \<not> connected r'"
begin

text \<open>
  Draining terminates; it returns everything that waits, in order, when the sending end is
  alive, and an error, losing the messages, when it is not.
\<close>

lemma drain_loop:
  "\<exists>r'. drain_receiver try_recv msgs r =
      Some (r', if connected r then Inr (msgs @ pending r) else Inl ApplicationThreadDisconnected) \<and>
    pending r' = [] \<and> connected r' = connected r"
proof (induction "pending r" arbitrary: msgs r)
  case Nil
  then have nil: "pending r = []" by simp
  show ?case
    using recv_empty [OF nil] recv_disconnected [OF nil] nil
    by (cases "connected r") (auto simp: drain_receiver.simps [of try_recv msgs r])
next
  case (Cons m ms)
  then obtain r1 where r1: "try_recv r = (r1, Inr m)" "pending r1 = ms" "connected r1 = connected r"
    using recv_message [of r m ms] by auto
  then show ?case
    using Cons.hyps(1) [of r1 "msgs @ [m]"] Cons.hyps(2) [symmetric]
    by (cases "connected r") (simp_all add: drain_receiver.simps [of try_recv msgs r])
qed

lemma drain_connected:
  "connected r \<Longrightarrow> \<exists>r'. drain_spmc_receiver try_recv r = Ret (r', Inr (pending r)) \<and>
     pending r' = [] \<and> connected r'"
  using drain_loop [of "[]" r] by (auto simp: drain_spmc_receiver_def)

lemma drain_disconnected:
  "\<not> connected r \<Longrightarrow> \<exists>r'. drain_spmc_receiver try_recv r = Ret (r', Inl ApplicationThreadDisconnected) \<and>
     pending r' = [] \<and> \<not> connected r'"
  using drain_loop [of "[]" r] by (auto simp: drain_spmc_receiver_def)

text \<open>A second drain right after the first finds nothing.\<close>

lemma drain_twice:
  assumes "drain_spmc_receiver try_recv r = Ret (r1, res)" "connected r"
  shows "\<exists>r2. drain_spmc_receiver try_recv r1 = Ret (r2, Inr [])"
  using drain_connected [OF assms(2)] assms(1) drain_connected [of r1] by auto

end

locale channel = receiver try_recv pending connected
  for try_recv :: "('c, 'm) recv_fun" and pending connected +
  fixes send :: "'c \<Rightarrow> 'm \<Rightarrow> 'c \<times> ('m + unit)"
    and receiver_alive :: "'c \<Rightarrow> bool"
  assumes send_alive: "receiver_alive c \<Longrightarrow>
      \<exists>c'. send c m = (c', Inr ()) \<and> pending c' = pending c @ [m] \<and>
        connected c' = connected c \<and> receiver_alive c'"
    and send_dead: "\<not> receiver_alive c \<Longrightarrow> send c m = (c, Inl m)"
begin

text \<open>What is sent before a drain comes out of it, in the order it went in.\<close>

lemma send_list:
  "receiver_alive c \<Longrightarrow> receiver_alive (fold (\<lambda>m c. fst (send c m)) ms c) \<and>
     pending (fold (\<lambda>m c. fst (send c m)) ms c) = pending c @ ms \<and>
     connected (fold (\<lambda>m c. fst (send c m)) ms c) = connected c"
proof (induction ms arbitrary: c)
  case Nil
  then show ?case by simp
next
  case (Cons m ms)
  from send_alive [OF Cons.prems, of m] Cons.IH [of "fst (send c m)"] show ?case by auto
qed

lemma fifo:
  assumes "receiver_alive c" "connected c" "pending c = []"
  shows "\<exists>c'. drain_spmc_receiver try_recv (fold (\<lambda>m c. fst (send c m)) ms c) = Ret (c', Inr ms)"
  using drain_connected [of "fold (\<lambda>m c. fst (send c m)) ms c"] send_list [OF assms(1), of ms] assms
  by auto

end

text \<open>Draining ends for every receiver that keeps the laws.\<close>

lemma receiver_drain_returns: "receiver try_recv pending connected \<Longrightarrow> drain_spmc_receiver try_recv r \<noteq> Diverge"
  using receiver.drain_connected [of try_recv pending connected r]
    receiver.drain_disconnected [of try_recv pending connected r]
  by (cases "connected r") auto

subsection \<open>The standard library's mpsc channel\<close>

text \<open>
  One record stands for both ends of a channel: the queue, whether some \<open>Sender\<close> and
  whether the \<open>Receiver\<close> still exist.
\<close>

record 'm mpsc =
  queue :: "'m list"
  sender_alive :: bool
  receiver_end :: bool

definition mpsc_channel :: "'m mpsc" where
  "mpsc_channel = \<lparr>queue = [], sender_alive = True, receiver_end = True\<rparr>"

definition mpsc_send :: "'m mpsc \<Rightarrow> 'm \<Rightarrow> 'm mpsc \<times> ('m + unit)" where
  "mpsc_send c m =
     (if receiver_end c then (c\<lparr>queue := queue c @ [m]\<rparr>, Inr ()) else (c, Inl m))"

definition mpsc_try_recv :: "('m mpsc, 'm) recv_fun" where
  "mpsc_try_recv c =
     (case queue c of
        m # ms \<Rightarrow> (c\<lparr>queue := ms\<rparr>, Inr m)
      | [] \<Rightarrow> (c, Inl (if sender_alive c then Empty else Disconnected)))"

definition drain_mpsc_receiver :: "'m mpsc \<Rightarrow> ('m mpsc \<times> (drop_reason + 'm list)) rust" where
  "drain_mpsc_receiver c = of_loop (drain_receiver mpsc_try_recv [] c)"

interpretation mpsc: channel mpsc_try_recv queue sender_alive mpsc_send receiver_end
  by unfold_locales (auto simp: mpsc_try_recv_def mpsc_send_def)

text \<open>The exact state after draining an \<open>mpsc\<close> channel.\<close>

lemma drain_receiver_mpsc:
  "drain_receiver mpsc_try_recv msgs c =
     Some (c\<lparr>queue := []\<rparr>,
       if sender_alive c then Inr (msgs @ queue c) else Inl ApplicationThreadDisconnected)"
proof (induction "queue c" arbitrary: msgs c)
  case Nil
  then show ?case by (simp add: drain_receiver.simps [of _ msgs c] mpsc_try_recv_def)
next
  case (Cons m ms)
  from Cons.hyps(1) [of "c\<lparr>queue := ms\<rparr>" "msgs @ [m]"] Cons.hyps(2) [symmetric] show ?case
    by (simp add: drain_receiver.simps [of _ msgs c] mpsc_try_recv_def)
qed

lemma drain_mpsc_receiver_eq [simp]:
  "drain_mpsc_receiver c =
     Ret (c\<lparr>queue := []\<rparr>,
       if sender_alive c then Inr (queue c) else Inl ApplicationThreadDisconnected)"
  by (simp add: drain_mpsc_receiver_def drain_receiver_mpsc)

lemma mpsc_send_all:
  "fold (\<lambda>m c. fst (mpsc_send c m)) ms c = (if receiver_end c then c\<lparr>queue := queue c @ ms\<rparr> else c)"
  by (induction ms arbitrary: c) (simp_all add: mpsc_send_def)

subsection \<open>Properties\<close>

text \<open>
  Draining a queue after any number of sends returns all messages in the order they were
  sent, behind those already waiting, and leaves it empty. Sends to a queue whose receiver is
  gone change nothing. When no sender is left the drain is an error and what was waiting is
  lost. Draining never blocks.
\<close>

theorem mpsc_drain_fifo:
  "drain_mpsc_receiver (fold (\<lambda>m c. fst (mpsc_send c m)) ms c) =
     Ret (c\<lparr>queue := []\<rparr>,
       if sender_alive c then Inr (if receiver_end c then queue c @ ms else queue c)
       else Inl ApplicationThreadDisconnected)"
  by (simp add: mpsc_send_all)

end
