(* ===== verification/Transport.thy ===== *)
theory Transport
  imports Channel
begin

text \<open>
  The standard library's sockets, as far as the servicers use them, and the two UDP receive
  helpers of \<^verbatim>\<open>src/util.rs\<close>. The network is explicit: a socket carries the script of what
  will arrive (a datagram or a chunk of a stream, or an error) and of what its sends will
  answer, and a log of what was sent. An empty UDP script is a socket with nothing to
  receive, and an empty UDP send script a network that accepts everything. TCP streams block: at
  the end of its script of arrivals the peer of a stream has closed it, or it is silent for ever
  and a read never returns; at the end of its script of writes it takes everything, or it has
  stopped reading and a write never returns. Reads never return more than the buffer they are given. A connected
  UDP socket only receives from its peer: its script holds what gets through. What the set-up
  calls (\<open>connect\<close>, the timeout, the mode) answer are fields of the record, and so are the
  addresses.
\<close>

definition MAX_PACKET_SIZE :: nat where
  "MAX_PACKET_SIZE = 1500"

record udp_socket =
  udp_in :: "(io_error + byte list \<times> socket_addr) list"
  udp_out :: "(byte list \<times> socket_addr) list"
  udp_send_script :: "io_error option list"
  udp_local :: "io_error + socket_addr"
  udp_set_nonblocking :: "io_error + unit"
  udp_set_read_timeout :: "io_error + unit"
  udp_connect :: "io_error + unit"

text \<open>\<open>recv_from\<close> on a buffer: the length received, the buffer after it, and the source.\<close>

definition udp_recv_from ::
  "udp_socket \<Rightarrow> byte list \<Rightarrow> udp_socket \<times> (io_error + nat \<times> byte list \<times> socket_addr)" where
  "udp_recv_from s buf =
     (case udp_in s of
        [] \<Rightarrow> (s, Inl (IoError WouldBlock))
      | Inl e # rest \<Rightarrow> (s\<lparr>udp_in := rest\<rparr>, Inl e)
      | Inr (d, src) # rest \<Rightarrow>
          (let data = take (length buf) d
           in (s\<lparr>udp_in := rest\<rparr>, Inr (length data, data @ drop (length data) buf, src))))"

definition udp_recv :: "udp_socket \<Rightarrow> byte list \<Rightarrow> udp_socket \<times> (io_error + nat \<times> byte list)" where
  "udp_recv s buf =
     (case udp_recv_from s buf of
        (s', Inl e) \<Rightarrow> (s', Inl e)
      | (s', Inr (n, buf', src)) \<Rightarrow> (s', Inr (n, buf')))"

definition udp_send_to :: "udp_socket \<Rightarrow> byte list \<Rightarrow> socket_addr \<Rightarrow> udp_socket \<times> (io_error + unit)" where
  "udp_send_to s bs addr =
     (case udp_send_script s of
        Some e # rest \<Rightarrow> (s\<lparr>udp_send_script := rest\<rparr>, Inl e)
      | None # rest \<Rightarrow> (s\<lparr>udp_send_script := rest, udp_out := udp_out s @ [(bs, addr)]\<rparr>, Inr ())
      | [] \<Rightarrow> (s\<lparr>udp_out := udp_out s @ [(bs, addr)]\<rparr>, Inr ()))"

definition maybe_receive_from_udp ::
  "udp_socket \<Rightarrow> udp_socket \<times> ('be comm_error + (byte list \<times> socket_addr) option)" where
  "maybe_receive_from_udp s =
     (let buf = resize_vec MAX_PACKET_SIZE 0 [] in
      case udp_recv_from s buf of
        (s', Inr (n, buf', src)) \<Rightarrow> (s', Inr (Some (resize_vec n 0 buf', src)))
      | (s', Inl err) \<Rightarrow>
          (s', case err_kind err of
                 WouldBlock \<Rightarrow> Inr None
               | TimedOut \<Rightarrow> Inr None
               | _ \<Rightarrow> Inl (Warning (IoWarning err))))"

definition maybe_receive_udp :: "udp_socket \<Rightarrow> udp_socket \<times> ('be comm_error + byte list)" where
  "maybe_receive_udp s =
     (let buf = resize_vec MAX_PACKET_SIZE 0 [] in
      case udp_recv s buf of
        (s', Inr (n, buf')) \<Rightarrow> (s', Inr (resize_vec n 0 buf'))
      | (s', Inl err) \<Rightarrow>
          (s', case err_kind err of
                 WouldBlock \<Rightarrow> Inr []
               | TimedOut \<Rightarrow> Inr []
               | _ \<Rightarrow> Inl (Warning (IoWarning err))))"

definition udp_idle_error :: "io_error \<Rightarrow> bool" where
  "udp_idle_error err \<longleftrightarrow> err_kind err = WouldBlock \<or> err_kind err = TimedOut"

lemma resize_received [simp]: "resize_vec (length ys) x (ys @ zs) = ys"
  by (simp add: resize_vec_def)

lemma idle_case [simp]:
  "(case err_kind err of WouldBlock \<Rightarrow> a | TimedOut \<Rightarrow> a | _ \<Rightarrow> b) = (if udp_idle_error err then a else b)"
  by (auto simp: udp_idle_error_def split: io_error_kind.split)

lemma length_packet_buf: "resize_vec MAX_PACKET_SIZE (0 :: byte) [] = replicate MAX_PACKET_SIZE 0"
  by (simp add: resize_vec_def MAX_PACKET_SIZE_def)

lemma maybe_receive_from_udp_eq:
  "maybe_receive_from_udp s =
     (case udp_in s of
        [] \<Rightarrow> (s, Inr None)
      | Inl err # rest \<Rightarrow>
          (s\<lparr>udp_in := rest\<rparr>, if udp_idle_error err then Inr None else Inl (Warning (IoWarning err)))
      | Inr (d, src) # rest \<Rightarrow> (s\<lparr>udp_in := rest\<rparr>, Inr (Some (take MAX_PACKET_SIZE d, src))))"
  by (simp add: maybe_receive_from_udp_def length_packet_buf udp_recv_from_def Let_def
      udp_idle_error_def [of "IoError WouldBlock"] del: length_take split: list.split sum.split)

lemma maybe_receive_udp_eq:
  "maybe_receive_udp s =
     (case udp_in s of
        [] \<Rightarrow> (s, Inr [])
      | Inl err # rest \<Rightarrow>
          (s\<lparr>udp_in := rest\<rparr>, if udp_idle_error err then Inr [] else Inl (Warning (IoWarning err)))
      | Inr (d, src) # rest \<Rightarrow> (s\<lparr>udp_in := rest\<rparr>, Inr (take MAX_PACKET_SIZE d)))"
  by (simp add: maybe_receive_udp_def length_packet_buf udp_recv_def udp_recv_from_def Let_def
      udp_idle_error_def [of "IoError WouldBlock"] del: length_take split: list.split sum.split)

lemma maybe_receive_from_udp_frame:
  "maybe_receive_from_udp s = (s', r) \<Longrightarrow>
     udp_out s' = udp_out s \<and> udp_send_script s' = udp_send_script s \<and> udp_local s' = udp_local s"
  by (auto simp: maybe_receive_from_udp_eq split: list.splits sum.splits)

subsection \<open>TCP streams\<close>

record tcp_stream =
  tcp_in :: "(io_error + byte list) list"
  tcp_in_closed :: bool
  tcp_out :: "byte list"
  tcp_write_script :: "(io_error + nat) list"
  tcp_out_stalled :: bool
  tcp_peer :: "io_error + socket_addr"

text \<open>
  \<open>read\<close> on a blocking stream. It waits until something has arrived or the peer has closed the
  stream, also when the buffer it is given is empty.
\<close>

definition tcp_read :: "tcp_stream \<Rightarrow> byte list \<Rightarrow> (tcp_stream \<times> (io_error + nat \<times> byte list)) rust" where
  "tcp_read s buf =
     (case tcp_in s of
        [] \<Rightarrow> if tcp_in_closed s then Ret (s, Inr (0, buf)) else Diverge
      | Inl e # rest \<Rightarrow> Ret (s\<lparr>tcp_in := rest\<rparr>, Inl e)
      | Inr chunk # rest \<Rightarrow>
          (let data = take (length buf) chunk; left = drop (length buf) chunk
           in Ret (s\<lparr>tcp_in := (if left = [] then rest else Inr left # rest)\<rparr>,
                Inr (length data, data @ drop (length data) buf))))"

text \<open>\<open>write\<close>: how many bytes the network takes is up to it.\<close>

definition tcp_write :: "tcp_stream \<Rightarrow> byte list \<Rightarrow> (tcp_stream \<times> (io_error + nat)) rust" where
  "tcp_write s bs =
     (case tcp_write_script s of
        [] \<Rightarrow> if tcp_out_stalled s then Diverge
              else Ret (s\<lparr>tcp_out := tcp_out s @ bs\<rparr>, Inr (length bs))
      | Inl e # rest \<Rightarrow> Ret (s\<lparr>tcp_write_script := rest\<rparr>, Inl e)
      | Inr n # rest \<Rightarrow>
          Ret (s\<lparr>tcp_write_script := rest, tcp_out := tcp_out s @ take n bs\<rparr>, Inr (min n (length bs))))"

text \<open>
  \<open>write_all\<close>: writes until nothing is left, retries when interrupted, and fails with
  \<open>WriteZero\<close> when the network takes nothing.
\<close>

function tcp_write_all :: "tcp_stream \<Rightarrow> byte list \<Rightarrow> (tcp_stream \<times> (io_error + unit)) rust" where
  "tcp_write_all s bs =
     (if bs = [] then Ret (s, Inr ())
      else rbind (tcp_write s bs) (\<lambda>(s', r).
        case r of
          Inl e \<Rightarrow> if err_kind e = Interrupted then tcp_write_all s' bs else Ret (s', Inl e)
        | Inr n \<Rightarrow>
            if n = 0 then Ret (s', Inl (IoError WriteZero)) else tcp_write_all s' (drop n bs)))"
  by pat_completeness auto
termination
  by (relation "measures [\<lambda>(s, bs). length bs, \<lambda>(s, bs). length (tcp_write_script s)]")
    (auto simp: tcp_write_def split: list.splits sum.splits if_splits)

declare tcp_write_all.simps [simp del]

lemma tcp_write_all_Nil [simp]: "tcp_write_all s [] = Ret (s, Inr ())"
  by (simp add: tcp_write_all.simps)

text \<open>When a read or a write may wait for ever.\<close>

definition tcp_may_block :: "tcp_stream \<Rightarrow> bool" where
  "tcp_may_block s \<longleftrightarrow> tcp_in s = [] \<and> \<not> tcp_in_closed s \<or> tcp_out_stalled s"

lemma tcp_read_Diverge_iff: "tcp_read s buf = Diverge \<longleftrightarrow> tcp_in s = [] \<and> \<not> tcp_in_closed s"
  by (auto simp: tcp_read_def Let_def split: list.split sum.split)

lemma tcp_read_not_Panic: "tcp_read s buf \<noteq> Panic"
  by (auto simp: tcp_read_def Let_def split: list.split sum.split)

lemma tcp_read_cases:
  obtains (blocks) "tcp_read s buf = Diverge" "tcp_in s = []" "\<not> tcp_in_closed s"
  | (returns) s' r where "tcp_read s buf = Ret (s', r)"
  using tcp_read_Diverge_iff [of s buf] tcp_read_not_Panic [of s buf] by (cases "tcp_read s buf") auto

text \<open>Reading into an empty vector reads nothing, whatever the peer sent.\<close>

lemma tcp_read_empty_Inr: "tcp_read s [] = Ret (s', Inr r) \<Longrightarrow> r = (0, []) \<and> tcp_out s' = tcp_out s"
  by (auto simp: tcp_read_def Let_def split: list.splits sum.splits if_splits)

lemma tcp_read_frame:
  "tcp_read s buf = Ret (s', r) \<Longrightarrow>
     tcp_out s' = tcp_out s \<and> tcp_write_script s' = tcp_write_script s \<and> tcp_peer s' = tcp_peer s \<and>
     tcp_in_closed s' = tcp_in_closed s \<and> tcp_out_stalled s' = tcp_out_stalled s"
  by (auto simp: tcp_read_def Let_def split: list.splits sum.splits if_splits)

lemma tcp_write_not_Panic: "tcp_write s bs \<noteq> Panic"
  by (auto simp: tcp_write_def split: list.split sum.split)

lemma tcp_write_returns: "\<not> tcp_out_stalled s \<Longrightarrow> tcp_write s bs \<noteq> Diverge"
  by (auto simp: tcp_write_def split: list.split sum.split)

lemma tcp_write_frame:
  "tcp_write s bs = Ret (s', r) \<Longrightarrow>
     tcp_in s' = tcp_in s \<and> tcp_in_closed s' = tcp_in_closed s \<and> tcp_out_stalled s' = tcp_out_stalled s"
  by (auto simp: tcp_write_def split: list.splits sum.splits if_splits)

lemma tcp_write_Inr:
  "tcp_write s bs = Ret (s', Inr n) \<Longrightarrow> n \<le> length bs \<and> tcp_out s' = tcp_out s @ take n bs"
  by (auto simp: tcp_write_def min_def split: list.splits sum.splits if_splits)

lemma tcp_write_Inl: "tcp_write s bs = Ret (s', Inl e) \<Longrightarrow> tcp_out s' = tcp_out s"
  by (auto simp: tcp_write_def split: list.splits sum.splits if_splits)

lemma tcp_write_all_returns: "\<not> tcp_out_stalled s \<Longrightarrow> tcp_write_all s bs \<noteq> Diverge"
proof (induction s bs rule: tcp_write_all.induct)
  case (1 s bs)
  show ?case
  proof (cases "bs = []")
    case False
    obtain s1 w where w: "tcp_write s bs = Ret (s1, w)"
      using tcp_write_returns [OF "1.prems"] tcp_write_not_Panic [of s bs] by (cases "tcp_write s bs") auto
    have "\<not> tcp_out_stalled s1" using tcp_write_frame [OF w] "1.prems" by simp
    with "1.IH" [OF False w refl] w False show ?thesis
      by (cases w) (simp_all add: tcp_write_all.simps [of s bs])
  qed simp
qed

lemma tcp_write_all_frame:
  "tcp_write_all s bs = Ret (s', r) \<Longrightarrow>
     tcp_in s' = tcp_in s \<and> tcp_in_closed s' = tcp_in_closed s \<and> tcp_out_stalled s' = tcp_out_stalled s"
proof (induction s bs rule: tcp_write_all.induct)
  case (1 s bs)
  show ?case
  proof (cases "bs = []")
    case True
    with "1.prems" show ?thesis by simp
  next
    case False
    with "1.prems" obtain s1 w where w: "tcp_write s bs = Ret (s1, w)"
      by (auto simp: tcp_write_all.simps [of s bs] rbind_Ret_iff)
    note same = tcp_write_frame [OF w]
    show ?thesis
      using "1.IH" [OF False w refl] "1.prems" w False same
      by (cases w) (auto simp: tcp_write_all.simps [of s bs] split: if_splits)
  qed
qed

subsection \<open>Properties\<close>

text \<open>
  The receive helpers never block and never return more than \<open>MAX_PACKET_SIZE\<close> bytes. A
  waiting datagram is taken off the socket and returned up to that size with its source; no
  datagram, or an error that only says so (\<open>WouldBlock\<close>, \<open>TimedOut\<close>), is \<open>None\<close> (an empty
  buffer for the connected socket); every other error is a warning that carries it.
\<close>

theorem maybe_receive_spec:
  "maybe_receive_from_udp (s\<lparr>udp_in := Inr (d, src) # rest\<rparr>) =
     (s\<lparr>udp_in := rest\<rparr>, Inr (Some (take MAX_PACKET_SIZE d, src)))
   \<and> maybe_receive_from_udp (s\<lparr>udp_in := []\<rparr>) = (s\<lparr>udp_in := []\<rparr>, Inr None)
   \<and> maybe_receive_from_udp (s\<lparr>udp_in := Inl err # rest\<rparr>) =
     (s\<lparr>udp_in := rest\<rparr>, if udp_idle_error err then Inr None else Inl (Warning (IoWarning err)))
   \<and> maybe_receive_udp (s\<lparr>udp_in := Inr (d, src) # rest\<rparr>) =
     (s\<lparr>udp_in := rest\<rparr>, Inr (take MAX_PACKET_SIZE d))
   \<and> maybe_receive_udp (s\<lparr>udp_in := []\<rparr>) = (s\<lparr>udp_in := []\<rparr>, Inr [])
   \<and> maybe_receive_udp (s\<lparr>udp_in := Inl err # rest\<rparr>) =
     (s\<lparr>udp_in := rest\<rparr>, if udp_idle_error err then Inr [] else Inl (Warning (IoWarning err)))"
  by (simp add: maybe_receive_from_udp_eq maybe_receive_udp_eq)

end
