(* ===== verification/EventLoop.thy ===== *)
theory EventLoop
  imports Transport
begin

text \<open>
  The shape every servicer thread has: an endless loop around \<open>spin_once\<close> that a branch of
  its \<open>match\<close> leaves. One turn of the loop is a function to \<open>loop_turn\<close>. Between two turns
  the rest of the system acts on what the thread shares with it (queues, sockets, flags):
  \<open>env n\<close> is what happens to the thread's state before turn \<open>n\<close>. \<open>run_loop\<close> is the
  thread's whole run; it is \<open>None\<close> when the loop never ends. \<open>loop_reach\<close> relates a state
  to those it can reach by turns and actions of the environment.
\<close>

datatype 's loop_turn = Continue 's | Break 's

partial_function (option) run_loop ::
  "('s \<Rightarrow> 's loop_turn rust) \<Rightarrow> (nat \<Rightarrow> 's \<Rightarrow> 's) \<Rightarrow> nat \<Rightarrow> 's \<Rightarrow> 's rust option" where
  "run_loop body env n s =
     (case body (env n s) of
        Ret (Continue s') \<Rightarrow> run_loop body env (Suc n) s'
      | Ret (Break s') \<Rightarrow> Some (Ret s')
      | Panic \<Rightarrow> Some Panic
      | Diverge \<Rightarrow> Some Diverge)"

definition spin_loop :: "('s \<Rightarrow> 's loop_turn rust) \<Rightarrow> (nat \<Rightarrow> 's \<Rightarrow> 's) \<Rightarrow> 's \<Rightarrow> 's rust" where
  "spin_loop body env s = (case run_loop body env 0 s of None \<Rightarrow> Diverge | Some r \<Rightarrow> r)"

inductive loop_reach ::
  "('s \<Rightarrow> 's loop_turn rust) \<Rightarrow> ('s \<Rightarrow> 's \<Rightarrow> bool) \<Rightarrow> 's \<Rightarrow> 's \<Rightarrow> bool"
  for body :: "'s \<Rightarrow> 's loop_turn rust" and env :: "'s \<Rightarrow> 's \<Rightarrow> bool" and s :: 's where
  start: "loop_reach body env s s"
| environment: "loop_reach body env s t \<Longrightarrow> env t u \<Longrightarrow> loop_reach body env s u"
| turn: "loop_reach body env s t \<Longrightarrow> body t = Ret (Continue u) \<Longrightarrow> loop_reach body env s u"

text \<open>
  What a thread promises about stopping: in a state where it is told to stop, the turn that
  sees that state is the last one.
\<close>

locale stoppable =
  fixes body :: "'s \<Rightarrow> 's loop_turn rust"
    and told_to_stop :: "'s \<Rightarrow> bool"
  assumes stops: "told_to_stop s \<Longrightarrow> body s \<noteq> Ret (Continue s')"
begin

lemma run_stops:
  "(\<And>s. told_to_stop (env (n + k) s)) \<Longrightarrow> (\<And>i s. i \<le> n + k \<Longrightarrow> body (env i s) \<noteq> Diverge) \<Longrightarrow>
     \<exists>r. run_loop body env n s = Some r \<and> r \<noteq> Diverge"
proof (induction k arbitrary: n s)
  case 0
  then have "told_to_stop (env n s)" "body (env n s) \<noteq> Diverge" by simp_all
  then show ?case
    using stops [of "env n s"]
    by (subst run_loop.simps) (auto split: rust.split loop_turn.split)
next
  case (Suc k)
  have "\<exists>r. run_loop body env (Suc n) s' = Some r \<and> r \<noteq> Diverge" for s'
    by (rule Suc.IH) (use Suc.prems in simp_all)
  moreover have "body (env n s) \<noteq> Diverge" using Suc.prems(2) by simp
  ultimately show ?case
    by (subst run_loop.simps) (auto split: rust.split loop_turn.split)
qed

text \<open>
  The thread returns or panics, if none of its turns up to the one that sees it is told to stop
  waits for ever.
\<close>

lemma spin_stops:
  assumes "\<And>s. told_to_stop (env k s)" "\<And>n s. n \<le> k \<Longrightarrow> body (env n s) \<noteq> Diverge"
  shows "spin_loop body env s \<noteq> Diverge"
proof -
  have "\<exists>r. run_loop body env 0 s = Some r \<and> r \<noteq> Diverge"
    by (rule run_stops [of env 0 k]) (simp_all add: assms)
  then show ?thesis by (auto simp: spin_loop_def)
qed

end

text \<open>
  A quantity the turns of a thread only ever increase, whatever the environment does to the
  shared parts of the state.
\<close>

locale monotone_loop =
  fixes body :: "'s \<Rightarrow> 's loop_turn rust"
    and env :: "'s \<Rightarrow> 's \<Rightarrow> bool"
    and quantity :: "'s \<Rightarrow> 'q::preorder"
  assumes turn_mono: "body s = Ret (Continue s') \<Longrightarrow> quantity s \<le> quantity s'"
    and env_mono: "env s s' \<Longrightarrow> quantity s \<le> quantity s'"
begin

lemma reach_mono: "loop_reach body env s t \<Longrightarrow> quantity s \<le> quantity t"
  by (induction rule: loop_reach.induct) (blast intro: order_trans turn_mono env_mono)+

end

end
