(* ===== verification/ServerMessages.thy ===== *)
theory ServerMessages
  imports EventLoop
begin

text \<open>
  The messages of the server's in-process queues (\<^verbatim>\<open>src/server/mod.rs\<close>): what the servicer
  threads tell the application thread.
\<close>

datatype servicer_payload =
    PayloadChat string
  | PayloadControllerSequence controller_sequence
  | PayloadClientData client_data

record servicer_message =
  sm_from :: username
  sm_payload :: servicer_payload

end
