(* ===== verification/ServerLowLatency.thy ===== *)
theory ServerLowLatency
  imports ServerMessages
begin

text \<open>
  \<^verbatim>\<open>src/server/low_latency.rs\<close>: the one UDP servicer of the server. What it takes from crates
  outside the repository is the record \<open>sll_ext\<close>: the \<open>spmc\<close> receiver, the \<open>bidir_map\<close>
  operations on the address book \<open>'m\<close>, and \<open>bincode\<close>.
\<close>

record ll_to_client =
  ll_to :: username
  ll_payload :: ll_server_message

datatype sll_app_message =
    ToClient ll_to_client
  | NewClient client_data
  | ClientDisconnect username

record ('r, 'm, 'be) sll_ext =
  ext_try_recv :: "('r, sll_app_message) recv_fun"
  bm_new :: 'm
  bm_insert :: "'m \<Rightarrow> socket_addr \<Rightarrow> username \<Rightarrow> 'm"
  bm_remove_by_second :: "'m \<Rightarrow> username \<Rightarrow> 'm"
  bm_get_by_first :: "'m \<Rightarrow> socket_addr \<Rightarrow> username option"
  bm_get_by_second :: "'m \<Rightarrow> username \<Rightarrow> socket_addr option"
  ext_serialize :: "ll_server_message \<Rightarrow> 'be + byte list"
  ext_deserialize :: "byte list \<Rightarrow> 'be + ll_client_message"

record ('r, 'm) sll_servicer =
  sll_socket :: udp_socket
  sll_to_application :: "servicer_message mpsc"
  sll_from_application :: 'r
  address_user :: 'm
  last_tick_received :: usize
  sll_shutting_down :: bool

definition sll_new ::
  "('r, 'm, 'be) sll_ext \<Rightarrow> udp_socket \<Rightarrow> servicer_message mpsc \<Rightarrow> 'r \<Rightarrow> ('r, 'm) sll_servicer" where
  "sll_new ext sock to_app from_app =
     \<lparr>sll_socket = sock, sll_to_application = to_app, sll_from_application = from_app,
      address_user = bm_new ext, last_tick_received = 0, sll_shutting_down = False\<rparr>"

definition WORLD_STATE :: nat where "WORLD_STATE = 0"
definition LAST_TICK :: nat where "LAST_TICK = 1"

fun parse_message ::
  "('r, 'm, 'be) sll_ext \<Rightarrow> sll_app_message \<Rightarrow> ll_to_client option list \<times> 'm \<Rightarrow>
     ll_to_client option list \<times> 'm" where
  "parse_message ext (ToClient to_client) (outgoing, book) =
     (case ll_payload to_client of
        WorldState _ \<Rightarrow> (outgoing[WORLD_STATE := Some to_client], book)
      | LastTickReceived _ \<Rightarrow> (outgoing[LAST_TICK := Some to_client], book))"
| "parse_message ext (NewClient cd) (outgoing, book) =
     (outgoing, bm_insert ext book (udp_addr cd) (cd_username cd))"
| "parse_message ext (ClientDisconnect user) (outgoing, book) =
     (outgoing, bm_remove_by_second ext book user)"

definition sll_parse_application_messages ::
  "('r, 'm, 'be) sll_ext \<Rightarrow> sll_app_message list \<Rightarrow> 'm \<Rightarrow> ll_to_client option list \<times> 'm" where
  "sll_parse_application_messages ext msg_vec book =
     fold (parse_message ext) msg_vec ([None, None], book)"

definition sll_send_message ::
  "('r, 'm, 'be) sll_ext \<Rightarrow> 'm \<Rightarrow> udp_socket \<Rightarrow> ll_to_client \<Rightarrow> udp_socket \<times> ('be comm_error + unit)" where
  "sll_send_message ext book sock msg =
     (case bm_get_by_second ext book (ll_to msg) of
        Some address \<Rightarrow>
          (case map_err (\<lambda>err. Warning (FailedToSerialize err)) (ext_serialize ext (ll_payload msg)) of
             Inl e \<Rightarrow> (sock, Inl e)
           | Inr encode \<Rightarrow>
               (case udp_send_to sock encode address of
                  (sock', res) \<Rightarrow> (sock', map_err (\<lambda>err. Warning (IoWarning err)) res)))
      | None \<Rightarrow> (sock, Inr ()))"

fun sll_send_outgoing ::
  "('r, 'm, 'be) sll_ext \<Rightarrow> 'm \<Rightarrow> udp_socket \<Rightarrow> ll_to_client option list \<Rightarrow>
     udp_socket \<times> ('be comm_error + unit)" where
  "sll_send_outgoing ext book sock [] = (sock, Inr ())"
| "sll_send_outgoing ext book sock (None # rest) = sll_send_outgoing ext book sock rest"
| "sll_send_outgoing ext book sock (Some msg # rest) =
     (case sll_send_message ext book sock msg of
        (sock', Inl e) \<Rightarrow> (sock', Inl e)
      | (sock', Inr _) \<Rightarrow> sll_send_outgoing ext book sock' rest)"

definition sll_forward_from_server_to_client ::
  "('r, 'm, 'be) sll_ext \<Rightarrow> ('r, 'm) sll_servicer \<Rightarrow>
     (('r, 'm) sll_servicer \<times> ('be comm_error + unit)) rust" where
  "sll_forward_from_server_to_client ext s =
     rbind (drain_spmc_receiver (ext_try_recv ext) (sll_from_application s)) (\<lambda>(r', res).
       let s1 = s\<lparr>sll_from_application := r'\<rparr> in
       case res of
         Inl d \<Rightarrow> Ret (s1, Inl Exit)
       | Inr msg_vec \<Rightarrow>
           (let (to_client, book) = sll_parse_application_messages ext msg_vec (address_user s1);
                s2 = s1\<lparr>address_user := book\<rparr>;
                (sock', out) = sll_send_outgoing ext book (sll_socket s2) to_client
            in Ret (s2\<lparr>sll_socket := sock'\<rparr>, out)))"

definition sll_handle_controller_input ::
  "('r, 'm, 'be) sll_ext \<Rightarrow> ('r, 'm) sll_servicer \<Rightarrow> socket_addr \<Rightarrow>
     compressed_controller_sequence \<Rightarrow> (('r, 'm) sll_servicer \<times> ('be comm_error + unit)) rust" where
  "sll_handle_controller_input ext s src input =
     (case ok_or (bm_get_by_first ext (address_user s) src) (Warning (UnknownSource src)) of
        Inl e \<Rightarrow> Ret (s, Inl e)
      | Inr user \<Rightarrow>
          rbind (to_controller_sequence input) (\<lambda>opt.
          case ok_or opt (Warning FailedToDecompress) of
            Inl e \<Rightarrow> Ret (s, Inl e)
          | Inr controller_seq \<Rightarrow>
              rtry
                (rbind (last_tick controller_seq) (\<lambda>lt.
                   if lt > last_tick_received s then
                     (let s1 = s\<lparr>last_tick_received := lt\<rparr>;
                          (ch, res) = mpsc_send (sll_to_application s1)
                            \<lparr>sm_from = user, sm_payload = PayloadControllerSequence controller_seq\<rparr>
                      in Ret (s1\<lparr>sll_to_application := ch\<rparr>, map_err (\<lambda>_. Exit) res))
                   else Ret (s, Inr ())))
                (\<lambda>s2 _.
                   let ack_msg = \<lparr>ll_to = user, ll_payload = LastTickReceived (last_tick_received s2)\<rparr>;
                       (sock', res) = sll_send_message ext (address_user s2) (sll_socket s2) ack_msg
                   in Ret (s2\<lparr>sll_socket := sock'\<rparr>, res))))"

definition sll_process_udp ::
  "('r, 'm, 'be) sll_ext \<Rightarrow> ('r, 'm) sll_servicer \<Rightarrow> socket_addr \<Rightarrow> byte list \<Rightarrow>
     (('r, 'm) sll_servicer \<times> ('be comm_error + unit)) rust" where
  "sll_process_udp ext s src buf =
     (case map_err (\<lambda>err. Warning (FailedToDeserialize err)) (ext_deserialize ext buf) of
        Inl e \<Rightarrow> Ret (s, Inl e)
      | Inr (ControllerInput input) \<Rightarrow> sll_handle_controller_input ext s src input)"

definition sll_forward_from_client_to_server ::
  "('r, 'm, 'be) sll_ext \<Rightarrow> ('r, 'm) sll_servicer \<Rightarrow>
     (('r, 'm) sll_servicer \<times> ('be comm_error + unit)) rust" where
  "sll_forward_from_client_to_server ext s =
     (case maybe_receive_from_udp (sll_socket s) of
        (sock', Inr (Some (buf, src))) \<Rightarrow> sll_process_udp ext (s\<lparr>sll_socket := sock'\<rparr>) src buf
      | (sock', Inr None) \<Rightarrow> Ret (s\<lparr>sll_socket := sock'\<rparr>, Inr ())
      | (sock', Inl err) \<Rightarrow> Ret (s\<lparr>sll_socket := sock'\<rparr>, Inl err))"

definition sll_spin_once ::
  "('r, 'm, 'be) sll_ext \<Rightarrow> ('r, 'm) sll_servicer \<Rightarrow>
     (('r, 'm) sll_servicer \<times> ('be comm_error + unit)) rust" where
  "sll_spin_once ext s =
     rtry (sll_forward_from_server_to_client ext s) (\<lambda>s1 _.
     rtry (sll_forward_from_client_to_server ext s1) (\<lambda>s2 _.
     Ret (s2, Inr ())))"

definition sll_spin_turn ::
  "('r, 'm, 'be) sll_ext \<Rightarrow> ('r, 'm) sll_servicer \<Rightarrow> ('r, 'm) sll_servicer loop_turn rust" where
  "sll_spin_turn ext s =
     rbind (sll_spin_once ext s) (\<lambda>(s', res).
       case res of
         Inr _ \<Rightarrow> Ret (Continue s')
       | Inl (Drop d) \<Rightarrow> Ret (Continue s')
       | Inl (Warning warn) \<Rightarrow> Ret (Continue s')
       | Inl Exit \<Rightarrow> Ret (Break s'))"

definition sll_spin ::
  "('r, 'm, 'be) sll_ext \<Rightarrow> (nat \<Rightarrow> ('r, 'm) sll_servicer \<Rightarrow> ('r, 'm) sll_servicer) \<Rightarrow>
     ('r, 'm) sll_servicer \<Rightarrow> ('r, 'm) sll_servicer rust" where
  "sll_spin ext env s =
     (case udp_set_nonblocking (sll_socket s) of
        Inl err \<Rightarrow> Ret s
      | Inr _ \<Rightarrow> spin_loop (sll_spin_turn ext) env s)"

subsection \<open>The address book\<close>

text \<open>
  What the servicer relies on of the bidirectional map. Both directions agree; inserting a pair
  adds it and removes the pairs that share its address or its user; removing a user removes that
  user's pair; all other pairs are kept.
\<close>

definition bidir_laws :: "('r, 'm, 'be) sll_ext \<Rightarrow> ('m \<Rightarrow> bool) \<Rightarrow> bool" where
  "bidir_laws ext ok \<longleftrightarrow>
     ok (bm_new ext) \<and> (\<forall>a. bm_get_by_first ext (bm_new ext) a = None) \<and>
     (\<forall>m a u. ok m \<longrightarrow>
        (bm_get_by_first ext m a = Some u \<longleftrightarrow> bm_get_by_second ext m u = Some a)) \<and>
     (\<forall>m a u. ok m \<longrightarrow> ok (bm_insert ext m a u) \<and>
        bm_get_by_first ext (bm_insert ext m a u) =
          (\<lambda>x. if x = a then Some u
               else if bm_get_by_first ext m x = Some u then None else bm_get_by_first ext m x)) \<and>
     (\<forall>m u. ok m \<longrightarrow> ok (bm_remove_by_second ext m u) \<and>
        bm_get_by_first ext (bm_remove_by_second ext m u) =
          (\<lambda>a. if bm_get_by_first ext m a = Some u then None else bm_get_by_first ext m a))"

text \<open>A list of pairs is one implementation: it shows that the laws can hold together.\<close>

definition pairs_ext ::
  "(ll_server_message \<Rightarrow> 'be + byte list) \<Rightarrow> (byte list \<Rightarrow> 'be + ll_client_message) \<Rightarrow>
     (sll_app_message mpsc, (socket_addr \<times> username) list, 'be) sll_ext" where
  "pairs_ext ser des =
     \<lparr>ext_try_recv = mpsc_try_recv, bm_new = [],
      bm_insert = (\<lambda>m a u. (a, u) # filter (\<lambda>p. fst p \<noteq> a \<and> snd p \<noteq> u) m),
      bm_remove_by_second = (\<lambda>m u. filter (\<lambda>p. snd p \<noteq> u) m),
      bm_get_by_first = (\<lambda>m a. map_of m a),
      bm_get_by_second = (\<lambda>m u. map_of (map prod.swap m) u),
      ext_serialize = ser, ext_deserialize = des\<rparr>"

definition pairs_ok :: "(socket_addr \<times> username) list \<Rightarrow> bool" where
  "pairs_ok m \<longleftrightarrow> distinct (map fst m) \<and> distinct (map snd m)"

lemma pairs_snd_map: "map fst (map prod.swap m) = map snd m"
  by (induction m) auto

lemma pairs_lookup:
  assumes "pairs_ok m"
  shows "map_of m a = Some u \<longleftrightarrow> map_of (map prod.swap m) u = Some a"
proof -
  have "distinct (map fst (map prod.swap m))"
    using assms unfolding pairs_snd_map by (simp add: pairs_ok_def)
  then have "map_of (map prod.swap m) u = Some a \<longleftrightarrow> (u, a) \<in> set (map prod.swap m)"
    by (simp only: map_of_eq_Some_iff)
  also have "\<dots> \<longleftrightarrow> (a, u) \<in> set m" by force
  also have "\<dots> \<longleftrightarrow> map_of m a = Some u" using assms by (simp add: pairs_ok_def)
  finally show ?thesis by simp
qed

lemma pairs_ok_filter: "pairs_ok m \<Longrightarrow> pairs_ok (filter P m)"
  by (auto simp: pairs_ok_def distinct_map inj_on_def)

lemma pairs_filter:
  assumes "pairs_ok m"
  shows "map_of (filter (\<lambda>p. snd p \<noteq> u) m) a = (if map_of m a = Some u then None else map_of m a)"
proof -
  let ?f = "filter (\<lambda>p. snd p \<noteq> u) m"
  have key: "map_of ?f a = Some v \<longleftrightarrow> map_of m a = Some v \<and> v \<noteq> u" for v
  proof -
    have "distinct (map fst ?f)"
      using pairs_ok_filter [OF assms] unfolding pairs_ok_def by blast
    then have "map_of ?f a = Some v \<longleftrightarrow> (a, v) \<in> set ?f" by (rule map_of_eq_Some_iff)
    also have "\<dots> \<longleftrightarrow> (a, v) \<in> set m \<and> v \<noteq> u" by simp
    also have "\<dots> \<longleftrightarrow> map_of m a = Some v \<and> v \<noteq> u"
      using assms by (simp add: pairs_ok_def)
    finally show ?thesis .
  qed
  show ?thesis
  proof (cases "map_of ?f a")
    case None
    with key show ?thesis by (cases "map_of m a") auto
  next
    case (Some v)
    with key [of v] show ?thesis by simp
  qed
qed

lemma pairs_insert:
  assumes "pairs_ok m"
  shows "pairs_ok ((a, u) # filter (\<lambda>p. fst p \<noteq> a \<and> snd p \<noteq> u) m) \<and>
    (x \<noteq> a \<longrightarrow> map_of (filter (\<lambda>p. fst p \<noteq> a \<and> snd p \<noteq> u) m) x =
       (if map_of m x = Some u then None else map_of m x))"
proof
  have "pairs_ok (filter (\<lambda>p. fst p \<noteq> a \<and> snd p \<noteq> u) m)" using assms by (rule pairs_ok_filter)
  then show "pairs_ok ((a, u) # filter (\<lambda>p. fst p \<noteq> a \<and> snd p \<noteq> u) m)"
    by (auto simp: pairs_ok_def)
  have "x \<noteq> a \<Longrightarrow> map_of (filter (\<lambda>p. fst p \<noteq> a \<and> snd p \<noteq> u) m) x = map_of (filter (\<lambda>p. snd p \<noteq> u) m) x"
    by (induction m) auto
  with pairs_filter [OF assms] show "x \<noteq> a \<longrightarrow> map_of (filter (\<lambda>p. fst p \<noteq> a \<and> snd p \<noteq> u) m) x =
       (if map_of m x = Some u then None else map_of m x)" by simp
qed

lemma bidir_laws_pairs: "bidir_laws (pairs_ext ser des) pairs_ok"
  unfolding bidir_laws_def pairs_ext_def sll_ext.simps
  using pairs_insert pairs_lookup pairs_filter pairs_ok_filter
  by (auto simp: pairs_ok_def fun_eq_iff simp del: map_map)

subsection \<open>The message parser\<close>

definition is_world_state :: "sll_app_message \<Rightarrow> bool" where
  "is_world_state m = (case m of ToClient c \<Rightarrow> (case ll_payload c of WorldState _ \<Rightarrow> True | _ \<Rightarrow> False) | _ \<Rightarrow> False)"

definition is_last_tick :: "sll_app_message \<Rightarrow> bool" where
  "is_last_tick m = (case m of ToClient c \<Rightarrow> (case ll_payload c of LastTickReceived _ \<Rightarrow> True | _ \<Rightarrow> False) | _ \<Rightarrow> False)"

fun to_client_of :: "sll_app_message \<Rightarrow> ll_to_client option" where
  "to_client_of (ToClient c) = Some c"
| "to_client_of _ = None"

text \<open>The last message of a list that satisfies a test, as a slot of the outgoing array.\<close>

definition last_such :: "(sll_app_message \<Rightarrow> bool) \<Rightarrow> sll_app_message list \<Rightarrow> ll_to_client option" where
  "last_such P ms = (if filter P ms = [] then None else to_client_of (last (filter P ms)))"

text \<open>The updates of the address book, one message at a time.\<close>

fun book_step :: "('r, 'm, 'be) sll_ext \<Rightarrow> sll_app_message \<Rightarrow> 'm \<Rightarrow> 'm" where
  "book_step ext (ToClient c) book = book"
| "book_step ext (NewClient cd) book = bm_insert ext book (udp_addr cd) (cd_username cd)"
| "book_step ext (ClientDisconnect user) book = bm_remove_by_second ext book user"

lemma last_such_snoc:
  "last_such P (ms @ [m]) = (if P m then to_client_of m else last_such P ms)"
  by (simp add: last_such_def)

lemma parse_message_snoc:
  "parse_message ext m ([a, b], book) =
    ([if is_world_state m then to_client_of m else a, if is_last_tick m then to_client_of m else b],
     book_step ext m book)"
  by (cases m) (auto simp: is_world_state_def is_last_tick_def WORLD_STATE_def LAST_TICK_def
      split: ll_server_message.split)

lemma parse_spec:
  "sll_parse_application_messages ext ms book =
     ([last_such is_world_state ms, last_such is_last_tick ms], fold (book_step ext) ms book)"
proof (induction ms rule: rev_induct)
  case Nil
  then show ?case by (simp add: sll_parse_application_messages_def last_such_def)
next
  case (snoc m ms)
  then show ?case
    by (simp add: sll_parse_application_messages_def parse_message_snoc last_such_snoc)
qed

text \<open>The same updates on a map from addresses to users: one user has one address.\<close>

fun users_step :: "sll_app_message \<Rightarrow> (socket_addr \<rightharpoonup> username) \<Rightarrow> (socket_addr \<rightharpoonup> username)" where
  "users_step (ToClient c) users = users"
| "users_step (NewClient cd) users =
     (\<lambda>a. if a = udp_addr cd then Some (cd_username cd)
          else if users a = Some (cd_username cd) then None else users a)"
| "users_step (ClientDisconnect user) users = (\<lambda>a. if users a = Some user then None else users a)"

lemma bidir_agree:
  "bidir_laws ext ok \<Longrightarrow> ok m \<Longrightarrow> bm_get_by_first ext m a = Some u \<longleftrightarrow> bm_get_by_second ext m u = Some a"
  by (simp add: bidir_laws_def)

lemma book_step_users:
  "bidir_laws ext ok \<Longrightarrow> ok m \<Longrightarrow> ok (book_step ext msg m) \<and>
     bm_get_by_first ext (book_step ext msg m) = users_step msg (bm_get_by_first ext m)"
  by (cases msg) (simp_all add: bidir_laws_def)

lemma book_steps:
  assumes "bidir_laws ext ok"
  shows "ok m \<Longrightarrow> ok (fold (book_step ext) ms m) \<and>
    bm_get_by_first ext (fold (book_step ext) ms m) = fold users_step ms (bm_get_by_first ext m)"
  by (induction ms arbitrary: m) (simp_all add: book_step_users [OF assms])

subsection \<open>Sending\<close>

lemma sll_send_message_frame:
  "sll_send_message ext book sock msg = (sock', r) \<Longrightarrow>
     udp_in sock' = udp_in sock \<and> udp_set_nonblocking sock' = udp_set_nonblocking sock"
  by (auto simp: sll_send_message_def udp_send_to_def split: option.splits sum.splits list.splits)

text \<open>What is sent goes to the address the book has for the user it is meant for.\<close>

lemma sll_send_message_out:
  "sll_send_message ext book sock msg = (sock', r) \<Longrightarrow>
     udp_out sock' = udp_out sock \<or>
     (\<exists>a bs. bm_get_by_second ext book (ll_to msg) = Some a \<and>
       ext_serialize ext (ll_payload msg) = Inr bs \<and> udp_out sock' = udp_out sock @ [(bs, a)])"
  by (auto simp: sll_send_message_def udp_send_to_def split: option.splits sum.splits list.splits)

lemma sll_send_message_never_Exit:
  "sll_send_message ext book sock msg = (sock', Inl e) \<Longrightarrow> \<exists>w. e = Warning w"
  by (auto simp: sll_send_message_def udp_send_to_def split: option.splits sum.splits list.splits)

lemma sll_send_outgoing_out:
  "sll_send_outgoing ext book sock msgs = (sock', r) \<Longrightarrow>
     \<exists>sent. udp_out sock' = udp_out sock @ sent \<and>
       (\<forall>(bs, a) \<in> set sent. \<exists>msg. Some msg \<in> set msgs \<and>
          bm_get_by_second ext book (ll_to msg) = Some a \<and> ext_serialize ext (ll_payload msg) = Inr bs)"
proof (induction msgs arbitrary: sock)
  case Nil
  then show ?case by simp
next
  case (Cons m rest)
  show ?case
  proof (cases m)
    case None
    with Cons.prems have "sll_send_outgoing ext book sock rest = (sock', r)" by simp
    from Cons.IH [OF this] show ?thesis by fastforce
  next
    case (Some msg)
    obtain sock1 r1 where send: "sll_send_message ext book sock msg = (sock1, r1)" by fastforce
    obtain sent1 where sent1: "udp_out sock1 = udp_out sock @ sent1"
      "\<forall>(bs, a) \<in> set sent1. bm_get_by_second ext book (ll_to msg) = Some a \<and>
          ext_serialize ext (ll_payload msg) = Inr bs"
      using sll_send_message_out [OF send] by fastforce
    show ?thesis
    proof (cases r1)
      case (Inl e)
      with Cons.prems send Some have "sock' = sock1" by simp
      with sent1 Some show ?thesis by (intro exI [of _ sent1]) auto
    next
      case (Inr x)
      with Cons.prems send Some have "sll_send_outgoing ext book sock1 rest = (sock', r)" by simp
      from Cons.IH [OF this] obtain sent where "udp_out sock' = udp_out sock1 @ sent"
        "\<forall>(bs, a) \<in> set sent. \<exists>msg. Some msg \<in> set rest \<and>
          bm_get_by_second ext book (ll_to msg) = Some a \<and> ext_serialize ext (ll_payload msg) = Inr bs"
        by blast
      with sent1 Some show ?thesis by (intro exI [of _ "sent1 @ sent"]) fastforce
    qed
  qed
qed

subsection \<open>Frames\<close>

lemma sll_send_outgoing_frame:
  "sll_send_outgoing ext book sock msgs = (sock', r) \<Longrightarrow>
     udp_in sock' = udp_in sock \<and> udp_set_nonblocking sock' = udp_set_nonblocking sock"
proof (induction ext book sock msgs rule: sll_send_outgoing.induct)
  case (3 ext book sock msg rest)
  obtain sock1 r1 where send: "sll_send_message ext book sock msg = (sock1, r1)" by fastforce
  from 3 send sll_send_message_frame [OF send] show ?case by (cases r1) auto
qed simp_all

lemma sll_forward_out_cases:
  assumes "sll_forward_from_server_to_client ext s = Ret (s', r)"
  obtains (hung_up) r' d where
      "drain_spmc_receiver (ext_try_recv ext) (sll_from_application s) = Ret (r', Inl d)"
      "s' = s\<lparr>sll_from_application := r'\<rparr>" "r = Inl Exit"
  | (drained) r' ms slots book sock' where
      "drain_spmc_receiver (ext_try_recv ext) (sll_from_application s) = Ret (r', Inr ms)"
      "sll_parse_application_messages ext ms (address_user s) = (slots, book)"
      "sll_send_outgoing ext book (sll_socket s) slots = (sock', r)"
      "s' = s\<lparr>sll_from_application := r', address_user := book, sll_socket := sock'\<rparr>"
proof -
  from assms obtain r' res where
    drain: "drain_spmc_receiver (ext_try_recv ext) (sll_from_application s) = Ret (r', res)"
    by (auto simp: sll_forward_from_server_to_client_def rbind_Ret_iff)
  show thesis
  proof (cases res)
    case (Inl d)
    with assms drain show thesis
      by (intro hung_up) (auto simp add: sll_forward_from_server_to_client_def)
  next
    case (Inr ms)
    obtain slots book where p: "sll_parse_application_messages ext ms (address_user s) = (slots, book)"
      by fastforce
    obtain sock' out where o: "sll_send_outgoing ext book (sll_socket s) slots = (sock', out)"
      by fastforce
    from assms drain Inr p o show thesis
      by (intro drained) (auto simp add: sll_forward_from_server_to_client_def)
  qed
qed

lemma sll_forward_out_frame:
  "sll_forward_from_server_to_client ext s = Ret (s', r) \<Longrightarrow>
     last_tick_received s' = last_tick_received s \<and> sll_to_application s' = sll_to_application s"
  by (elim sll_forward_out_cases) auto

text \<open>All that handling an input can do, in one equation per kind of input.\<close>

lemma handle_unknown:
  "bm_get_by_first ext (address_user s) src = None \<Longrightarrow>
     sll_handle_controller_input ext s src input = Ret (s, Inl (Warning (UnknownSource src)))"
  by (simp add: sll_handle_controller_input_def)

lemma handle_undecodable:
  "bm_get_by_first ext (address_user s) src = Some user \<Longrightarrow>
   to_controller_sequence input = Ret None \<Longrightarrow>
     sll_handle_controller_input ext s src input = Ret (s, Inl (Warning FailedToDecompress))"
  by (simp add: sll_handle_controller_input_def)

definition sll_ack ::
  "('r, 'm, 'be) sll_ext \<Rightarrow> ('r, 'm) sll_servicer \<Rightarrow> username \<Rightarrow> udp_socket \<times> ('be comm_error + unit)" where
  "sll_ack ext s user =
     sll_send_message ext (address_user s) (sll_socket s)
       \<lparr>ll_to = user, ll_payload = LastTickReceived (last_tick_received s)\<rparr>"

lemma handle_stale:
  assumes "bm_get_by_first ext (address_user s) src = Some user"
    and "to_controller_sequence input = Ret (Some cs)" "last_tick cs = Ret lt"
    and "\<not> last_tick_received s < lt"
  shows "sll_handle_controller_input ext s src input =
    Ret (s\<lparr>sll_socket := fst (sll_ack ext s user)\<rparr>, snd (sll_ack ext s user))"
  using assms by (simp add: sll_handle_controller_input_def sll_ack_def Let_def case_prod_beta)

lemma handle_fresh:
  assumes "bm_get_by_first ext (address_user s) src = Some user"
    and "to_controller_sequence input = Ret (Some cs)" "last_tick cs = Ret lt"
    and "last_tick_received s < lt" "receiver_end (sll_to_application s)"
  defines "s1 \<equiv> s\<lparr>last_tick_received := lt, sll_to_application := (sll_to_application s)
      \<lparr>queue := queue (sll_to_application s) @
        [\<lparr>sm_from = user, sm_payload = PayloadControllerSequence cs\<rparr>]\<rparr>\<rparr>"
  shows "sll_handle_controller_input ext s src input =
    Ret (s1\<lparr>sll_socket := fst (sll_ack ext s1 user)\<rparr>, snd (sll_ack ext s1 user))"
  using assms
  by (simp add: sll_handle_controller_input_def sll_ack_def Let_def case_prod_beta mpsc_send_def)

lemma handle_app_gone:
  assumes "bm_get_by_first ext (address_user s) src = Some user"
    and "to_controller_sequence input = Ret (Some cs)" "last_tick cs = Ret lt"
    and "last_tick_received s < lt" "\<not> receiver_end (sll_to_application s)"
  shows "sll_handle_controller_input ext s src input =
    Ret (s\<lparr>last_tick_received := lt\<rparr>, Inl Exit)"
  using assms
  by (simp add: sll_handle_controller_input_def Let_def case_prod_beta mpsc_send_def)

lemma handle_Ret_cases:
  assumes "sll_handle_controller_input ext s src input = Ret (s', r)"
  obtains (unknown) "s' = s" "bm_get_by_first ext (address_user s) src = None"
  | (undecodable) user where "bm_get_by_first ext (address_user s) src = Some user" "s' = s"
      "to_controller_sequence input = Ret None"
  | (decoded) user cs lt where "bm_get_by_first ext (address_user s) src = Some user"
      "to_controller_sequence input = Ret (Some cs)" "last_tick cs = Ret lt"
proof (cases "bm_get_by_first ext (address_user s) src")
  case None
  with assms have "s' = s" by (simp add: handle_unknown)
  from unknown [OF this None] show thesis .
next
  case (Some user)
  note user = this
  show thesis
  proof (cases "to_controller_sequence input")
    case (Ret opt)
    show thesis
    proof (cases opt)
      case None
      with Ret have ret: "to_controller_sequence input = Ret None" by simp
      with assms user have "s' = s" by (simp add: handle_undecodable)
      from undecodable [OF user this ret] show thesis .
    next
      case (Some cs)
      with Ret have ret: "to_controller_sequence input = Ret (Some cs)" by simp
      show thesis
      proof (cases "last_tick cs")
        case (Ret lt)
        with user ret show thesis by (rule decoded)
      qed (use assms user ret in \<open>simp_all add: sll_handle_controller_input_def\<close>)
    qed
  qed (use assms user in \<open>simp_all add: sll_handle_controller_input_def\<close>)
qed

text \<open>What an input can put on the queue to the application, and when.\<close>

definition forwards ::
  "('r, 'm, 'be) sll_ext \<Rightarrow> 'm \<Rightarrow> usize \<Rightarrow> socket_addr \<Rightarrow> compressed_controller_sequence \<Rightarrow>
     usize \<Rightarrow> servicer_message \<Rightarrow> bool" where
  "forwards ext book before src input lt m \<longleftrightarrow>
     bm_get_by_first ext book src = Some (sm_from m) \<and>
     (\<exists>cs. to_controller_sequence input = Ret (Some cs) \<and>
        sm_payload m = PayloadControllerSequence cs \<and> last_tick cs = Ret lt) \<and> before < lt"

lemma handle_queue:
  assumes "sll_handle_controller_input ext s src input = Ret (s', r)"
  shows "last_tick_received s \<le> last_tick_received s' \<and> address_user s' = address_user s \<and>
    (queue (sll_to_application s') = queue (sll_to_application s) \<or>
     (\<exists>m. forwards ext (address_user s') (last_tick_received s) src input (last_tick_received s') m \<and>
        queue (sll_to_application s') = queue (sll_to_application s) @ [m]))"
  using assms
proof (cases rule: handle_Ret_cases)
  case (decoded user cs lt)
  show ?thesis
  proof (cases "last_tick_received s < lt")
    case fresh: True
    show ?thesis
    proof (cases "receiver_end (sll_to_application s)")
      case True
      with assms decoded fresh handle_fresh [OF decoded fresh] show ?thesis
        by (auto simp: forwards_def)
    next
      case False
      with assms decoded fresh show ?thesis by (auto simp: handle_app_gone)
    qed
  next
    case False
    with assms decoded show ?thesis by (auto simp: handle_stale)
  qed
qed simp_all

lemma handle_frame:
  assumes "sll_handle_controller_input ext s src input = Ret (s', r)"
  shows "sll_from_application s' = sll_from_application s \<and> udp_in (sll_socket s') = udp_in (sll_socket s)"
  using assms
proof (cases rule: handle_Ret_cases)
  case (decoded user cs lt)
  have acked: "udp_in (fst (sll_ack ext s1 u)) = udp_in (sll_socket s1)"
    for s1 :: "('a, 'b) sll_servicer" and u
    unfolding sll_ack_def by (metis prod.collapse sll_send_message_frame)
  show ?thesis
    using assms decoded handle_stale [OF decoded] handle_fresh [OF decoded] handle_app_gone [OF decoded]
    by (cases "last_tick_received s < lt"; cases "receiver_end (sll_to_application s)") (auto simp: acked)
qed simp_all

lemma process_udp_queue:
  assumes "sll_process_udp ext s src buf = Ret (s', r)"
  shows "last_tick_received s \<le> last_tick_received s' \<and> address_user s' = address_user s \<and>
    (queue (sll_to_application s') = queue (sll_to_application s) \<or>
     (\<exists>input m. ext_deserialize ext buf = Inr (ControllerInput input) \<and>
        forwards ext (address_user s') (last_tick_received s) src input (last_tick_received s') m \<and>
        queue (sll_to_application s') = queue (sll_to_application s) @ [m]))"
proof (cases "ext_deserialize ext buf")
  case (Inr m)
  obtain input where m: "m = ControllerInput input" by (cases m)
  with Inr assms have "sll_handle_controller_input ext s src input = Ret (s', r)"
    by (simp add: sll_process_udp_def)
  from handle_queue [OF this] Inr m show ?thesis by auto
qed (use assms in \<open>simp add: sll_process_udp_def\<close>)

lemma forward_in_queue:
  assumes "sll_forward_from_client_to_server ext s = Ret (s', r)"
  shows "last_tick_received s \<le> last_tick_received s' \<and> address_user s' = address_user s \<and>
    (queue (sll_to_application s') = queue (sll_to_application s) \<or>
     (\<exists>d src rest input m. udp_in (sll_socket s) = Inr (d, src) # rest \<and>
        ext_deserialize ext (take MAX_PACKET_SIZE d) = Inr (ControllerInput input) \<and>
        forwards ext (address_user s') (last_tick_received s) src input (last_tick_received s') m \<and>
        queue (sll_to_application s') = queue (sll_to_application s) @ [m]))"
proof (cases "udp_in (sll_socket s)")
  case Nil
  with assms show ?thesis
    by (auto simp: sll_forward_from_client_to_server_def maybe_receive_from_udp_eq)
next
  case (Cons x rest)
  show ?thesis
  proof (cases x)
    case (Inl e)
    with assms Cons show ?thesis
      by (auto simp: sll_forward_from_client_to_server_def maybe_receive_from_udp_eq split: if_splits)
  next
    case (Inr p)
    obtain d src where p: "p = (d, src)" by fastforce
    let ?s = "s\<lparr>sll_socket := sll_socket s\<lparr>udp_in := rest\<rparr>\<rparr>"
    have "sll_process_udp ext ?s src (take MAX_PACKET_SIZE d) = Ret (s', r)"
      using assms Cons Inr p
      by (simp add: sll_forward_from_client_to_server_def maybe_receive_from_udp_eq)
    from process_udp_queue [OF this] show ?thesis using Cons Inr p by auto
  qed
qed

lemma sll_spin_once_cases:
  assumes "sll_spin_once ext s = Ret (s', r)"
  obtains (out_failed) e where "sll_forward_from_server_to_client ext s = Ret (s', Inl e)" "r = Inl e"
  | (both) s1 where "sll_forward_from_server_to_client ext s = Ret (s1, Inr ())"
      "sll_forward_from_client_to_server ext s1 = Ret (s', r)"
  using assms unfolding sll_spin_once_def rtry_Ret_iff by fastforce

lemma sll_spin_once_queue:
  assumes "sll_spin_once ext s = Ret (s', r)"
  shows "queue (sll_to_application s') = queue (sll_to_application s) \<or>
    (\<exists>d src rest input m. udp_in (sll_socket s) = Inr (d, src) # rest \<and>
       ext_deserialize ext (take MAX_PACKET_SIZE d) = Inr (ControllerInput input) \<and>
       forwards ext (address_user s') (last_tick_received s) src input (last_tick_received s') m \<and>
       queue (sll_to_application s') = queue (sll_to_application s) @ [m])"
  using assms
proof (cases rule: sll_spin_once_cases)
  case (out_failed e)
  then show ?thesis using sll_forward_out_frame [OF out_failed(1)] by simp
next
  case (both s1)
  have "last_tick_received s1 = last_tick_received s \<and> sll_to_application s1 = sll_to_application s"
    using both(1) by (rule sll_forward_out_frame)
  moreover have "udp_in (sll_socket s1) = udp_in (sll_socket s)"
    using both(1) by (elim sll_forward_out_cases) (auto dest: sll_send_outgoing_frame)
  ultimately show ?thesis
    using forward_in_queue [OF both(2)] by auto
qed

text \<open>What a turn does to the queue from the application, the address book and the socket.\<close>

lemma sll_forward_in_frame:
  assumes "sll_forward_from_client_to_server ext s = Ret (s', r)"
  shows "sll_from_application s' = sll_from_application s \<and> address_user s' = address_user s \<and>
    set (udp_in (sll_socket s')) \<subseteq> set (udp_in (sll_socket s))"
proof (cases "udp_in (sll_socket s)")
  case Nil
  with assms show ?thesis
    by (auto simp: sll_forward_from_client_to_server_def maybe_receive_from_udp_eq)
next
  case (Cons x rest)
  show ?thesis
  proof (cases x)
    case (Inl e)
    with assms Cons show ?thesis
      by (auto simp: sll_forward_from_client_to_server_def maybe_receive_from_udp_eq split: if_splits)
  next
    case (Inr p)
    obtain d src where p: "p = (d, src)" by fastforce
    let ?s = "s\<lparr>sll_socket := sll_socket s\<lparr>udp_in := rest\<rparr>\<rparr>"
    have udp: "sll_process_udp ext ?s src (take MAX_PACKET_SIZE d) = Ret (s', r)"
      using assms Cons Inr p
      by (simp add: sll_forward_from_client_to_server_def maybe_receive_from_udp_eq)
    have "sll_from_application s' = sll_from_application ?s \<and> udp_in (sll_socket s') = udp_in (sll_socket ?s)"
    proof (cases "ext_deserialize ext (take MAX_PACKET_SIZE d)")
      case (Inr m)
      obtain input where "m = ControllerInput input" by (cases m)
      with Inr udp have "sll_handle_controller_input ext ?s src input = Ret (s', r)"
        by (simp add: sll_process_udp_def)
      then show ?thesis by (rule handle_frame)
    qed (use udp in \<open>simp add: sll_process_udp_def\<close>)
    with Cons process_udp_queue [OF udp] show ?thesis by auto
  qed
qed

lemma sll_spin_once_frame:
  assumes "sll_spin_once ext s = Ret (s', r)"
  shows "set (udp_in (sll_socket s')) \<subseteq> set (udp_in (sll_socket s)) \<and>
    (\<exists>q res. drain_spmc_receiver (ext_try_recv ext) (sll_from_application s) = Ret (q, res) \<and>
       sll_from_application s' = q \<and>
       address_user s' = (case res of Inl _ \<Rightarrow> address_user s | Inr ms \<Rightarrow> fold (book_step ext) ms (address_user s)))"
proof -
  have out: "udp_in (sll_socket s1) = udp_in (sll_socket s) \<and>
    (\<exists>q res. drain_spmc_receiver (ext_try_recv ext) (sll_from_application s) = Ret (q, res) \<and>
       sll_from_application s1 = q \<and>
       address_user s1 = (case res of Inl _ \<Rightarrow> address_user s | Inr ms \<Rightarrow> fold (book_step ext) ms (address_user s)))"
    if "sll_forward_from_server_to_client ext s = Ret (s1, r1)" for s1 r1
    using that
  proof (cases rule: sll_forward_out_cases)
    case (drained q ms slots book sock)
    then show ?thesis using sll_send_outgoing_frame [OF drained(3)] by (simp add: parse_spec)
  qed simp
  from assms show ?thesis
  proof (cases rule: sll_spin_once_cases)
    case (out_failed e)
    then show ?thesis using out [OF out_failed(1)] by simp
  next
    case (both s1)
    then show ?thesis using out [OF both(1)] sll_forward_in_frame [OF both(2)] by auto
  qed
qed

lemma sll_spin_once_mono:
  assumes "sll_spin_once ext s = Ret (s', r)"
  shows "last_tick_received s \<le> last_tick_received s'"
  using assms
proof (cases rule: sll_spin_once_cases)
  case (out_failed e)
  then show ?thesis using sll_forward_out_frame by fastforce
next
  case (both s1)
  then show ?thesis using sll_forward_out_frame [OF both(1)] forward_in_queue [OF both(2)] by simp
qed

lemma sll_spin_turn_eq:
  "sll_spin_turn ext s =
     rbind (sll_spin_once ext s) (\<lambda>(s', r). Ret (if r = Inl Exit then Break s' else Continue s'))"
  unfolding sll_spin_turn_def
  by (intro rbind_cong [OF refl]) (auto split: sum.split comm_error.split)

lemma sll_spin_turn_Ret:
  "sll_spin_turn ext s = Ret t \<Longrightarrow>
     \<exists>s' r. sll_spin_once ext s = Ret (s', r) \<and> t = (if r = Inl Exit then Break s' else Continue s')"
  unfolding sll_spin_turn_eq rbind_Ret_iff by (fastforce split: prod.splits)

subsection \<open>The thread\<close>

text \<open>
  What other threads and the network do to a servicer between two turns: a datagram or an
  error arrives, the application uses its end of the queue to the servicer, the application
  takes messages from the servicer's queue or drops it.
\<close>

inductive sll_env :: "('r, 'm) sll_servicer \<Rightarrow> ('r, 'm) sll_servicer \<Rightarrow> bool" where
  arrives: "sll_env s (s\<lparr>sll_socket := (sll_socket s)\<lparr>udp_in := udp_in (sll_socket s) @ [x]\<rparr>\<rparr>)"
| app_sends: "sll_env s (s\<lparr>sll_from_application := r\<rparr>)"
| app_takes: "sll_env s (s\<lparr>sll_to_application := ch\<rparr>)"

inductive_cases sll_envE [elim!]: "sll_env s t"

interpretation sll_ticks: monotone_loop "sll_spin_turn ext" sll_env last_tick_received
  for ext :: "('r, 'm, 'be) sll_ext"
proof unfold_locales
  show "last_tick_received s \<le> last_tick_received s'" if "sll_spin_turn ext s = Ret (Continue s')" for s s'
    using sll_spin_turn_Ret [OF that] sll_spin_once_mono by (fastforce split: if_splits)
  show "last_tick_received s \<le> last_tick_received s'" if "sll_env s s'"
    for s s' :: "('r, 'm) sll_servicer"
    using that by auto
qed

text \<open>The application has hung up: its queue is empty and has no sender left.\<close>

definition sll_told_to_stop :: "('r, 'm, 'be) sll_ext \<Rightarrow> ('r, 'm) sll_servicer \<Rightarrow> bool" where
  "sll_told_to_stop ext s \<longleftrightarrow>
     (case ext_try_recv ext (sll_from_application s) of (_, Inl Disconnected) \<Rightarrow> True | _ \<Rightarrow> False)"

lemma told_to_stop_Exit:
  assumes "sll_told_to_stop ext s"
  shows "\<exists>r'. sll_spin_once ext s = Ret (s\<lparr>sll_from_application := r'\<rparr>, Inl Exit)"
proof -
  from assms obtain r' where "ext_try_recv ext (sll_from_application s) = (r', Inl Disconnected)"
    by (auto simp: sll_told_to_stop_def split: prod.splits sum.splits try_recv_error.splits)
  then have "drain_spmc_receiver (ext_try_recv ext) (sll_from_application s) =
      Ret (r', Inl ApplicationThreadDisconnected)"
    by (simp add: drain_spmc_receiver_def drain_receiver.simps)
  then show ?thesis
    by (auto simp: sll_spin_once_def sll_forward_from_server_to_client_def)
qed

interpretation sll_stops: stoppable "sll_spin_turn ext" "sll_told_to_stop ext"
  for ext :: "('r, 'm, 'be) sll_ext"
proof unfold_locales
  show "sll_spin_turn ext s \<noteq> Ret (Continue s')" if "sll_told_to_stop ext s" for s s'
    using told_to_stop_Exit [OF that] by (auto simp: sll_spin_turn_def)
qed

lemma sll_process_udp_returns: "sll_process_udp ext s src buf \<noteq> Diverge"
  unfolding sll_process_udp_def sll_handle_controller_input_def rtry_def
  by (auto simp: outcome_simps returns Let_def map_err_def ok_or_def
      split: sum.splits ll_client_message.splits option.splits prod.splits if_splits)

lemma sll_spin_turn_returns:
  assumes "receiver (ext_try_recv ext) pending connected"
  shows "sll_spin_turn ext s \<noteq> Diverge"
proof -
  have out: "sll_forward_from_server_to_client ext s \<noteq> Diverge"
    unfolding sll_forward_from_server_to_client_def
    by (intro rbind_returns receiver_drain_returns [OF assms])
      (auto simp: Let_def split: sum.split prod.split)
  have "sll_forward_from_client_to_server ext s \<noteq> Diverge" for s
    by (auto simp: sll_forward_from_client_to_server_def sll_process_udp_returns
        split: prod.split sum.split option.split)
  with out have "sll_spin_once ext s \<noteq> Diverge"
    unfolding sll_spin_once_def by (intro rtry_returns) simp_all
  then show ?thesis
    unfolding sll_spin_turn_eq by (intro rbind_returns) auto
qed

subsection \<open>A small instance\<close>

text \<open>
  A codec that puts the start tick and the element size in a byte each and every bit of the
  payload in a byte of its own, two users, and a servicer at rest: the theorems below are
  applied to them.
\<close>

definition toy_ext :: "(sll_app_message mpsc, (socket_addr \<times> username) list, unit) sll_ext" where
  "toy_ext = pairs_ext
     (\<lambda>m. case m of WorldState w \<Rightarrow> Inr (0 # w) | LastTickReceived t \<Rightarrow> Inr [1, ucast t])
     (\<lambda>bs. case bs of
        t # n # xs \<Rightarrow> Inr (ControllerInput \<lparr>comp_start_tick = ucast t,
          comp_seq = \<lparr>comp_bits = bitvec_of (map (\<lambda>x. x = 1) xs), element_size = ucast n\<rparr>\<rparr>)
      | _ \<Rightarrow> Inl ())"

definition ann :: username where "ann = Username ''ann''"
definition bob :: username where "bob = Username ''bob''"
definition ann_addr :: socket_addr where "ann_addr = SockV4 1 1"
definition bob_addr :: socket_addr where "bob_addr = SockV4 2 2"

definition quiet_socket :: udp_socket where
  "quiet_socket =
     \<lparr>udp_in = [], udp_out = [], udp_send_script = [], udp_local = Inr (SockV4 0 0),
      udp_set_nonblocking = Inr (), udp_set_read_timeout = Inr (), udp_connect = Inr ()\<rparr>"

definition toy_servicer ::
  "(io_error + byte list \<times> socket_addr) list \<Rightarrow>
     (sll_app_message mpsc, (socket_addr \<times> username) list) sll_servicer" where
  "toy_servicer arriving =
     (sll_new toy_ext (quiet_socket\<lparr>udp_in := arriving\<rparr>) mpsc_channel mpsc_channel)
     \<lparr>address_user := [(ann_addr, ann), (bob_addr, bob)]\<rparr>"

definition toy_inputs :: controller_sequence where
  "toy_inputs = \<lparr>start_tick = 0, cs_seq = [bitvec_of [True, False], bitvec_of [True, False]]\<rparr>"

definition toy_compressed :: compressed_controller_sequence where
  "toy_compressed = \<lparr>comp_start_tick = 0,
     comp_seq = \<lparr>comp_bits = bitvec_of [True, True, False, False], element_size = 2\<rparr>\<rparr>"

definition toy_datagram :: "byte list" where
  "toy_datagram = [0, 2, 1, 1, 0, 0]"

lemmas toy_defs = toy_ext_def pairs_ext_def toy_servicer_def quiet_socket_def sll_new_def
  mpsc_channel_def ann_def bob_def ann_addr_def bob_addr_def

lemma toy_decodes:
  "ext_deserialize toy_ext toy_datagram = Inr (ControllerInput toy_compressed)"
  "to_controller_sequence toy_compressed = Ret (Some toy_inputs)"
  "last_tick toy_inputs = Ret 2"
  by (simp_all add: toy_defs toy_datagram_def toy_compressed_def toy_inputs_def
      to_controller_sequence_def cbv_decompress_def decompress_refines last_tick_def
      checked_add_def vec_len_def)

definition toy_served :: "(sll_app_message mpsc, (socket_addr \<times> username) list) sll_servicer" where
  "toy_served = (toy_servicer [])\<lparr>last_tick_received := 2,
      sll_to_application := mpsc_channel
        \<lparr>queue := [\<lparr>sm_from = ann, sm_payload = PayloadControllerSequence toy_inputs\<rparr>]\<rparr>,
      sll_socket := quiet_socket\<lparr>udp_out := [([1, 2], ann_addr)]\<rparr>\<rparr>"

lemma toy_turn: "sll_spin_once toy_ext (toy_servicer [Inr (toy_datagram, ann_addr)]) = Ret (toy_served, Inr ())"
proof -
  have out: "sll_forward_from_server_to_client toy_ext (toy_servicer arriving) = Ret (toy_servicer arriving, Inr ())"
    for arriving
    by (simp add: sll_forward_from_server_to_client_def toy_defs drain_spmc_receiver_def
        drain_receiver_mpsc sll_parse_application_messages_def)
  have "sll_handle_controller_input toy_ext (toy_servicer []) ann_addr toy_compressed = Ret (toy_served, Inr ())"
    using handle_fresh [OF _ toy_decodes(2,3), of toy_ext "toy_servicer []" ann_addr ann]
    by (simp add: toy_served_def toy_defs sll_ack_def sll_send_message_def udp_send_to_def)
  then have "sll_forward_from_client_to_server toy_ext (toy_servicer [Inr (toy_datagram, ann_addr)]) =
      Ret (toy_served, Inr ())"
    using toy_decodes(1)
    by (simp add: sll_forward_from_client_to_server_def maybe_receive_from_udp_eq sll_process_udp_def
        toy_defs toy_datagram_def MAX_PACKET_SIZE_def)
  then show ?thesis by (simp add: sll_spin_once_def out)
qed

subsection \<open>Properties\<close>

text \<open>
  C7: fresh inputs are accepted. When a datagram from a registered address decodes to a
  sequence that ends later than everything received before, the sequence goes to the
  application under the user's name, exactly once and behind what is already waiting, its last
  tick becomes the last tick received, the acknowledgment of that tick goes to the user's
  address, and nothing else changes.
\<close>

theorem fresh_input_accepted:
  assumes "ext_deserialize ext buf = Inr (ControllerInput input)"
    and "bm_get_by_first ext (address_user s) src = Some user"
    and "bm_get_by_second ext (address_user s) user = Some src"
    and "to_controller_sequence input = Ret (Some cs)" "last_tick cs = Ret lt"
    and "last_tick_received s < lt" "receiver_end (sll_to_application s)"
    and "ext_serialize ext (LastTickReceived lt) = Inr ack"
    and "udp_send_script (sll_socket s) = []"
  shows "sll_process_udp ext s src buf =
    Ret (s\<lparr>last_tick_received := lt,
      sll_to_application := (sll_to_application s)
        \<lparr>queue := queue (sll_to_application s) @
          [\<lparr>sm_from = user, sm_payload = PayloadControllerSequence cs\<rparr>]\<rparr>,
      sll_socket := (sll_socket s)\<lparr>udp_out := udp_out (sll_socket s) @ [(ack, src)]\<rparr>\<rparr>, Inr ())"
  using handle_fresh [OF assms(2,4,5,6,7)] assms
  by (simp add: sll_process_udp_def sll_ack_def sll_send_message_def udp_send_to_def)

theorem fresh_input_accepted_witness:
  "sll_process_udp toy_ext (toy_servicer []) ann_addr toy_datagram =
    Ret ((toy_servicer [])\<lparr>last_tick_received := 2,
      sll_to_application := mpsc_channel
        \<lparr>queue := [\<lparr>sm_from = ann, sm_payload = PayloadControllerSequence toy_inputs\<rparr>]\<rparr>,
      sll_socket := quiet_socket\<lparr>udp_out := [([1, 2], ann_addr)]\<rparr>\<rparr>, Inr ())"
  using fresh_input_accepted [OF toy_decodes(1) _ _ toy_decodes(2,3), of "toy_servicer []" ann_addr ann "[1, 2]"]
  by (simp add: toy_defs)

text \<open>
  C8: the last tick received never goes back, whatever datagrams arrive and whatever the
  application does, for as long as the servicer runs.
\<close>

theorem last_tick_received_monotone:
  assumes "loop_reach (sll_spin_turn ext) sll_env s t"
  shows "last_tick_received s \<le> last_tick_received t"
  using assms by (rule sll_ticks.reach_mono)

theorem last_tick_received_monotone_witness:
  "last_tick_received (toy_servicer []) \<le> last_tick_received toy_served \<and> last_tick_received toy_served = 2"
proof -
  let ?s1 = "toy_servicer [Inr (toy_datagram, ann_addr)]"
  have "sll_env (toy_servicer []) ?s1"
    using sll_env.arrives [of "toy_servicer []" "Inr (toy_datagram, ann_addr)"] by (simp add: toy_defs)
  moreover have "sll_spin_turn toy_ext ?s1 = Ret (Continue toy_served)"
    by (simp add: sll_spin_turn_eq toy_turn)
  ultimately have "loop_reach (sll_spin_turn toy_ext) sll_env (toy_servicer []) toy_served"
    by (rule loop_reach.turn [OF loop_reach.environment [OF loop_reach.start]])
  from last_tick_received_monotone [OF this]
  have "last_tick_received (toy_servicer []) \<le> last_tick_received toy_served" .
  moreover have "last_tick_received toy_served = 2" by (simp add: toy_served_def)
  ultimately show ?thesis by blast
qed

text \<open>
  C9: whose inputs the application sees. In one turn of the servicer at most one message is
  added to the queue of the application; it is the controller sequence that the first datagram
  waiting encodes, its sender is the user that the address book, after the application's
  messages of the turn, has for the source of that datagram, and it ends later than every tick
  received before the turn, at the tick on record after it.
\<close>

theorem forwarded_input_provenance:
  assumes "sll_spin_once ext s = Ret (s', r)"
  shows "queue (sll_to_application s') = queue (sll_to_application s) \<or>
    (\<exists>d src rest input m cs. udp_in (sll_socket s) = Inr (d, src) # rest \<and>
       ext_deserialize ext (take MAX_PACKET_SIZE d) = Inr (ControllerInput input) \<and>
       to_controller_sequence input = Ret (Some cs) \<and> sm_payload m = PayloadControllerSequence cs \<and>
       queue (sll_to_application s') = queue (sll_to_application s) @ [m] \<and>
       bm_get_by_first ext (address_user s') src = Some (sm_from m) \<and>
       last_tick cs = Ret (last_tick_received s') \<and> last_tick_received s < last_tick_received s')"
  using sll_spin_once_queue [OF assms] unfolding forwards_def by blast

theorem forwarded_input_provenance_witness:
  "\<exists>m. queue (sll_to_application toy_served) = [m] \<and> sm_from m = ann"
proof -
  have q: "queue (sll_to_application (toy_servicer [Inr (toy_datagram, ann_addr)])) = []"
    "queue (sll_to_application toy_served) \<noteq> []"
    "udp_in (sll_socket (toy_servicer [Inr (toy_datagram, ann_addr)])) = [Inr (toy_datagram, ann_addr)]"
    "bm_get_by_first toy_ext (address_user toy_served) ann_addr = Some ann"
    by (simp_all add: toy_served_def toy_defs)
  from forwarded_input_provenance [OF toy_turn] q show ?thesis by auto
qed

text \<open>
  C12: strangers are ignored. A datagram from an address that is not in the book is taken off
  the socket and reported as a warning; it changes nothing else, is not answered, and does not
  end the servicer.
\<close>

theorem stranger_ignored:
  assumes "udp_in (sll_socket s) = Inr (d, src) # rest"
    and "bm_get_by_first ext (address_user s) src = None"
  shows "\<exists>w. sll_forward_from_client_to_server ext s =
    Ret (s\<lparr>sll_socket := (sll_socket s)\<lparr>udp_in := rest\<rparr>\<rparr>, Inl (Warning w))"
proof (cases "ext_deserialize ext (take MAX_PACKET_SIZE d)")
  case (Inr m)
  obtain input where "m = ControllerInput input" by (cases m)
  with Inr assms show ?thesis
    by (simp add: sll_forward_from_client_to_server_def maybe_receive_from_udp_eq
        sll_process_udp_def handle_unknown)
qed (use assms in \<open>simp add: sll_forward_from_client_to_server_def maybe_receive_from_udp_eq
      sll_process_udp_def\<close>)

theorem stranger_ignored_witness:
  "\<exists>w. sll_forward_from_client_to_server toy_ext (toy_servicer [Inr (toy_datagram, SockV4 9 9)]) =
    Ret (toy_servicer [], Inl (Warning w))"
  using stranger_ignored [of "toy_servicer [Inr (toy_datagram, SockV4 9 9)]" toy_datagram "SockV4 9 9" "[]" toy_ext]
  by (simp add: toy_defs)

text \<open>
  C13: inputs that end no later than the last tick received are not forwarded again, but they
  are acknowledged: the tick on record is sent to the user, and nothing else changes.
\<close>

theorem stale_input_acknowledged_only:
  assumes "ext_deserialize ext buf = Inr (ControllerInput input)"
    and "bm_get_by_first ext (address_user s) src = Some user"
    and "bm_get_by_second ext (address_user s) user = Some src"
    and "to_controller_sequence input = Ret (Some cs)" "last_tick cs = Ret lt"
    and "lt \<le> last_tick_received s"
    and "ext_serialize ext (LastTickReceived (last_tick_received s)) = Inr ack"
    and "udp_send_script (sll_socket s) = []"
  shows "sll_process_udp ext s src buf =
    Ret (s\<lparr>sll_socket := (sll_socket s)\<lparr>udp_out := udp_out (sll_socket s) @ [(ack, src)]\<rparr>\<rparr>, Inr ())"
  using handle_stale [OF assms(2,4,5)] assms
  by (simp add: sll_process_udp_def sll_ack_def sll_send_message_def udp_send_to_def)

theorem stale_input_acknowledged_only_witness:
  "sll_process_udp toy_ext ((toy_servicer [])\<lparr>last_tick_received := 7\<rparr>) bob_addr toy_datagram =
    Ret ((toy_servicer [])\<lparr>last_tick_received := 7,
      sll_socket := quiet_socket\<lparr>udp_out := [([1, 7], bob_addr)]\<rparr>\<rparr>, Inr ())"
  using stale_input_acknowledged_only
    [OF toy_decodes(1) _ _ toy_decodes(2,3), of "(toy_servicer [])\<lparr>last_tick_received := 7\<rparr>" bob_addr bob "[1, 7]"]
  by (simp add: toy_defs)

text \<open>
  C22: of the messages the application has queued since the last turn, whoever they are for,
  only the last world state and the last acknowledgment are kept for sending (the slots
  \<open>WORLD_STATE\<close> and \<open>LAST_TICK\<close>); the updates of the address book are all done, in order.
\<close>

theorem parse_keeps_last_of_each_kind:
  "sll_parse_application_messages ext ms book =
     ([last_such is_world_state ms, last_such is_last_tick ms], fold (book_step ext) ms book)"
  by (rule parse_spec)

text \<open>
  C23: the address book refines a map from addresses to users in which a user has one address:
  announcing a client enters its address and withdraws any other the user had, and disconnecting
  a user withdraws its address. The application's messages act on the book as on that map, and
  its two directions stay inverse to each other.
\<close>

theorem address_book_refines_map:
  assumes "bidir_laws ext ok" "ok book"
    and "sll_parse_application_messages ext ms book = (slots, book')"
  shows "bm_get_by_first ext book' = fold users_step ms (bm_get_by_first ext book) \<and>
    (\<forall>a u. bm_get_by_first ext book' a = Some u \<longleftrightarrow> bm_get_by_second ext book' u = Some a)"
proof -
  from assms(3) have "book' = fold (book_step ext) ms book" by (simp add: parse_spec)
  with book_steps [OF assms(1,2), of ms] bidir_agree [OF assms(1)] show ?thesis by blast
qed

theorem address_book_refines_map_witness:
  "bm_get_by_first toy_ext (snd (sll_parse_application_messages toy_ext
      [NewClient \<lparr>cd_username = ann, udp_addr = ann_addr\<rparr>, NewClient \<lparr>cd_username = bob, udp_addr = bob_addr\<rparr>,
       ClientDisconnect ann] [])) = [bob_addr \<mapsto> bob]"
proof -
  let ?ms = "[NewClient \<lparr>cd_username = ann, udp_addr = ann_addr\<rparr>,
    NewClient \<lparr>cd_username = bob, udp_addr = bob_addr\<rparr>, ClientDisconnect ann]"
  have laws: "bidir_laws toy_ext pairs_ok" unfolding toy_ext_def by (rule bidir_laws_pairs)
  have "bm_get_by_first toy_ext [] = Map.empty" by (simp add: toy_defs fun_eq_iff)
  with address_book_refines_map [OF laws, of "[]" ?ms] show ?thesis
    by (cases "sll_parse_application_messages toy_ext ?ms []")
      (auto simp: pairs_ok_def ann_def bob_def ann_addr_def bob_addr_def fun_eq_iff)
qed

text \<open>
  C26: the progress of one user masks the inputs of the others. The last tick received is
  kept once for all users: after a sequence of one user that ends at \<open>lt1\<close>, a sequence of
  another user that ends no later is dropped, although nothing of it was ever received, and
  that user is told that everything up to \<open>lt1\<close> has arrived.
\<close>

theorem progress_masks_other_users:
  assumes "bm_get_by_first ext (address_user s) src1 = Some u1"
    and "to_controller_sequence input1 = Ret (Some cs1)" "last_tick cs1 = Ret lt1"
    and "last_tick_received s < lt1" "receiver_end (sll_to_application s)"
    and "bm_get_by_first ext (address_user s) src2 = Some u2" "u1 \<noteq> u2"
    and "to_controller_sequence input2 = Ret (Some cs2)" "last_tick cs2 = Ret lt2" "lt2 \<le> lt1"
  shows "\<exists>s1 r1 s2 r2.
    sll_handle_controller_input ext s src1 input1 = Ret (s1, r1) \<and>
    sll_handle_controller_input ext s1 src2 input2 = Ret (s2, r2) \<and>
    queue (sll_to_application s2) = queue (sll_to_application s) @
      [\<lparr>sm_from = u1, sm_payload = PayloadControllerSequence cs1\<rparr>] \<and>
    (sll_socket s2, r2) = sll_send_message ext (address_user s) (sll_socket s1)
      \<lparr>ll_to = u2, ll_payload = LastTickReceived lt1\<rparr>"
proof -
  let ?s1 = "s\<lparr>last_tick_received := lt1, sll_to_application := (sll_to_application s)
      \<lparr>queue := queue (sll_to_application s) @
        [\<lparr>sm_from = u1, sm_payload = PayloadControllerSequence cs1\<rparr>]\<rparr>\<rparr>"
  let ?s2 = "?s1\<lparr>sll_socket := fst (sll_ack ext ?s1 u1)\<rparr>"
  have "sll_handle_controller_input ext s src1 input1 = Ret (?s2, snd (sll_ack ext ?s1 u1))"
    using assms(1-5) by (rule handle_fresh)
  moreover have "sll_handle_controller_input ext ?s2 src2 input2 =
      Ret (?s2\<lparr>sll_socket := fst (sll_ack ext ?s2 u2)\<rparr>, snd (sll_ack ext ?s2 u2))"
    using assms by (intro handle_stale [where cs = cs2 and lt = lt2]) auto
  ultimately show ?thesis by (auto simp: sll_ack_def)
qed

theorem progress_masks_other_users_witness:
  "\<exists>s1 r1 s2 r2.
    sll_handle_controller_input toy_ext (toy_servicer []) ann_addr toy_compressed = Ret (s1, r1) \<and>
    sll_handle_controller_input toy_ext s1 bob_addr toy_compressed = Ret (s2, r2) \<and>
    queue (sll_to_application s2) = [\<lparr>sm_from = ann, sm_payload = PayloadControllerSequence toy_inputs\<rparr>] \<and>
    (sll_socket s2, r2) = sll_send_message toy_ext (address_user (toy_servicer [])) (sll_socket s1)
      \<lparr>ll_to = bob, ll_payload = LastTickReceived 2\<rparr>"
  using progress_masks_other_users
    [OF _ toy_decodes(2,3) _ _ _ _ toy_decodes(2,3), of toy_ext "toy_servicer []" ann_addr ann bob_addr bob]
  by (simp add: toy_defs)

text \<open>
  C27: a registered client can crash the server's thread. One datagram whose sequence
  announces the largest element size and starts with a one bit makes the slice bounds in
  \<open>decompress\<close> overflow, which is a panic.
\<close>

theorem client_can_panic_servicer:
  assumes "udp_in (sll_socket s) = Inr (d, src) # rest"
    and "bm_get_by_first ext (address_user s) src = Some user"
    and "ext_deserialize ext (take MAX_PACKET_SIZE d) = Inr (ControllerInput
      \<lparr>comp_start_tick = t, comp_seq = \<lparr>comp_bits = payload, element_size = - 1\<rparr>\<rparr>)"
    and "wf_bitvec payload" "bv_size payload < 2 ^ 64" "bits payload = True # bs"
  shows "sll_forward_from_client_to_server ext s = Panic"
  using assms decompress_overflow [OF assms(4,5,6) refl]
  by (simp add: sll_forward_from_client_to_server_def maybe_receive_from_udp_eq sll_process_udp_def
      sll_handle_controller_input_def to_controller_sequence_def cbv_decompress_def)

theorem client_can_panic_servicer_witness:
  "sll_forward_from_client_to_server
     (pairs_ext (\<lambda>m. Inl ()) (\<lambda>bs. Inr (ControllerInput \<lparr>comp_start_tick = 0,
        comp_seq = \<lparr>comp_bits = bitvec_of [True, False], element_size = - 1\<rparr>\<rparr>)))
     (toy_servicer [Inr ([0], ann_addr)]) = Panic"
  by (rule client_can_panic_servicer [where src = ann_addr and user = ann and payload = "bitvec_of [True, False]"])
    (simp_all add: toy_defs)

text \<open>
  C29: the servicer stops when the application hangs up. If before some turn the application
  drops its end of the queue and nothing waits in it, the thread ends (it returns, or a panic
  ends it): it does not run for ever, whatever the network does.
\<close>

theorem low_latency_servicer_stops:
  assumes "receiver (ext_try_recv ext) pending connected"
    and "\<And>s. sll_told_to_stop ext (env k s)"
  shows "sll_spin ext env s \<noteq> Diverge"
  using sll_stops.spin_stops [of ext env k s] sll_spin_turn_returns [OF assms(1)] assms(2)
  by (auto simp: sll_spin_def split: sum.split)

theorem low_latency_servicer_stops_witness:
  "sll_spin toy_ext (\<lambda>n s. if n = 5 then s\<lparr>sll_from_application := mpsc_channel\<lparr>sender_alive := False\<rparr>\<rparr> else s)
     (toy_servicer []) \<noteq> Diverge"
proof (rule low_latency_servicer_stops [where k = 5 and pending = queue and connected = sender_alive])
  show "receiver (ext_try_recv toy_ext) queue sender_alive"
    using mpsc.receiver_axioms by (simp add: toy_ext_def pairs_ext_def)
qed (simp add: sll_told_to_stop_def toy_defs mpsc_try_recv_def)

text \<open>
  A longer sequence repeats inputs. A client sends all it holds in every turn; when two of its
  datagrams arrive and the second holds the inputs of the first and more, both are forwarded
  whole, and the application gets the inputs of the first a second time.
\<close>

theorem longer_sequence_repeats:
  assumes "bm_get_by_first ext (address_user s) src = Some user" "receiver_end (sll_to_application s)"
    and "to_controller_sequence p = Ret (Some cs)" "last_tick cs = Ret lt" "last_tick_received s < lt"
    and "to_controller_sequence p' = Ret (Some (cs\<lparr>cs_seq := cs_seq cs @ newer\<rparr>))" "newer \<noteq> []"
    and "unat (start_tick cs) + length (cs_seq cs) + length newer < 2 ^ 64"
  shows "\<exists>s1 r1 s2 r2. sll_handle_controller_input ext s src p = Ret (s1, r1) \<and>
    sll_handle_controller_input ext s1 src p' = Ret (s2, r2) \<and>
    queue (sll_to_application s2) = queue (sll_to_application s) @
      [\<lparr>sm_from = user, sm_payload = PayloadControllerSequence cs\<rparr>,
       \<lparr>sm_from = user, sm_payload = PayloadControllerSequence (cs\<lparr>cs_seq := cs_seq cs @ newer\<rparr>)\<rparr>]"
proof -
  obtain s1 r1 where first: "sll_handle_controller_input ext s src p = Ret (s1, r1)"
    and s1: "address_user s1 = address_user s" "last_tick_received s1 = lt" "receiver_end (sll_to_application s1)"
      "queue (sll_to_application s1) = queue (sll_to_application s) @
        [\<lparr>sm_from = user, sm_payload = PayloadControllerSequence cs\<rparr>]"
    using handle_fresh [OF assms(1,3,4,5,2)] assms(2) by simp
  obtain lt' where lt': "last_tick (cs\<lparr>cs_seq := cs_seq cs @ newer\<rparr>) = Ret lt'" "lt < lt'"
    using last_tick_eq [of cs] last_tick_eq [of "cs\<lparr>cs_seq := cs_seq cs @ newer\<rparr>"] assms(4,7,8)
    by (simp add: word_less_nat_alt)
  from handle_fresh [of ext s1 src user, OF _ assms(6) lt'(1)] lt'(2) s1 assms(1) first show ?thesis by simp
qed

theorem longer_sequence_repeats_witness:
  "\<exists>p s1 r1 s2 r2. sll_handle_controller_input toy_ext (toy_servicer []) ann_addr toy_compressed = Ret (s1, r1) \<and>
     sll_handle_controller_input toy_ext s1 ann_addr p = Ret (s2, r2) \<and>
     queue (sll_to_application s2) =
       [\<lparr>sm_from = ann, sm_payload = PayloadControllerSequence toy_inputs\<rparr>,
        \<lparr>sm_from = ann, sm_payload = PayloadControllerSequence
           (toy_inputs\<lparr>cs_seq := cs_seq toy_inputs @ [bitvec_of [False, True]]\<rparr>)\<rparr>]"
proof -
  let ?longer = "toy_inputs\<lparr>cs_seq := cs_seq toy_inputs @ [bitvec_of [False, True]]\<rparr>"
  have "encodable 2 ?longer" by (simp add: encodable_def uniform_inputs_def toy_inputs_def)
  from to_controller_sequence_encodable [OF this, of "start_tick ?longer"]
  obtain p where p: "to_controller_sequence p = Ret (Some ?longer)"
    by (auto simp: toy_inputs_def)
  from longer_sequence_repeats [of toy_ext "toy_servicer []" ann_addr ann, OF _ _ toy_decodes(2,3) _ p]
  show ?thesis by (simp add: toy_defs) (simp add: toy_inputs_def, blast)
qed

end
