(* ===== verification/ServerReliable.thy ===== *)
theory ServerReliable
  imports ServerMessages
begin

text \<open>
  \<^verbatim>\<open>src/server/reliable.rs\<close>: the listener and the TCP servicer, one per client. The crates
  outside the repository are the record \<open>sre_ext\<close>: the \<open>spmc\<close> receiver and \<open>bincode\<close>.
  The flag \<open>server_running\<close> is shared with the application thread and the listener.
\<close>

record re_to_client =
  re_to :: username
  re_payload :: re_server_message

datatype sre_app_message = ReToClient re_to_client

record ('r, 'be) sre_ext =
  re_try_recv :: "('r, sre_app_message) recv_fun"
  re_serialize :: "re_server_message \<Rightarrow> 'be + byte list"
  re_deserialize :: "byte list \<Rightarrow> 'be + re_client_message"

record 'r sre_servicer =
  sre_stream :: tcp_stream
  server_running :: bool
  sre_to_application :: "servicer_message mpsc"
  sre_from_application :: 'r
  sre_user :: username
  sre_shutting_down :: bool

subsection \<open>The listener\<close>

text \<open>
  \<open>listen\<close> runs on the script of its iterations: what \<open>incoming\<close> yields (the listener
  never runs dry, it yields \<open>WouldBlock\<close>) and the value of \<open>server_running\<close> read at the
  end of the iteration. A script that ends with the flag still set is a listener that never
  returns. \<open>spawn\<close> starts the servicer thread and \<open>join\<close> waits for it: joining a thread that
  panicked is an error, which the code unwraps, and joining one that never ends never returns.
\<close>

fun listen_loop :: "('c \<Rightarrow> 't) \<Rightarrow> ((io_error + 'c) \<times> bool) list \<Rightarrow> 't list \<Rightarrow> 't list option" where
  "listen_loop spawn [] threads = None"
| "listen_loop spawn ((stream, running) # rest) threads =
     (let threads' =
        (case stream of
           Inl e \<Rightarrow> if err_kind e = WouldBlock then threads else threads
         | Inr c \<Rightarrow> threads @ [spawn c])
      in if running = False then Some threads' else listen_loop spawn rest threads')"

definition join_all :: "('t \<Rightarrow> unit rust) \<Rightarrow> 't list \<Rightarrow> unit rust" where
  "join_all join threads = rfold (\<lambda>_ t. join t) () threads"

definition listen ::
  "(io_error + unit) \<Rightarrow> ('c \<Rightarrow> 't) \<Rightarrow> ('t \<Rightarrow> unit rust) \<Rightarrow> ((io_error + 'c) \<times> bool) list \<Rightarrow>
     ('t list \<times> (io_error + unit)) rust" where
  "listen set_nonblocking spawn join script =
     (case set_nonblocking of
        Inl e \<Rightarrow> Ret ([], Inl e)
      | Inr _ \<Rightarrow>
          rbind (of_loop (listen_loop spawn script [])) (\<lambda>servicer_threads.
          rbind (join_all join servicer_threads) (\<lambda>_.
          Ret (servicer_threads, Inr ()))))"

subsection \<open>Joining\<close>

definition expect_join_request ::
  "('r, 'be) sre_ext \<Rightarrow> byte list \<Rightarrow> 'be comm_error + credentials" where
  "expect_join_request ext buf =
     (case map_err (\<lambda>err. Warning (FailedToDeserialize err)) (re_deserialize ext buf) of
        Inl e \<Rightarrow> Inl e
      | Inr (JoinRequest cred) \<Rightarrow> Inr cred
      | Inr _ \<Rightarrow> Inl (Warning WrongMessageType))"

function wait_for_join_request ::
  "('r, 'be) sre_ext \<Rightarrow> tcp_stream \<Rightarrow> (tcp_stream \<times> ('be comm_error + credentials)) rust" where
  "wait_for_join_request ext s =
     rbind (tcp_read s []) (\<lambda>(s', r).
       case r of
         Inr (n, buf) \<Rightarrow> Ret (s', expect_join_request ext buf)
       | Inl err \<Rightarrow>
           (case (comm_error_from err :: 'be comm_error) of
              Drop d \<Rightarrow> Ret (s', Inl (Drop d))
            | Warning w \<Rightarrow> wait_for_join_request ext s'
            | Exit \<Rightarrow> Ret (s', Inl Exit)))"
  by pat_completeness auto
termination
  by (relation "measure (\<lambda>(ext, s). length (tcp_in s))")
    (auto simp: tcp_read_def Let_def split: list.splits sum.splits if_splits)

declare wait_for_join_request.simps [simp del]

definition authenticate_user :: "socket_addr \<Rightarrow> credentials \<Rightarrow> 'be comm_error + client_data" where
  "authenticate_user client_address cred =
     Inr \<lparr>cd_username = cr_username cred, udp_addr = set_port client_address (udp_port cred)\<rparr>"

text \<open>\<open>new\<close>: the stream and the queue as it leaves them, and the servicer it makes.\<close>

definition sre_new ::
  "('r, 'be) sre_ext \<Rightarrow> tcp_stream \<Rightarrow> bool \<Rightarrow> servicer_message mpsc \<Rightarrow> 'r \<Rightarrow> u16 \<Rightarrow>
     ((tcp_stream \<times> servicer_message mpsc) \<times> ('be comm_error + 'r sre_servicer)) rust" where
  "sre_new ext stream running to_app from_app server_udp_port =
     (case map_err comm_error_from (tcp_peer stream) of
        Inl e \<Rightarrow> Ret ((stream, to_app), Inl e)
      | Inr client_tcp_address \<Rightarrow>
     rbind (wait_for_join_request ext stream) (\<lambda>(stream1, joined).
     case joined of
        Inl e \<Rightarrow> Ret ((stream1, to_app), Inl e)
      | Inr cred \<Rightarrow>
     (case authenticate_user client_tcp_address cred of
        Inl e \<Rightarrow> Ret ((stream1, to_app), Inl e)
      | Inr cdata \<Rightarrow>
     (case map_err (\<lambda>err. Warning (FailedToSerialize err))
             (re_serialize ext (JoinResponse (Confirmation server_udp_port))) of
        Inl e \<Rightarrow> Ret ((stream1, to_app), Inl e)
      | Inr encoded_response \<Rightarrow>
     rbind (tcp_write stream1 encoded_response) (\<lambda>(stream2, written).
     case written of
        Inl e \<Rightarrow> Ret ((stream2, to_app), Inl (comm_error_from e))
      | Inr _ \<Rightarrow>
     (case mpsc_send to_app \<lparr>sm_from = cd_username cdata, sm_payload = PayloadClientData cdata\<rparr> of
        (to_app', Inl _) \<Rightarrow> Ret ((stream2, to_app'), Inl (Drop ApplicationThreadDisconnected))
      | (to_app', Inr _) \<Rightarrow>
          Ret ((stream2, to_app'),
           Inr \<lparr>sre_stream = stream2, server_running = running, sre_to_application = to_app',
                sre_from_application = from_app, sre_user = cd_username cdata,
                sre_shutting_down = False\<rparr>)))))))"

subsection \<open>Serving\<close>

definition sre_shutdown :: "'r sre_servicer \<Rightarrow> 'r sre_servicer" where
  "sre_shutdown s = s\<lparr>sre_shutting_down := True\<rparr>"

definition sre_handle_chat_message ::
  "'r sre_servicer \<Rightarrow> string \<Rightarrow> 'r sre_servicer \<times> ('be comm_error + unit)" where
  "sre_handle_chat_message s msg =
     (case mpsc_send (sre_to_application s) \<lparr>sm_from = sre_user s, sm_payload = PayloadChat msg\<rparr> of
        (ch, res) \<Rightarrow>
          (s\<lparr>sre_to_application := ch\<rparr>, map_err (\<lambda>_. Drop ApplicationThreadDisconnected) res))"

definition sre_send_message ::
  "('r, 'be) sre_ext \<Rightarrow> 'r sre_servicer \<Rightarrow> re_server_message \<Rightarrow>
     ('r sre_servicer \<times> ('be comm_error + unit)) rust" where
  "sre_send_message ext s msg =
     (case map_err (\<lambda>err. Warning (FailedToSerialize err)) (re_serialize ext msg) of
        Inl e \<Rightarrow> Ret (s, Inl e)
      | Inr encoded_response \<Rightarrow>
          rbind (tcp_write_all (sre_stream s) encoded_response) (\<lambda>(stream', r).
            case r of
              Inr _ \<Rightarrow> Ret (s\<lparr>sre_stream := stream'\<rparr>, Inr ())
            | Inl err \<Rightarrow>
                Ret (s\<lparr>sre_stream := stream'\<rparr>,
                 case (comm_error_from err :: 'be comm_error) of
                   Warning warn \<Rightarrow> Inr ()
                 | Drop d \<Rightarrow> Inl (Drop d)
                 | Exit \<Rightarrow> Inl Exit)))"

fun sre_forward ::
  "('r, 'be) sre_ext \<Rightarrow> 'r sre_servicer \<Rightarrow> sre_app_message list \<Rightarrow>
     ('r sre_servicer \<times> ('be comm_error + unit)) rust" where
  "sre_forward ext s [] = Ret (s, Inr ())"
| "sre_forward ext s (ReToClient to_client # rest) =
     (if re_to to_client = sre_user s then
        rtry (sre_send_message ext s (re_payload to_client)) (\<lambda>s' _. sre_forward ext s' rest)
      else sre_forward ext s rest)"

text \<open>Reading and handling one message of the client, the second half of \<open>spin_once\<close>.\<close>

definition sre_receive ::
  "('r, 'be) sre_ext \<Rightarrow> 'r sre_servicer \<Rightarrow> ('r sre_servicer \<times> ('be comm_error + unit)) rust" where
  "sre_receive ext s =
     rbind (tcp_read (sre_stream s) []) (\<lambda>(stream', r).
       let s1 = s\<lparr>sre_stream := stream'\<rparr> in
       case r of
         Inl err \<Rightarrow> Ret (s1, Inl (comm_error_from err))
       | Inr (n, buf) \<Rightarrow>
           (case map_err (\<lambda>err. Warning (FailedToDeserialize err)) (re_deserialize ext buf) of
              Inl e \<Rightarrow> Ret (s1, Inl e)
            | Inr (ClientChat msg) \<Rightarrow> Ret (sre_handle_chat_message s1 msg)
            | Inr (JoinRequest cred) \<Rightarrow> Ret (s1, Inl (Drop AlreadyConnected))))"

definition sre_spin_once ::
  "('r, 'be) sre_ext \<Rightarrow> 'r sre_servicer \<Rightarrow> ('r sre_servicer \<times> ('be comm_error + unit)) rust" where
  "sre_spin_once ext s =
     rbind (drain_spmc_receiver (re_try_recv ext) (sre_from_application s)) (\<lambda>(r', res).
       let s1 = s\<lparr>sre_from_application := r'\<rparr> in
       case res of
         Inl d \<Rightarrow> Ret (s1, Inl (Drop d))
       | Inr msg_vec \<Rightarrow> rtry (sre_forward ext s1 msg_vec) (\<lambda>s2 _. sre_receive ext s2))"

text \<open>
  \<open>spin\<close> is \<open>while !shutting_down\<close>: the guard, then turns that end by testing it again.
\<close>

definition sre_spin_turn ::
  "('r, 'be) sre_ext \<Rightarrow> 'r sre_servicer \<Rightarrow> 'r sre_servicer loop_turn rust" where
  "sre_spin_turn ext s =
     rbind (sre_spin_once ext s) (\<lambda>(s', res).
       let s1 = (case res of
                   Inr _ \<Rightarrow> s'
                 | Inl (Warning warn) \<Rightarrow> s'
                 | Inl (Drop d) \<Rightarrow> s'
                 | Inl Exit \<Rightarrow> sre_shutdown s');
           s2 = (if server_running s1 = False then sre_shutdown s1 else s1)
       in Ret (if sre_shutting_down s2 then Break s2 else Continue s2))"

definition sre_spin ::
  "('r, 'be) sre_ext \<Rightarrow> (nat \<Rightarrow> 'r sre_servicer \<Rightarrow> 'r sre_servicer) \<Rightarrow> 'r sre_servicer \<Rightarrow>
     'r sre_servicer rust" where
  "sre_spin ext env s =
     (if sre_shutting_down s then Ret s else spin_loop (sre_spin_turn ext) env s)"

text \<open>The thread \<open>Servicer::listen\<close> spawns for a connection.\<close>

definition sre_thread ::
  "('r, 'be) sre_ext \<Rightarrow> (nat \<Rightarrow> 'r sre_servicer \<Rightarrow> 'r sre_servicer) \<Rightarrow> bool \<Rightarrow>
     servicer_message mpsc \<Rightarrow> 'r \<Rightarrow> u16 \<Rightarrow> tcp_stream \<Rightarrow> unit rust" where
  "sre_thread ext env running to_app from_app server_udp_port stream =
     rbind (sre_new ext stream running to_app from_app server_udp_port) (\<lambda>(_, r).
       case r of
         Inr servicer \<Rightarrow> rbind (sre_spin ext env servicer) (\<lambda>_. Ret ())
       | Inl err \<Rightarrow> Ret ())"

subsection \<open>The listener returns, with one thread per connection\<close>

definition accepted :: "((io_error + 'c) \<times> bool) list \<Rightarrow> 'c list" where
  "accepted script = concat (map (\<lambda>(ev, _). case ev of Inl _ \<Rightarrow> [] | Inr c \<Rightarrow> [c]) script)"

text \<open>The iterations up to the first that finds the flag cleared.\<close>

fun while_running :: "('e \<times> bool) list \<Rightarrow> ('e \<times> bool) list" where
  "while_running [] = []"
| "while_running ((e, running) # rest) = (e, running) # (if running then while_running rest else [])"

lemma listen_loop_eq:
  "listen_loop spawn script threads =
     (if \<exists>(e, running) \<in> set script. \<not> running
      then Some (threads @ map spawn (accepted (while_running script))) else None)"
  by (induction script arbitrary: threads) (auto simp: accepted_def split: sum.splits)

text \<open>Joining stops at the first thread that does not return.\<close>

lemma join_all_eq:
  "join_all join threads =
     (case dropWhile (\<lambda>t. join t = Ret ()) threads of [] \<Rightarrow> Ret () | t # _ \<Rightarrow> join t)"
proof (induction threads)
  case Nil
  then show ?case by (simp add: join_all_def)
next
  case (Cons t threads)
  then show ?case by (cases "join t") (simp_all add: join_all_def)
qed

lemma listen_eq:
  "listen (Inr ()) spawn join script =
     (if \<exists>(ev, running) \<in> set script. \<not> running
      then rbind (join_all join (map spawn (accepted (while_running script))))
             (\<lambda>_. Ret (map spawn (accepted (while_running script)), Inr ()))
      else Diverge)"
  by (simp add: listen_def listen_loop_eq)

subsection \<open>What a servicer reads\<close>

text \<open>
  What waiting for the join request comes to: the answer of the decoder on the empty input, an
  error, or a wait without end on a client that keeps the stream open.
\<close>

lemma wait_for_join_request_spec:
  fixes ext :: "('r, 'be) sre_ext"
  shows "case wait_for_join_request ext s of
      Panic \<Rightarrow> False
    | Diverge \<Rightarrow> \<not> tcp_in_closed s
    | Ret (s', r) \<Rightarrow> tcp_out s' = tcp_out s \<and> (\<forall>cred. r = Inr cred \<longrightarrow> expect_join_request ext [] = Inr cred)"
proof (induction ext s rule: wait_for_join_request.induct)
  case (1 ext s)
  note unfold = wait_for_join_request.simps [of ext s]
  show ?case
  proof (cases rule: tcp_read_cases [of s "[]"])
    case blocks
    then show ?thesis by (simp add: unfold)
  next
    case (returns s1 r)
    note frame = tcp_read_frame [OF returns]
    show ?thesis
    proof (cases r)
      case (Inl err)
      show ?thesis
      proof (cases "comm_error_from err :: 'be comm_error")
        case (Warning w)
        have "wait_for_join_request ext s = wait_for_join_request ext s1"
          using returns Inl Warning by (simp add: unfold)
        with "1.IH" [OF returns refl Inl Warning] frame show ?thesis
          by (simp split: rust.splits prod.splits)
      qed (use returns Inl frame in \<open>auto simp: unfold\<close>)
    next
      case (Inr p)
      with returns have "p = (0, [])" using tcp_read_empty_Inr by blast
      with returns Inr frame show ?thesis by (simp add: unfold)
    qed
  qed
qed

lemma wait_for_join_request_cases:
  fixes ext :: "('r, 'be) sre_ext"
  obtains (blocks) "wait_for_join_request ext s = Diverge" "\<not> tcp_in_closed s"
  | (refused) s' e where "wait_for_join_request ext s = Ret (s', Inl e)" "tcp_out s' = tcp_out s"
  | (joined) s' cred where "wait_for_join_request ext s = Ret (s', Inr cred)" "tcp_out s' = tcp_out s"
      "expect_join_request ext [] = Inr cred"
proof (cases "wait_for_join_request ext s")
  case Panic
  with wait_for_join_request_spec [where ext = ext and s = s] show thesis by simp
next
  case Diverge
  with wait_for_join_request_spec [where ext = ext and s = s] blocks show thesis by simp
next
  case (Ret p)
  obtain s' r where "p = (s', r)" by fastforce
  with Ret wait_for_join_request_spec [where ext = ext and s = s] refused joined show thesis
    by (cases r) auto
qed

lemma expect_join_request_Inr:
  "expect_join_request ext buf = Inr cred \<longleftrightarrow> re_deserialize ext buf = Inr (JoinRequest cred)"
  by (cases "re_deserialize ext buf") (auto simp: expect_join_request_def split: re_client_message.split)

text \<open>What the second half of a turn does is decided before anything is read.\<close>

lemma sre_receive_eq:
  "sre_receive ext s =
     rbind (tcp_read (sre_stream s) []) (\<lambda>(stream', r).
       case r of
         Inl err \<Rightarrow> Ret (s\<lparr>sre_stream := stream'\<rparr>, Inl (comm_error_from err))
       | Inr _ \<Rightarrow>
           (case re_deserialize ext [] of
              Inl e \<Rightarrow> Ret (s\<lparr>sre_stream := stream'\<rparr>, Inl (Warning (FailedToDeserialize e)))
            | Inr (ClientChat msg) \<Rightarrow> Ret (sre_handle_chat_message (s\<lparr>sre_stream := stream'\<rparr>) msg)
            | Inr (JoinRequest cred) \<Rightarrow> Ret (s\<lparr>sre_stream := stream'\<rparr>, Inl (Drop AlreadyConnected))))"
  (is "_ = rbind _ ?handle")
  unfolding sre_receive_def
proof (intro rbind_cong refl)
  fix p
  assume read: "tcp_read (sre_stream s) [] = Ret p"
  obtain stream' r where p: "p = (stream', r)" by fastforce
  show "(case p of (stream', r) \<Rightarrow>
       (let s1 = s\<lparr>sre_stream := stream'\<rparr> in
        case r of
          Inl err \<Rightarrow> Ret (s1, Inl (comm_error_from err))
        | Inr (n, buf) \<Rightarrow>
            (case map_err (\<lambda>err. Warning (FailedToDeserialize err)) (re_deserialize ext buf) of
               Inl e \<Rightarrow> Ret (s1, Inl e)
             | Inr (ClientChat msg) \<Rightarrow> Ret (sre_handle_chat_message s1 msg)
             | Inr (JoinRequest cred) \<Rightarrow> Ret (s1, Inl (Drop AlreadyConnected))))) = ?handle p"
  proof (cases r)
    case (Inr q)
    with read p have "q = (0, [])" using tcp_read_empty_Inr by blast
    with p Inr show ?thesis by (cases "re_deserialize ext []") (auto split: re_client_message.split)
  qed (simp add: p)
qed

subsection \<open>Frames\<close>

text \<open>What sending and receiving leave alone.\<close>

definition sre_fixed :: "'r sre_servicer \<Rightarrow> bool \<times> username \<times> 'r \<times> bool" where
  "sre_fixed s = (server_running s, sre_user s, sre_from_application s, sre_shutting_down s)"

definition tcp_arrivals :: "tcp_stream \<Rightarrow> (io_error + byte list) list \<times> bool \<times> bool" where
  "tcp_arrivals s = (tcp_in s, tcp_in_closed s, tcp_out_stalled s)"

lemma sre_send_message_frame:
  assumes "sre_send_message ext s msg = Ret (s', r)"
  shows "sre_fixed s' = sre_fixed s \<and> sre_to_application s' = sre_to_application s \<and>
     tcp_arrivals (sre_stream s') = tcp_arrivals (sre_stream s) \<and> r \<noteq> Inl Exit"
proof (cases "re_serialize ext msg")
  case (Inl e)
  with assms show ?thesis by (auto simp: sre_send_message_def)
next
  case (Inr bs)
  with assms obtain st w where w: "tcp_write_all (sre_stream s) bs = Ret (st, w)"
    by (auto simp: sre_send_message_def rbind_Ret_iff)
  with Inr assms tcp_write_all_frame [OF w] show ?thesis
    by (auto simp: sre_send_message_def sre_fixed_def tcp_arrivals_def split: sum.splits comm_error.splits)
qed

lemma sre_forward_frame:
  "sre_forward ext s ms = Ret (s', r) \<Longrightarrow>
     sre_fixed s' = sre_fixed s \<and> sre_to_application s' = sre_to_application s \<and>
     tcp_arrivals (sre_stream s') = tcp_arrivals (sre_stream s) \<and> r \<noteq> Inl Exit"
proof (induction ext s ms rule: sre_forward.induct)
  case (2 ext s tc rest)
  show ?case
  proof (cases "re_to tc = sre_user s")
    case True
    with "2.prems" consider e where "sre_send_message ext s (re_payload tc) = Ret (s', Inl e)" "r = Inl e"
      | s1 u where "sre_send_message ext s (re_payload tc) = Ret (s1, Inr u)" "sre_forward ext s1 rest = Ret (s', r)"
      by (auto simp: rtry_Ret_iff)
    then show ?thesis
    proof cases
      case 1
      then show ?thesis using sre_send_message_frame [OF 1(1)] by simp
    next
      case (2 s1 u)
      then show ?thesis
        using sre_send_message_frame [OF 2(1)] "2.IH"(1) [OF True, of s1] by simp
    qed
  next
    case False
    with "2.prems" "2.IH"(2) [OF False] show ?thesis by simp
  qed
qed auto

lemma sre_receive_cases:
  assumes "sre_receive ext s = Ret (s', r)"
  obtains (failed) stream' e where
      "s' = s\<lparr>sre_stream := stream'\<rparr>" "r = Inl e" "e \<noteq> Exit" "\<exists>w. tcp_read (sre_stream s) [] = Ret (stream', w)"
  | (chat) stream' msg where
      "(s', r) = sre_handle_chat_message (s\<lparr>sre_stream := stream'\<rparr>) msg"
      "\<exists>w. tcp_read (sre_stream s) [] = Ret (stream', w)"
proof -
  from assms obtain stream' w where read: "tcp_read (sre_stream s) [] = Ret (stream', w)"
    by (auto simp: sre_receive_eq rbind_Ret_iff)
  show thesis
  proof (cases w)
    case (Inl err)
    with assms read show thesis by (intro failed) (auto simp: sre_receive_eq)
  next
    case (Inr q)
    show thesis
    proof (cases "re_deserialize ext []")
      case (Inl e)
      with assms read Inr show thesis by (intro failed) (auto simp: sre_receive_eq)
    next
      case (Inr m)
      with assms read \<open>w = Inr q\<close> show thesis
        by (cases m) (use failed chat [OF sym] in \<open>auto simp: sre_receive_eq\<close>)
    qed
  qed
qed

lemma sre_receive_frame:
  assumes "sre_receive ext s = Ret (s', r)"
  shows "sre_fixed s' = sre_fixed s \<and> tcp_out (sre_stream s') = tcp_out (sre_stream s) \<and>
     tcp_write_script (sre_stream s') = tcp_write_script (sre_stream s) \<and>
     tcp_out_stalled (sre_stream s') = tcp_out_stalled (sre_stream s) \<and> r \<noteq> Inl Exit"
  using assms
  by (cases rule: sre_receive_cases)
    (auto simp: sre_handle_chat_message_def sre_fixed_def dest!: tcp_read_frame split: prod.splits)

lemma sre_receive_queue:
  assumes "sre_receive ext s = Ret (s', r)"
  shows "queue (sre_to_application s') = queue (sre_to_application s) \<or>
     (\<exists>msg. queue (sre_to_application s') = queue (sre_to_application s) @
        [\<lparr>sm_from = sre_user s, sm_payload = PayloadChat msg\<rparr>])"
  using assms
  by (cases rule: sre_receive_cases)
    (auto simp: sre_handle_chat_message_def mpsc_send_def split: prod.splits if_splits)

text \<open>A turn waits for ever only on its stream.\<close>

lemma sre_send_message_returns:
  "\<not> tcp_out_stalled (sre_stream s) \<Longrightarrow> sre_send_message ext s msg \<noteq> Diverge"
  unfolding sre_send_message_def
  by (auto simp: outcome_simps tcp_write_all_returns split: sum.splits)

lemma sre_forward_returns:
  "\<not> tcp_out_stalled (sre_stream s) \<Longrightarrow> sre_forward ext s ms \<noteq> Diverge"
proof (induction ext s ms rule: sre_forward.induct)
  case (2 ext s tc rest)
  show ?case
  proof (cases "re_to tc = sre_user s")
    case True
    have "sre_forward ext s1 rest \<noteq> Diverge" if "sre_send_message ext s (re_payload tc) = Ret (s1, Inr u)" for s1 u
      using "2.IH"(1) [OF True, of s1] sre_send_message_frame [OF that] "2.prems" by (simp add: tcp_arrivals_def)
    then have "rtry (sre_send_message ext s (re_payload tc)) (\<lambda>s' _. sre_forward ext s' rest) \<noteq> Diverge"
      by (intro rtry_returns sre_send_message_returns "2.prems") blast
    with True show ?thesis by simp
  next
    case False
    with "2.IH"(2) [OF False] "2.prems" show ?thesis by simp
  qed
qed simp

lemma sre_receive_Diverge_iff:
  "sre_receive ext s = Diverge \<longleftrightarrow> tcp_in (sre_stream s) = [] \<and> \<not> tcp_in_closed (sre_stream s)"
  unfolding tcp_read_Diverge_iff [of _ "[]", symmetric]
  by (cases "tcp_read (sre_stream s) []")
    (auto simp: sre_receive_eq split: sum.splits re_client_message.splits)

lemma sre_spin_once_cases:
  assumes "sre_spin_once ext s = Ret (s', r)"
  obtains (hung_up) r' d where
      "drain_spmc_receiver (re_try_recv ext) (sre_from_application s) = Ret (r', Inl d)"
      "s' = s\<lparr>sre_from_application := r'\<rparr>" "r = Inl (Drop d)"
  | (out_failed) r' ms e where
      "drain_spmc_receiver (re_try_recv ext) (sre_from_application s) = Ret (r', Inr ms)"
      "sre_forward ext (s\<lparr>sre_from_application := r'\<rparr>) ms = Ret (s', Inl e)" "r = Inl e"
  | (both) r' ms s1 where
      "drain_spmc_receiver (re_try_recv ext) (sre_from_application s) = Ret (r', Inr ms)"
      "sre_forward ext (s\<lparr>sre_from_application := r'\<rparr>) ms = Ret (s1, Inr ())"
      "sre_receive ext s1 = Ret (s', r)"
proof -
  from assms obtain r' res where
    drain: "drain_spmc_receiver (re_try_recv ext) (sre_from_application s) = Ret (r', res)"
    by (auto simp: sre_spin_once_def rbind_Ret_iff)
  show thesis
  proof (cases res)
    case (Inl d)
    with assms drain show thesis by (intro hung_up) (auto simp: sre_spin_once_def)
  next
    case (Inr ms)
    with drain have drain': "drain_spmc_receiver (re_try_recv ext) (sre_from_application s) = Ret (r', Inr ms)"
      by simp
    let ?s = "s\<lparr>sre_from_application := r'\<rparr>"
    have "rtry (sre_forward ext ?s ms) (\<lambda>s2 _. sre_receive ext s2) = Ret (s', r)"
      using assms drain' by (simp add: sre_spin_once_def)
    then show thesis
      using out_failed [OF drain'] both [OF drain'] unfolding rtry_Ret_iff by fastforce
  qed
qed

lemma sre_spin_once_frame:
  assumes "sre_spin_once ext s = Ret (s', r)"
  shows "server_running s' = server_running s \<and> sre_user s' = sre_user s \<and>
    sre_shutting_down s' = sre_shutting_down s \<and> r \<noteq> Inl Exit"
  using assms
proof (cases rule: sre_spin_once_cases)
  case (both r' ms s1)
  then show ?thesis using sre_forward_frame [OF both(2)] sre_receive_frame [OF both(3)] by (simp add: sre_fixed_def)
next
  case (out_failed r' ms e)
  then show ?thesis using sre_forward_frame [OF out_failed(2)] by (simp add: sre_fixed_def)
qed simp

lemma sre_spin_once_queue:
  assumes "sre_spin_once ext s = Ret (s', r)"
  shows "queue (sre_to_application s') = queue (sre_to_application s) \<or>
     (\<exists>msg. queue (sre_to_application s') = queue (sre_to_application s) @
        [\<lparr>sm_from = sre_user s, sm_payload = PayloadChat msg\<rparr>])"
  using assms
proof (cases rule: sre_spin_once_cases)
  case (both r' ms s1)
  then show ?thesis
    using sre_forward_frame [OF both(2)] sre_receive_queue [OF both(3)] by (simp add: sre_fixed_def)
next
  case (out_failed r' ms e)
  then show ?thesis using sre_forward_frame [OF out_failed(2)] by simp
qed simp

text \<open>Only messages meant for the user are written, in order.\<close>

definition addressed_to :: "username \<Rightarrow> sre_app_message list \<Rightarrow> re_server_message list" where
  "addressed_to u ms = concat (map (\<lambda>m. case m of ReToClient tc \<Rightarrow> if re_to tc = u then [re_payload tc] else []) ms)"

text \<open>A stream that takes everything that is written to it.\<close>

definition tcp_open :: "tcp_stream \<Rightarrow> bool" where
  "tcp_open s \<longleftrightarrow> tcp_write_script s = [] \<and> \<not> tcp_out_stalled s"

lemma tcp_write_all_open:
  "tcp_open s \<Longrightarrow> tcp_write_all s bs = Ret (s\<lparr>tcp_out := tcp_out s @ bs\<rparr>, Inr ())"
  by (cases "bs = []") (simp_all add: tcp_write_all.simps [of s bs] tcp_write_def tcp_open_def)

lemma tcp_open_out [simp]: "tcp_open (s\<lparr>tcp_out := bs\<rparr>) = tcp_open s"
  by (simp add: tcp_open_def)

lemma sre_forward_open:
  assumes "tcp_open (sre_stream s)" "\<And>m. re_serialize ext m = Inr (enc m)"
  shows "sre_forward ext s ms =
    Ret (s\<lparr>sre_stream := (sre_stream s)\<lparr>tcp_out := tcp_out (sre_stream s) @
        concat (map enc (addressed_to (sre_user s) ms))\<rparr>\<rparr>, Inr ())"
  using assms(1)
proof (induction ms arbitrary: s)
  case Nil
  then show ?case by (simp add: addressed_to_def)
next
  case (Cons m ms)
  obtain tc where "m = ReToClient tc" by (cases m)
  with Cons show ?case
    by (simp add: addressed_to_def sre_send_message_def assms(2) tcp_write_all_open)
qed

lemma sre_spin_turn_Ret:
  assumes "sre_spin_turn ext s = Ret t"
  obtains s' r s2 where "sre_spin_once ext s = Ret (s', r)"
    "s2 = (if r = Inl Exit \<or> \<not> server_running s' then sre_shutdown s' else s')"
    "t = (if sre_shutting_down s2 then Break s2 else Continue s2)"
proof -
  from assms obtain s' r where once: "sre_spin_once ext s = Ret (s', r)"
    by (auto simp: sre_spin_turn_def rbind_Ret_iff)
  show thesis
    using assms once
    by (intro that [OF once refl])
      (auto simp: sre_spin_turn_def sre_shutdown_def Let_def split: sum.splits comm_error.splits)
qed

interpretation sre_stops: stoppable "sre_spin_turn ext" "\<lambda>s. \<not> server_running s"
  for ext :: "('r, 'be) sre_ext"
proof unfold_locales
  show "sre_spin_turn ext s \<noteq> Ret (Continue s')" if "\<not> server_running s" for s s'
  proof
    assume "sre_spin_turn ext s = Ret (Continue s')"
    then obtain s1 r s2 where once: "sre_spin_once ext s = Ret (s1, r)"
      and s2: "s2 = (if r = Inl Exit \<or> \<not> server_running s1 then sre_shutdown s1 else s1)"
      and t: "Continue s' = (if sre_shutting_down s2 then Break s2 else Continue s2)"
      by (rule sre_spin_turn_Ret)
    from sre_spin_once_frame [OF once] that have "\<not> server_running s1" by simp
    with s2 t show False by (simp add: sre_shutdown_def)
  qed
qed

lemma sre_spin_turn_returns:
  assumes "receiver (re_try_recv ext) pending connected" "\<not> tcp_may_block (sre_stream s)"
  shows "sre_spin_turn ext s \<noteq> Diverge"
proof -
  have "rtry (sre_forward ext (s\<lparr>sre_from_application := q\<rparr>) ms) (\<lambda>s2 _. sre_receive ext s2) \<noteq> Diverge" for q ms
  proof (rule rtry_returns)
    show "sre_forward ext (s\<lparr>sre_from_application := q\<rparr>) ms \<noteq> Diverge"
      using assms(2) by (simp add: sre_forward_returns tcp_may_block_def)
    show "sre_receive ext s1 \<noteq> Diverge"
      if "sre_forward ext (s\<lparr>sre_from_application := q\<rparr>) ms = Ret (s1, Inr u)" for s1 u
      using sre_forward_frame [OF that] assms(2) by (auto simp: sre_receive_Diverge_iff tcp_may_block_def tcp_arrivals_def)
  qed
  then have "sre_spin_once ext s \<noteq> Diverge"
    unfolding sre_spin_once_def
    by (intro rbind_returns receiver_drain_returns [OF assms(1)]) (auto simp: Let_def split: sum.splits)
  then show ?thesis
    unfolding sre_spin_turn_def by (intro rbind_returns) (auto simp: Let_def)
qed

subsection \<open>What a servicer writes\<close>

lemma addressed_to_simps [simp]:
  "addressed_to u [] = []"
  "addressed_to u (ReToClient tc # ms) = (if re_to tc = u then [re_payload tc] else []) @ addressed_to u ms"
  by (simp_all add: addressed_to_def)

lemma sre_forward_others: "addressed_to (sre_user s) ms = [] \<Longrightarrow> sre_forward ext s ms = Ret (s, Inr ())"
  by (induction ext s ms rule: sre_forward.induct) (auto split: if_splits)

lemma sre_receive_Ret:
  assumes "\<not> (tcp_in (sre_stream s) = [] \<and> \<not> tcp_in_closed (sre_stream s))"
  shows "\<exists>s' r. sre_receive ext s = Ret (s', r)"
proof (cases "tcp_read (sre_stream s) []")
  case (Ret p)
  then show ?thesis
    by (cases p) (auto simp: sre_receive_eq sre_handle_chat_message_def split: sum.split re_client_message.split prod.split)
qed (use assms tcp_read_not_Panic [of "sre_stream s" "[]"] in \<open>auto simp: tcp_read_Diverge_iff\<close>)

text \<open>
  A turn in which the queue is alive, the network takes all messages for the user, and
  something arrives or the client has closed the stream.
\<close>

lemma sre_spin_once_drained:
  assumes "receiver (re_try_recv ext) pending connected" "connected (sre_from_application s)"
    and "\<not> tcp_may_block (sre_stream s)"
    and "\<And>r'. sre_forward ext (s\<lparr>sre_from_application := r'\<rparr>) (pending (sre_from_application s)) =
      Ret (s\<lparr>sre_from_application := r', sre_stream := (sre_stream s)\<lparr>tcp_out := sent\<rparr>\<rparr>, Inr ())"
  shows "\<exists>s' r. sre_spin_once ext s = Ret (s', r) \<and> pending (sre_from_application s') = [] \<and>
    tcp_out (sre_stream s') = sent"
proof -
  let ?ms = "pending (sre_from_application s)"
  obtain r' where drain: "drain_spmc_receiver (re_try_recv ext) (sre_from_application s) = Ret (r', Inr ?ms)"
      "pending r' = []"
    using receiver.drain_connected [OF assms(1,2)] by blast
  let ?s1 = "s\<lparr>sre_from_application := r', sre_stream := (sre_stream s)\<lparr>tcp_out := sent\<rparr>\<rparr>"
  obtain s' r where receive: "sre_receive ext ?s1 = Ret (s', r)"
    using sre_receive_Ret [of ?s1 ext] assms(3) by (auto simp: tcp_may_block_def)
  then have "sre_spin_once ext s = Ret (s', r)"
    using drain(1) assms(4) [of r'] by (simp add: sre_spin_once_def)
  moreover from sre_receive_frame [OF receive] drain(2)
  have "pending (sre_from_application s') = [] \<and> tcp_out (sre_stream s') = sent" by (simp add: sre_fixed_def)
  ultimately show ?thesis by blast
qed

subsection \<open>A small instance\<close>

definition toy_re_ext :: "(sre_app_message mpsc, unit) sre_ext" where
  "toy_re_ext =
     \<lparr>re_try_recv = mpsc_try_recv,
      re_serialize = (\<lambda>m. Inr (case m of
        JoinResponse r \<Rightarrow> [0] | ServerChat c \<Rightarrow> 1 # map (\<lambda>ch. of_bool (ch = CHR ''a'')) (chat_text c))),
      re_deserialize = (\<lambda>bs. if bs = [] then Inl () else Inr (ClientChat ''hi''))\<rparr>"

definition toy_stream :: tcp_stream where
  "toy_stream = \<lparr>tcp_in = [Inr [1, 2, 3]], tcp_in_closed = False, tcp_out = [], tcp_write_script = [],
     tcp_out_stalled = False, tcp_peer = Inr (SockV4 1 1)\<rparr>"

definition toy_re_servicer :: "sre_app_message list \<Rightarrow> sre_app_message mpsc sre_servicer" where
  "toy_re_servicer ms =
     \<lparr>sre_stream = toy_stream, server_running = True, sre_to_application = mpsc_channel,
      sre_from_application = mpsc_channel\<lparr>queue := ms\<rparr>, sre_user = Username ''ann'',
      sre_shutting_down = False\<rparr>"

definition toy_chat :: "string \<Rightarrow> sre_app_message" where
  "toy_chat to = ReToClient \<lparr>re_to = Username to,
     re_payload = ServerChat \<lparr>chat_from = Username ''bob'', chat_text = ''a''\<rparr>\<rparr>"

lemmas toy_re_defs = toy_re_ext_def toy_stream_def toy_re_servicer_def toy_chat_def mpsc_channel_def

lemma toy_re_receiver: "receiver (re_try_recv toy_re_ext) queue sender_alive"
  using mpsc.receiver_axioms by (simp add: toy_re_ext_def)

subsection \<open>Properties\<close>

text \<open>
  C30: a servicer stops when the server does, if its client lets it. Once the flag
  \<open>server_running\<close> is cleared before some turn, the thread ends (it returns, or a panic ends it),
  whatever the client sends and the application does, provided that in no turn up to that one
  the client keeps the stream open and silent, or stops reading: the reads and writes of the
  stream wait for the client without a limit (see C40).
\<close>

theorem reliable_servicer_stops:
  assumes "receiver (re_try_recv ext) pending connected"
    and "\<And>s. \<not> server_running (env k s)"
    and "\<And>n s. n \<le> k \<Longrightarrow> \<not> tcp_may_block (sre_stream (env n s))"
  shows "sre_spin ext env s \<noteq> Diverge"
  using sre_stops.spin_stops [of env k ext s] sre_spin_turn_returns [OF assms(1)] assms(2,3)
  by (auto simp: sre_spin_def)

theorem reliable_servicer_stops_witness:
  "sre_spin toy_re_ext (\<lambda>n s. s\<lparr>sre_stream := toy_stream, server_running := n < 3\<rparr>) (toy_re_servicer []) \<noteq> Diverge"
  by (rule reliable_servicer_stops [OF toy_re_receiver, where k = 3])
    (simp_all add: tcp_may_block_def toy_stream_def)

text \<open>
  C32: nobody can join a server whose decoder rejects the empty input. The servicer reads into
  an empty vector, so it never sees a byte of the join request: for every stream \<open>new\<close> fails,
  without a confirmation being written and without the application being told of the client, or
  it waits for ever, which it does only on a client that does not close the stream.
\<close>

theorem join_never_succeeds:
  fixes ext :: "('r, 'be) sre_ext"
  assumes "re_deserialize ext [] = Inl e"
  shows "if sre_new ext stream running to_app from_app port = Diverge then \<not> tcp_in_closed stream
    else \<exists>stream' err. sre_new ext stream running to_app from_app port = Ret ((stream', to_app), Inl err) \<and>
      tcp_out stream' = tcp_out stream"
proof (cases "tcp_peer stream")
  case (Inr addr)
  show ?thesis
  proof (cases rule: wait_for_join_request_cases [of ext stream])
    case (joined s' cred)
    with assms show ?thesis by (simp add: expect_join_request_Inr)
  qed (use Inr in \<open>simp_all add: sre_new_def\<close>)
qed (simp add: sre_new_def)

theorem join_never_succeeds_witness:
  "\<exists>stream' err. sre_new toy_re_ext (toy_stream\<lparr>tcp_in_closed := True\<rparr>) True mpsc_channel
      (mpsc_channel :: sre_app_message mpsc) 5 = Ret ((stream', mpsc_channel), Inl err) \<and> tcp_out stream' = []"
  using join_never_succeeds [of toy_re_ext "()" "toy_stream\<lparr>tcp_in_closed := True\<rparr>" True mpsc_channel mpsc_channel 5]
  by (simp add: toy_re_defs split: if_splits)

text \<open>
  Messages for other users are consumed and lost. The servicers share one queue, and a
  message taken from it is gone for the others: a turn of a servicer empties the queue even
  when nothing in it is for its user, and then writes nothing.
\<close>

theorem messages_for_others_are_lost:
  assumes "receiver (re_try_recv ext) pending connected" "connected (sre_from_application s)"
    and "\<not> tcp_may_block (sre_stream s)"
    and "addressed_to (sre_user s) (pending (sre_from_application s)) = []"
  shows "\<exists>s' r. sre_spin_once ext s = Ret (s', r) \<and> pending (sre_from_application s') = [] \<and>
    tcp_out (sre_stream s') = tcp_out (sre_stream s)"
  by (rule sre_spin_once_drained [OF assms(1,2,3)]) (simp add: sre_forward_others assms(4))

theorem messages_for_others_are_lost_witness:
  "\<exists>s' r. sre_spin_once toy_re_ext (toy_re_servicer [toy_chat ''bob'', toy_chat ''eve'']) = Ret (s', r) \<and>
     queue (sre_from_application s') = [] \<and> tcp_out (sre_stream s') = []"
  using messages_for_others_are_lost [OF toy_re_receiver, of "toy_re_servicer [toy_chat ''bob'', toy_chat ''eve'']"]
  by (simp add: toy_re_defs tcp_may_block_def)

text \<open>
  The servicer delivers. When the network takes everything, one turn writes to the
  client, in order, the encodings of exactly those waiting messages that are meant for its user.
\<close>

theorem messages_for_user_are_written:
  assumes "receiver (re_try_recv ext) pending connected" "connected (sre_from_application s)"
    and "\<not> tcp_may_block (sre_stream s)"
    and "\<And>m. re_serialize ext m = Inr (enc m)" "tcp_open (sre_stream s)"
  shows "\<exists>s' r. sre_spin_once ext s = Ret (s', r) \<and> tcp_out (sre_stream s') = tcp_out (sre_stream s) @
    concat (map enc (addressed_to (sre_user s) (pending (sre_from_application s))))"
  using sre_spin_once_drained [OF assms(1-3)] assms(4,5) by (simp add: sre_forward_open) blast

theorem messages_for_user_are_written_witness:
  "\<exists>s' r. sre_spin_once toy_re_ext (toy_re_servicer [toy_chat ''ann'', toy_chat ''bob'', toy_chat ''ann'']) = Ret (s', r) \<and>
     tcp_out (sre_stream s') = [1, 1, 1, 1]"
proof -
  let ?enc = "\<lambda>m. case m of
        JoinResponse r \<Rightarrow> [0] | ServerChat c \<Rightarrow> 1 # map (\<lambda>ch. of_bool (ch = CHR ''a'')) (chat_text c)"
  have "re_serialize toy_re_ext m = Inr (?enc m)" for m by (simp add: toy_re_ext_def)
  from messages_for_user_are_written [OF toy_re_receiver _ _ this,
      of "toy_re_servicer [toy_chat ''ann'', toy_chat ''bob'', toy_chat ''ann'']"]
  show ?thesis by (simp add: toy_re_defs tcp_may_block_def tcp_open_def)
qed

text \<open>
  C34: a servicer speaks for its own user only. A turn adds at most one message to the queue of
  the application, and that is a chat message from the user the servicer was made for.
\<close>

theorem chat_provenance:
  assumes "sre_spin_once ext s = Ret (s', r)"
  shows "sre_user s' = sre_user s \<and>
    (queue (sre_to_application s') = queue (sre_to_application s) \<or>
     (\<exists>msg. queue (sre_to_application s') = queue (sre_to_application s) @
        [\<lparr>sm_from = sre_user s, sm_payload = PayloadChat msg\<rparr>]))"
  using sre_spin_once_queue [OF assms] sre_spin_once_frame [OF assms] by simp

theorem chat_provenance_witness:
  "\<exists>s' r. sre_spin_once toy_re_ext (toy_re_servicer []) = Ret (s', r) \<and> sre_user s' = Username ''ann''"
proof -
  have "sre_spin_once toy_re_ext (toy_re_servicer []) =
      Ret ((toy_re_servicer [])\<lparr>sre_stream := toy_stream\<rparr>, Inl (Warning (FailedToDeserialize ())))"
    by (simp add: sre_spin_once_def drain_spmc_receiver_def drain_receiver_mpsc sre_receive_eq
        tcp_read_def toy_re_defs)
  with chat_provenance [OF this] show ?thesis by (simp add: toy_re_defs)
qed

text \<open>
  C35: the listener. With the flag set for ever it never returns. It leaves its loop after the
  first iteration that finds the flag cleared; by then it has started one servicer for every
  connection accepted up to that iteration, in order, and no other. It then joins them in that
  order: it returns when all of them do; the first that does not decides, and the listener
  panics with a servicer that panicked and waits for ever for one that never ends. It fails only
  if the socket cannot be made non-blocking.
\<close>

theorem listen_spec:
  fixes spawn :: "'c \<Rightarrow> 't" and join :: "'t \<Rightarrow> unit rust"
  shows "listen (Inr ()) spawn join script =
     (if \<exists>(ev, running) \<in> set script. \<not> running
      then case dropWhile (\<lambda>t. join t = Ret ()) (map spawn (accepted (while_running script))) of
             [] \<Rightarrow> Ret (map spawn (accepted (while_running script)), Inr ())
           | t # _ \<Rightarrow> if join t = Panic then Panic else Diverge
      else Diverge) \<and>
   listen (Inl err) spawn join script = Ret ([], Inl err)"
proof -
  let ?threads = "map spawn (accepted (while_running script))"
  have "rbind (join_all join ?threads) (\<lambda>_. x) =
     (case dropWhile (\<lambda>t. join t = Ret ()) ?threads of
        [] \<Rightarrow> x | t # _ \<Rightarrow> if join t = Panic then Panic else Diverge)" for x :: "('t list \<times> (io_error + unit)) rust"
  proof (cases "dropWhile (\<lambda>t. join t = Ret ()) ?threads")
    case Nil
    then show ?thesis by (simp only: join_all_eq list.case rbind.simps)
  next
    case (Cons t rest)
    with hd_dropWhile [of "\<lambda>t. join t = Ret ()" ?threads] have "join t \<noteq> Ret ()" by simp
    with Cons show ?thesis by (cases "join t") (simp_all add: join_all_eq)
  qed
  then show ?thesis by (simp add: listen_eq listen_def [of "Inl err"])
qed

text \<open>
  C36: dropping a client does not end its servicer. While the server runs, every turn of the
  loop that returns is followed by another one: after an I/O failure, a second join request
  or the application's end hanging up, all of which are \<open>Drop\<close>, the thread goes on with the
  same stream. The \<open>Exit\<close> that would end it is never returned.
\<close>

theorem drop_does_not_end_servicer:
  assumes "sre_spin_once ext s = Ret (s', r)" "server_running s" "\<not> sre_shutting_down s"
  shows "r \<noteq> Inl Exit \<and> sre_spin_turn ext s = Ret (Continue s')"
  using sre_spin_once_frame [OF assms(1)] assms
  by (auto simp: sre_spin_turn_def Let_def split: sum.split comm_error.split)

theorem drop_does_not_end_servicer_witness:
  "\<exists>s'. sre_spin_turn toy_re_ext
     ((toy_re_servicer [])\<lparr>sre_from_application := mpsc_channel\<lparr>sender_alive := False\<rparr>\<rparr>) = Ret (Continue s')"
proof -
  let ?s = "(toy_re_servicer [])\<lparr>sre_from_application := mpsc_channel\<lparr>sender_alive := False\<rparr>\<rparr>"
  have "sre_spin_once toy_re_ext ?s = Ret (?s, Inl (Drop ApplicationThreadDisconnected))"
    by (simp add: sre_spin_once_def drain_spmc_receiver_def drain_receiver_mpsc toy_re_defs)
  from drop_does_not_end_servicer [OF this] show ?thesis by (simp add: toy_re_defs)
qed

text \<open>
  C40: one silent connection keeps the server from shutting down. A client that connects, sends
  nothing and does not close the stream leaves its thread waiting for the join request for ever;
  the listener joins every thread it has started, so once it comes to that one it never returns,
  although the flag has been cleared and however the other connections behave.
\<close>

theorem silent_client_blocks_listener:
  assumes "\<exists>(ev, running) \<in> set script. \<not> running"
    and "accepted (while_running script) = before @ c # after"
    and "\<And>d. d \<in> set before \<Longrightarrow> sre_thread ext (env d) True to_app from_app port d = Ret ()"
    and "tcp_peer c = Inr a" "tcp_in c = []" "\<not> tcp_in_closed c"
  shows "sre_thread ext (env c) True to_app from_app port c = Diverge \<and>
    listen (Inr ()) (\<lambda>c. sre_thread ext (env c) True to_app from_app port c) id script = Diverge"
proof -
  let ?thread = "\<lambda>c. sre_thread ext (env c) True to_app from_app port c"
  have "wait_for_join_request ext c = Diverge"
    using assms(5,6) by (simp add: wait_for_join_request.simps [of ext c] tcp_read_def)
  with assms(4) have silent: "?thread c = Diverge" by (simp add: sre_thread_def sre_new_def)
  have "\<forall>t \<in> set (map ?thread before). id t = Ret ()" using assms(3) by simp
  with silent have "dropWhile (\<lambda>t. id t = Ret ()) (map ?thread (before @ c # after)) = map ?thread (c # after)"
    by (subst map_append) (subst dropWhile_append2, auto)
  with silent assms(1,2) show ?thesis by (simp add: listen_eq join_all_eq)
qed

theorem silent_client_blocks_listener_witness:
  "listen (Inr ()) (\<lambda>c. sre_thread toy_re_ext (\<lambda>n s. s) True mpsc_channel (mpsc_channel :: sre_app_message mpsc) 5 c) id
     [(Inr toy_stream, True), (Inr (toy_stream\<lparr>tcp_in := []\<rparr>), False)] = Diverge"
proof -
  let ?thread = "\<lambda>c. sre_thread toy_re_ext (\<lambda>n s. s) True mpsc_channel (mpsc_channel :: sre_app_message mpsc) 5 c"
  have "?thread toy_stream = Ret ()"
    by (simp add: sre_thread_def sre_new_def wait_for_join_request.simps tcp_read_def expect_join_request_def toy_re_defs)
  with silent_client_blocks_listener [of "[(Inr toy_stream, True), (Inr (toy_stream\<lparr>tcp_in := []\<rparr>), False)]"
      "[toy_stream]" "toy_stream\<lparr>tcp_in := []\<rparr>" "[]" toy_re_ext "\<lambda>c n s. s" mpsc_channel mpsc_channel 5 "SockV4 1 1"]
  show ?thesis by (simp add: accepted_def) (simp add: toy_stream_def)
qed

end
