(* ===== verification/Handle.thy ===== *)
theory Handle
  imports Msg
begin

text \<open>
  The contract of the methods of the application-side handles (\<open>Server\<close> and \<open>Client\<close>):
  each tests a \<open>shutdown\<close> flag first, fails with \<open>Shutdown\<close> once it is set, sets it when it
  fails, and neither panics nor blocks. \<open>run_calls\<close> is a sequence of calls.
\<close>

primrec run_calls ::
  "('s \<Rightarrow> 'a \<Rightarrow> ('s \<times> (application_error + 'b)) rust) \<Rightarrow> 's \<Rightarrow> 'a list \<Rightarrow>
     ('s \<times> (application_error + 'b) list) rust" where
  "run_calls call s [] = Ret (s, [])"
| "run_calls call s (a # as) =
     rbind (call s a) (\<lambda>(s1, r). rbind (run_calls call s1 as) (\<lambda>(s2, rs). Ret (s2, r # rs)))"

locale latched_handle =
  fixes call :: "'s \<Rightarrow> 'a \<Rightarrow> ('s \<times> (application_error + 'b)) rust"
    and down :: "'s \<Rightarrow> bool"
  assumes refuses: "down s \<Longrightarrow> call s a = Ret (s, Inl Shutdown)"
    and answers: "\<not> down s \<Longrightarrow>
      (\<exists>s' x. call s a = Ret (s', Inr x) \<and> \<not> down s') \<or> (\<exists>s'. call s a = Ret (s', Inl Shutdown) \<and> down s')"
begin

lemma run_down: "down s \<Longrightarrow> run_calls call s as = Ret (s, replicate (length as) (Inl Shutdown))"
  by (induction as) (simp_all add: refuses)

text \<open>Successful calls, then refusals for ever.\<close>

lemma run_shape:
  "\<exists>s' xs n. run_calls call s as = Ret (s', map Inr xs @ replicate n (Inl Shutdown)) \<and>
     (down s' \<longleftrightarrow> down s \<or> n > 0)"
proof (induction as arbitrary: s)
  case Nil
  show ?case by (intro exI [of _ s] exI [of _ "[]"] exI [of _ 0]) simp
next
  case (Cons a as)
  show ?case
  proof (cases "down s")
    case True
    then show ?thesis
      by (intro exI [of _ s] exI [of _ "[]"] exI [of _ "Suc (length as)"]) (simp add: refuses run_down)
  next
    case up: False
    from answers [OF up, of a] show ?thesis
    proof (elim disjE exE conjE)
      fix s1 x assume call: "call s a = Ret (s1, Inr x)" "\<not> down s1"
      obtain s' xs n where "run_calls call s1 as = Ret (s', map Inr xs @ replicate n (Inl Shutdown))"
        "down s' \<longleftrightarrow> down s1 \<or> n > 0"
        using Cons.IH by blast
      with call up show ?thesis
        by (intro exI [of _ s'] exI [of _ "x # xs"] exI [of _ n]) simp
    next
      fix s1 assume "call s a = Ret (s1, Inl Shutdown)" "down s1"
      with up show ?thesis
        by (intro exI [of _ s1] exI [of _ "[]"] exI [of _ "Suc (length as)"]) (simp add: run_down)
    qed
  qed
qed

end

text \<open>
  A handle with several methods is a handle whose call is one of them: the contract passes from
  the methods to their sum.
\<close>

lemma latched_handle_sum:
  assumes "latched_handle f down" "latched_handle g down"
  shows "latched_handle (\<lambda>s. case_sum (f s) (g s)) down"
proof
  fix s a
  show "down s \<Longrightarrow> case_sum (f s) (g s) a = Ret (s, Inl Shutdown)"
    using assms by (cases a) (simp_all add: latched_handle.refuses)
  show "\<not> down s \<Longrightarrow> (\<exists>s' x. case_sum (f s) (g s) a = Ret (s', Inr x) \<and> \<not> down s') \<or>
      (\<exists>s'. case_sum (f s) (g s) a = Ret (s', Inl Shutdown) \<and> down s')"
    using latched_handle.answers [OF assms(1)] latched_handle.answers [OF assms(2)]
    by (cases a) simp_all
qed

text \<open>A method that gives a result of a type of its own.\<close>

definition tagged ::
  "('b \<Rightarrow> 'c) \<Rightarrow> ('s \<times> (application_error + 'b)) rust \<Rightarrow> ('s \<times> (application_error + 'c)) rust" where
  "tagged t m = rbind m (\<lambda>(s, r). Ret (s, map_sum id t r))"

lemma latched_handle_tagged:
  assumes "latched_handle f down"
  shows "latched_handle (\<lambda>s a. tagged t (f s a)) down"
proof
  fix s a
  show "down s \<Longrightarrow> tagged t (f s a) = Ret (s, Inl Shutdown)"
    by (simp add: tagged_def latched_handle.refuses [OF assms])
  show "\<not> down s \<Longrightarrow> (\<exists>s' x. tagged t (f s a) = Ret (s', Inr x) \<and> \<not> down s') \<or>
      (\<exists>s'. tagged t (f s a) = Ret (s', Inl Shutdown) \<and> down s')"
    using latched_handle.answers [OF assms, of s a] by (auto simp: tagged_def)
qed

end
