(* ===== verification/Server.thy ===== *)
theory Server
  imports ServerLowLatency ServerReliable Handle
begin

text \<open>
  \<^verbatim>\<open>src/server/mod.rs\<close>: the handle of the application thread. The sending ends of its two
  \<open>spmc\<close> queues have the abstract types \<open>'l\<close> and \<open>'t\<close>; their \<open>send\<close> operations are
  arguments of the methods that use them. The application's own low-latency servicer is kept
  as a field, as in the code. The join handle of the listener is left out: no method uses it,
  and dropping it detaches the thread.
\<close>

type_synonym ('q, 'm) send_fun = "'q \<Rightarrow> 'm \<Rightarrow> 'q \<times> ('m + unit)"

record ('r, 'm, 'l, 't) server =
  listener_kill_switch :: bool
  low_latency_servicer :: "('r, 'm) sll_servicer"
  from_servicer :: "servicer_message mpsc"
  to_low_latency_servicer :: 'l
  to_reliable_servicer :: 't
  srv_shutdown :: bool

text \<open>
  \<open>new\<close>: \<open>ll\<close> and \<open>re\<close> are the two fresh \<open>spmc\<close> channels (sender, receiver). It gives
  the server and what the listener is started with: the flag, the queue to the application,
  the receiver and the UDP port. Reading the port of a socket without an address panics.
\<close>

definition srv_new ::
  "('r, 'm, 'be) sll_ext \<Rightarrow> 'l \<times> 'r \<Rightarrow> 't \<times> 'u \<Rightarrow> udp_socket \<Rightarrow>
     (('r, 'm, 'l, 't) server \<times> (bool \<times> servicer_message mpsc \<times> 'u \<times> u16)) rust" where
  "srv_new ext ll re udp =
     (let from_serv = mpsc_channel;
          (to_rel, re_from_application) = re;
          (to_ll, ll_from_application) = ll
      in case udp_local udp of
           Inl e \<Rightarrow> Panic
         | Inr addr \<Rightarrow>
             Ret (\<lparr>listener_kill_switch = True,
                   low_latency_servicer = sll_new ext udp from_serv ll_from_application,
                   from_servicer = from_serv, to_low_latency_servicer = to_ll,
                   to_reliable_servicer = to_rel, srv_shutdown = False\<rparr>,
                  (True, from_serv, re_from_application, addr_port addr)))"

definition send_low_latency ::
  "('l, sll_app_message) send_fun \<Rightarrow> ('r, 'm, 'l, 't) server \<Rightarrow> sll_app_message \<Rightarrow>
     ('r, 'm, 'l, 't) server \<times> (application_error + unit)" where
  "send_low_latency send s msg =
     (if srv_shutdown s then (s, Inl Shutdown)
      else case send (to_low_latency_servicer s) msg of
        (q, Inl _) \<Rightarrow> (s\<lparr>to_low_latency_servicer := q, srv_shutdown := True\<rparr>, Inl Shutdown)
      | (q, Inr _) \<Rightarrow> (s\<lparr>to_low_latency_servicer := q\<rparr>, Inr ()))"

definition send_reliable ::
  "('t, sre_app_message) send_fun \<Rightarrow> ('r, 'm, 'l, 't) server \<Rightarrow> sre_app_message \<Rightarrow>
     ('r, 'm, 'l, 't) server \<times> (application_error + unit)" where
  "send_reliable send s msg =
     (if srv_shutdown s then (s, Inl Shutdown)
      else case send (to_reliable_servicer s) msg of
        (q, Inl _) \<Rightarrow> (s\<lparr>to_reliable_servicer := q, srv_shutdown := True\<rparr>, Inl Shutdown)
      | (q, Inr _) \<Rightarrow> (s\<lparr>to_reliable_servicer := q\<rparr>, Inr ()))"

text \<open>
  One step of the iterator \<open>receive_iter\<close> gives: it blocks while the queue is empty and a
  sender lives (the server's own low-latency servicer holds one), and ends when none does.
\<close>

definition receive_iter_next ::
  "('r, 'm, 'l, 't) server \<Rightarrow> (('r, 'm, 'l, 't) server \<times> servicer_message option) rust" where
  "receive_iter_next s =
     (case queue (from_servicer s) of
        m # ms \<Rightarrow> Ret (s\<lparr>from_servicer := (from_servicer s)\<lparr>queue := ms\<rparr>\<rparr>, Some m)
      | [] \<Rightarrow> if sender_alive (from_servicer s) then Diverge else Ret (s, None))"

text \<open>
  \<open>quit\<close> consumes the server: the flag the listener and the reliable servicers read is
  cleared and the sending ends are dropped (\<open>drop_ll\<close> and \<open>drop_re\<close> are what dropping an
  end does to its channel).
\<close>

definition srv_quit ::
  "('l \<Rightarrow> 'l) \<Rightarrow> ('t \<Rightarrow> 't) \<Rightarrow> ('r, 'm, 'l, 't) server \<Rightarrow> bool \<times> 'l \<times> 't" where
  "srv_quit drop_ll drop_re s =
     (False, drop_ll (to_low_latency_servicer s), drop_re (to_reliable_servicer s))"

subsection \<open>The handle after its first failure\<close>

interpretation srv_ll: latched_handle "\<lambda>s msg. Ret (send_low_latency send s msg)" srv_shutdown
  for send :: "('l, sll_app_message) send_fun"
  by unfold_locales (auto simp: send_low_latency_def split: prod.split sum.split)

interpretation srv_re: latched_handle "\<lambda>s msg. Ret (send_reliable send s msg)" srv_shutdown
  for send :: "('t, sre_app_message) send_fun"
  by unfold_locales (auto simp: send_reliable_def split: prod.split sum.split)

text \<open>The two sending methods of a server, as one operation.\<close>

definition server_call ::
  "('l, sll_app_message) send_fun \<Rightarrow> ('t, sre_app_message) send_fun \<Rightarrow> ('r, 'm, 'l, 't) server \<Rightarrow>
     sll_app_message + sre_app_message \<Rightarrow> (('r, 'm, 'l, 't) server \<times> (application_error + unit)) rust" where
  "server_call send_ll send_re s =
     case_sum (\<lambda>msg. Ret (send_low_latency send_ll s msg)) (\<lambda>msg. Ret (send_reliable send_re s msg))"

interpretation srv_any: latched_handle "server_call send_ll send_re" srv_shutdown
  for send_ll :: "('l, sll_app_message) send_fun" and send_re :: "('t, sre_app_message) send_fun"
  using latched_handle_sum [OF srv_ll.latched_handle_axioms srv_re.latched_handle_axioms]
  by (simp add: server_call_def [abs_def])

end
