(* ===== verification/ClientLowLatency.thy ===== *)
theory ClientLowLatency
  imports EventLoop
begin

text \<open>
  \<^verbatim>\<open>src/client/low_latency.rs\<close>: the UDP servicer of a client. It keeps the controller inputs
  the server has not acknowledged and sends all of them, compressed, in every turn.
  \<open>bincode\<close> is the record \<open>cll_ext\<close>.
\<close>

datatype cll_app_message = Control bitvec

datatype cll_servicer_message = ClientWorldState "byte list"

record 'be cll_ext =
  cll_serialize :: "ll_client_message \<Rightarrow> 'be + byte list"
  cll_deserialize :: "byte list \<Rightarrow> 'be + ll_server_message"

record cll_servicer =
  receive_buf :: "byte list"
  cll_socket :: udp_socket
  server_addr :: socket_addr
  self_addr :: socket_addr
  controller_seq :: controller_sequence
  cll_to_application :: "cll_servicer_message mpsc"
  cll_from_application :: "cll_app_message mpsc"

definition cll_connect ::
  "udp_socket \<Rightarrow> socket_addr \<Rightarrow> cll_servicer_message mpsc \<Rightarrow> cll_app_message mpsc \<Rightarrow>
     io_error + cll_servicer" where
  "cll_connect sock addr to_app from_app =
     (case udp_connect sock of
        Inl e \<Rightarrow> Inl e
      | Inr _ \<Rightarrow>
     (case udp_set_read_timeout sock of
        Inl e \<Rightarrow> Inl e
      | Inr _ \<Rightarrow>
     (case udp_local sock of
        Inl e \<Rightarrow> Inl e
      | Inr local_addr \<Rightarrow>
          Inr \<lparr>receive_buf = [], cll_socket = sock, server_addr = addr, self_addr = local_addr,
               controller_seq = cs_new, cll_to_application = to_app,
               cll_from_application = from_app\<rparr>)))"

definition cll_parse_server_message ::
  "cll_servicer \<Rightarrow> ll_server_message \<Rightarrow> (cll_servicer \<times> ('be comm_error + unit)) rust" where
  "cll_parse_server_message s m =
     (case m of
        WorldState state \<Rightarrow>
          (case mpsc_send (cll_to_application s) (ClientWorldState state) of
             (ch, res) \<Rightarrow>
               Ret (s\<lparr>cll_to_application := ch\<rparr>,
                    map_err (\<lambda>_. Drop ApplicationThreadDisconnected) res))
      | LastTickReceived tick \<Rightarrow>
          rbind (remove_till_tick (controller_seq s) tick) (\<lambda>cs.
          Ret (s\<lparr>controller_seq := cs\<rparr>, Inr ())))"

definition cll_forward_from_server_to_client ::
  "'be cll_ext \<Rightarrow> cll_servicer \<Rightarrow> (cll_servicer \<times> ('be comm_error + unit)) rust" where
  "cll_forward_from_server_to_client ext s =
     (case maybe_receive_udp (cll_socket s) of
        (sock', Inl e) \<Rightarrow> Ret (s\<lparr>cll_socket := sock'\<rparr>, Inl e)
      | (sock', Inr buf) \<Rightarrow>
          (let s1 = s\<lparr>cll_socket := sock'\<rparr> in
           if buf = [] then Ret (s1, Inr ())
           else case map_err (\<lambda>err. Warning (FailedToDeserialize err)) (cll_deserialize ext buf) of
             Inl e \<Rightarrow> Ret (s1, Inl e)
           | Inr server_message \<Rightarrow> cll_parse_server_message s1 server_message))"

fun cll_parse_application_messages :: "cll_servicer \<Rightarrow> cll_app_message list \<Rightarrow> cll_servicer" where
  "cll_parse_application_messages s [] = s"
| "cll_parse_application_messages s (Control controller_state # rest) =
     cll_parse_application_messages
       (s\<lparr>controller_seq := cs_push (controller_seq s) controller_state\<rparr>) rest"

definition cll_send_controller_inputs ::
  "'be cll_ext \<Rightarrow> cll_servicer \<Rightarrow> (cll_servicer \<times> ('be comm_error + unit)) rust" where
  "cll_send_controller_inputs ext s =
     (if \<not> cs_is_empty (controller_seq s) then
        rbind (to_compressed (controller_seq s)) (\<lambda>opt.
        case ok_or opt (Warning FailedToCompress) of
          Inl e \<Rightarrow> Ret (s, Inl e)
        | Inr payload \<Rightarrow>
            (case map_err (\<lambda>err. Warning (FailedToSerialize err))
                    (cll_serialize ext (ControllerInput payload)) of
               Inl e \<Rightarrow> Ret (s, Inl e)
             | Inr encoded \<Rightarrow>
                 if length encoded > MAX_PACKET_SIZE then Ret (s, Inl Exit)
                 else (case udp_send_to (cll_socket s) encoded (server_addr s) of
                         (sock', res) \<Rightarrow>
                           Ret (s\<lparr>cll_socket := sock'\<rparr>, map_err comm_error_from res))))
      else Ret (s, Inr ()))"

definition cll_forward_from_client_to_server ::
  "'be cll_ext \<Rightarrow> cll_servicer \<Rightarrow> (cll_servicer \<times> ('be comm_error + unit)) rust" where
  "cll_forward_from_client_to_server ext s =
     rbind (drain_mpsc_receiver (cll_from_application s)) (\<lambda>(ch, res).
       let s1 = s\<lparr>cll_from_application := ch\<rparr> in
       case res of
         Inr msg_vec \<Rightarrow>
           cll_send_controller_inputs ext (cll_parse_application_messages s1 msg_vec)
       | Inl _ \<Rightarrow> Ret (s1, Inl Exit))"

definition cll_spin_once ::
  "'be cll_ext \<Rightarrow> cll_servicer \<Rightarrow> (cll_servicer \<times> ('be comm_error + unit)) rust" where
  "cll_spin_once ext s =
     rtry (cll_forward_from_server_to_client ext s) (\<lambda>s1 _.
     rtry (cll_forward_from_client_to_server ext s1) (\<lambda>s2 _.
     Ret (s2, Inr ())))"

definition cll_spin_turn :: "'be cll_ext \<Rightarrow> cll_servicer \<Rightarrow> cll_servicer loop_turn rust" where
  "cll_spin_turn ext s =
     rbind (cll_spin_once ext s) (\<lambda>(s', res).
       case res of
         Inr _ \<Rightarrow> Ret (Continue s')
       | Inl (Warning warn) \<Rightarrow> Ret (Continue s')
       | Inl (Drop d) \<Rightarrow> Ret (Break s')
       | Inl Exit \<Rightarrow> Ret (Break s'))"

definition cll_spin ::
  "'be cll_ext \<Rightarrow> (nat \<Rightarrow> cll_servicer \<Rightarrow> cll_servicer) \<Rightarrow> cll_servicer \<Rightarrow> cll_servicer rust" where
  "cll_spin ext env s = spin_loop (cll_spin_turn ext) env s"

subsection \<open>Inputs from the application\<close>

definition control_states :: "cll_app_message list \<Rightarrow> bitvec list" where
  "control_states ms = map (\<lambda>m. case m of Control b \<Rightarrow> b) ms"

lemma parse_application_messages_eq:
  "cll_parse_application_messages s ms =
     s\<lparr>controller_seq := (controller_seq s)
        \<lparr>cs_seq := cs_seq (controller_seq s) @ control_states ms\<rparr>\<rparr>"
  by (induction s ms rule: cll_parse_application_messages.induct)
    (simp_all add: control_states_def cs_push_def)

lemma cll_forward_out_eq:
  "cll_forward_from_client_to_server ext s =
     (if sender_alive (cll_from_application s)
      then cll_send_controller_inputs ext
        (s\<lparr>cll_from_application := (cll_from_application s)\<lparr>queue := []\<rparr>,
           controller_seq := (controller_seq s)\<lparr>cs_seq := cs_seq (controller_seq s) @
             control_states (queue (cll_from_application s))\<rparr>\<rparr>)
      else Ret (s\<lparr>cll_from_application := (cll_from_application s)\<lparr>queue := []\<rparr>\<rparr>, Inl Exit))"
  by (simp add: cll_forward_from_client_to_server_def parse_application_messages_eq Let_def)

subsection \<open>Stopping\<close>

text \<open>The application has hung up and the network is silent.\<close>

definition cll_told_to_stop :: "cll_servicer \<Rightarrow> bool" where
  "cll_told_to_stop s \<longleftrightarrow> \<not> sender_alive (cll_from_application s) \<and> udp_in (cll_socket s) = []"

interpretation cll_stops: stoppable "cll_spin_turn ext" cll_told_to_stop
  for ext :: "'be cll_ext"
proof unfold_locales
  show "cll_spin_turn ext s \<noteq> Ret (Continue s')" if "cll_told_to_stop s" for s s'
    using that
    by (simp add: cll_told_to_stop_def cll_spin_turn_def cll_spin_once_def
        cll_forward_from_server_to_client_def maybe_receive_udp_eq cll_forward_out_eq)
qed

subsection \<open>One turn always ends\<close>

lemma cll_parse_server_message_returns [returns]: "cll_parse_server_message s m \<noteq> Diverge"
  by (auto simp: cll_parse_server_message_def outcome_simps returns split: ll_server_message.split prod.split)

lemma cll_forward_in_returns [returns]: "cll_forward_from_server_to_client ext s \<noteq> Diverge"
  by (auto simp: cll_forward_from_server_to_client_def Let_def returns map_err_def split: prod.split sum.split)

lemma cll_send_controller_inputs_returns [returns]: "cll_send_controller_inputs ext s \<noteq> Diverge"
  unfolding cll_send_controller_inputs_def
  by (intro if_returns rbind_returns) (auto simp: returns split: sum.split prod.split)

lemma cll_forward_out_returns [returns]: "cll_forward_from_client_to_server ext s \<noteq> Diverge"
  by (simp add: cll_forward_out_eq returns)

lemma cll_spin_once_returns [returns]: "cll_spin_once ext s \<noteq> Diverge"
  unfolding cll_spin_once_def by (intro rtry_returns) (simp_all add: returns)

lemma cll_spin_turn_returns [returns]: "cll_spin_turn ext s \<noteq> Diverge"
  unfolding cll_spin_turn_def
  by (intro rbind_returns) (auto simp: returns split: sum.splits comm_error.splits)

lemma cll_drained:
  "queue (cll_from_application s) = [] \<Longrightarrow>
     s\<lparr>cll_from_application := (cll_from_application s)\<lparr>queue := []\<rparr>\<rparr> = (s :: cll_servicer)"
  by (cases s; cases "cll_from_application s") simp

text \<open>Sending a sequence the coder accepts.\<close>

lemma cll_send_encodable:
  assumes "encodable n (controller_seq s)" "cs_seq (controller_seq s) \<noteq> []"
    and "to_compressed (controller_seq s) = Ret (Some p)"
    and "cll_serialize ext (ControllerInput p) = Inr bs"
  shows "cll_send_controller_inputs ext s =
    (if length bs > MAX_PACKET_SIZE then Ret (s, Inl Exit)
     else Ret (s\<lparr>cll_socket := fst (udp_send_to (cll_socket s) bs (server_addr s))\<rparr>,
               map_err comm_error_from (snd (udp_send_to (cll_socket s) bs (server_addr s)))))"
  using assms by (simp add: cll_send_controller_inputs_def cs_is_empty_def case_prod_beta)

subsection \<open>What one turn does\<close>

text \<open>
  The part of a servicer that a turn never changes, and the two halves of a turn: an
  acknowledgment may shorten the sequence from its front; then the application's inputs are
  taken, and all inputs are sent in at most one datagram.
\<close>

definition cll_fixed :: "cll_servicer \<Rightarrow> socket_addr \<times> socket_addr" where
  "cll_fixed s = (server_addr s, self_addr s)"

lemma cll_forward_in_cases:
  fixes ext :: "'be cll_ext"
  assumes "cll_forward_from_server_to_client ext s = Ret (s', r)"
  shows "cll_fixed s' = cll_fixed s \<and> cll_from_application s' = cll_from_application s \<and>
    udp_out (cll_socket s') = udp_out (cll_socket s) \<and>
    (\<exists>j. cs_seq (controller_seq s') = drop j (cs_seq (controller_seq s)))"
proof -
  obtain sock and res :: "'be comm_error + byte list"
    where recv: "maybe_receive_udp (cll_socket s) = (sock, res)" by fastforce
  then have out: "udp_out sock = udp_out (cll_socket s)"
    by (auto simp: maybe_receive_udp_eq split: list.splits sum.splits)
  let ?s = "s\<lparr>cll_socket := sock\<rparr>"
  have same: "\<exists>j. cs_seq (controller_seq s) = drop j (cs_seq (controller_seq s))"
    by (rule exI [of _ 0]) simp
  have "s' = ?s \<or> (\<exists>m. cll_parse_server_message ?s m = Ret (s', r))"
    using assms recv
    by (auto simp: cll_forward_from_server_to_client_def Let_def map_err_def split: sum.splits if_splits)
  then show ?thesis
  proof (elim disjE exE)
    fix m assume parse: "cll_parse_server_message ?s m = Ret (s', r)"
    show ?thesis
    proof (cases m)
      case (WorldState w)
      with parse out same show ?thesis
        by (auto simp: cll_parse_server_message_def cll_fixed_def split: prod.splits)
    next
      case (LastTickReceived tick)
      with parse obtain cs where "remove_till_tick (controller_seq s) tick = Ret cs"
        "s' = ?s\<lparr>controller_seq := cs\<rparr>"
        by (auto simp: cll_parse_server_message_def rbind_Ret_iff)
      with out remove_till_tick_drop [of "controller_seq s" tick cs] show ?thesis
        by (simp add: cll_fixed_def)
    qed
  qed (use out same in \<open>simp add: cll_fixed_def\<close>)
qed

text \<open>What a datagram with inputs holds: the code of the whole sequence, in one packet.\<close>

definition cll_packet :: "'be cll_ext \<Rightarrow> controller_sequence \<Rightarrow> byte list \<Rightarrow> bool" where
  "cll_packet ext cs bs \<longleftrightarrow>
     (\<exists>p. to_compressed cs = Ret (Some p) \<and> cll_serialize ext (ControllerInput p) = Inr bs) \<and>
     length bs \<le> MAX_PACKET_SIZE"

lemma cll_send_cases:
  assumes "cll_send_controller_inputs ext s = Ret (s', r)"
  shows "cll_fixed s' = cll_fixed s \<and> cll_from_application s' = cll_from_application s \<and>
    cll_to_application s' = cll_to_application s \<and>
    controller_seq s' = controller_seq s \<and>
    (udp_out (cll_socket s') = udp_out (cll_socket s) \<or>
     (\<exists>bs. cll_packet ext (controller_seq s) bs \<and>
        udp_out (cll_socket s') = udp_out (cll_socket s) @ [(bs, server_addr s)]))"
proof (cases "cs_is_empty (controller_seq s)")
  case True
  with assms show ?thesis by (simp add: cll_send_controller_inputs_def)
next
  case False
  with assms obtain opt where opt: "to_compressed (controller_seq s) = Ret opt"
    by (auto simp: cll_send_controller_inputs_def rbind_Ret_iff)
  show ?thesis
  proof (cases opt)
    case None
    with assms False opt show ?thesis by (simp add: cll_send_controller_inputs_def)
  next
    case (Some p)
    show ?thesis
    proof (cases "cll_serialize ext (ControllerInput p)")
      case (Inl e)
      with assms False opt Some show ?thesis by (simp add: cll_send_controller_inputs_def)
    next
      case (Inr bs)
      obtain sock res where send: "udp_send_to (cll_socket s) bs (server_addr s) = (sock, res)" by fastforce
      then have "udp_out sock = udp_out (cll_socket s) \<or>
          udp_out sock = udp_out (cll_socket s) @ [(bs, server_addr s)]"
        by (auto simp: udp_send_to_def split: list.splits option.splits)
      with assms False opt Some Inr send show ?thesis
        by (cases "length bs > MAX_PACKET_SIZE")
          (auto simp: cll_send_controller_inputs_def cll_packet_def cll_fixed_def)
    qed
  qed
qed

lemma cll_spin_once_cases:
  assumes "cll_spin_once ext s = Ret (s', r)"
  obtains (kept) j where "cll_fixed s' = cll_fixed s" "udp_out (cll_socket s') = udp_out (cll_socket s)"
      "cs_seq (controller_seq s') = drop j (cs_seq (controller_seq s))"
      "cll_from_application s' = cll_from_application s \<or>
       (\<not> sender_alive (cll_from_application s) \<and>
        cll_from_application s' = (cll_from_application s)\<lparr>queue := []\<rparr>)"
  | (taken) j where "cll_fixed s' = cll_fixed s"
      "sender_alive (cll_from_application s)"
      "cll_from_application s' = (cll_from_application s)\<lparr>queue := []\<rparr>"
      "cs_seq (controller_seq s') = drop j (cs_seq (controller_seq s)) @
         control_states (queue (cll_from_application s))"
      "udp_out (cll_socket s') = udp_out (cll_socket s) \<or>
       (\<exists>bs. cll_packet ext (controller_seq s') bs \<and>
          udp_out (cll_socket s') = udp_out (cll_socket s) @ [(bs, server_addr s)])"
proof -
  from assms obtain s1 r1 where first: "cll_forward_from_server_to_client ext s = Ret (s1, r1)"
    by (auto simp: cll_spin_once_def rtry_Ret_iff)
  from cll_forward_in_cases [OF first] obtain j where
    f: "cll_fixed s1 = cll_fixed s" "cll_from_application s1 = cll_from_application s"
      "udp_out (cll_socket s1) = udp_out (cll_socket s)"
      "cs_seq (controller_seq s1) = drop j (cs_seq (controller_seq s))" by blast
  show thesis
  proof (cases r1)
    case (Inl e)
    with assms first have "s' = s1" by (simp add: cll_spin_once_def)
    with f kept show thesis by simp
  next
    case (Inr u)
    with assms first have second: "cll_forward_from_client_to_server ext s1 = Ret (s', r)"
      by (auto simp: cll_spin_once_def rtry_Ret_iff)
    show thesis
    proof (cases "sender_alive (cll_from_application s1)")
      case False
      with second have "s' = s1\<lparr>cll_from_application := (cll_from_application s1)\<lparr>queue := []\<rparr>\<rparr>"
        by (simp add: cll_forward_out_eq)
      with f False kept [of j] show thesis by (simp add: cll_fixed_def)
    next
      case True
      let ?s2 = "s1\<lparr>cll_from_application := (cll_from_application s1)\<lparr>queue := []\<rparr>,
        controller_seq := (controller_seq s1)\<lparr>cs_seq := cs_seq (controller_seq s1) @
          control_states (queue (cll_from_application s1))\<rparr>\<rparr>"
      from True second have "cll_send_controller_inputs ext ?s2 = Ret (s', r)"
        by (simp add: cll_forward_out_eq)
      from cll_send_cases [OF this] f True show thesis
        by (intro taken [of j]) (auto simp: cll_fixed_def)
    qed
  qed
qed

text \<open>A servicer at rest, to apply the properties to.\<close>

definition toy_client :: "controller_sequence \<Rightarrow> cll_servicer" where
  "toy_client cs =
     \<lparr>receive_buf = [], cll_socket = \<lparr>udp_in = [], udp_out = [], udp_send_script = [],
        udp_local = Inr (SockV4 0 0), udp_set_nonblocking = Inr (), udp_set_read_timeout = Inr (),
        udp_connect = Inr ()\<rparr>, server_addr = SockV4 0 0, self_addr = SockV4 1 1,
      controller_seq = cs, cll_to_application = mpsc_channel, cll_from_application = mpsc_channel\<rparr>"

subsection \<open>Properties\<close>

text \<open>
  C31: the client's servicer stops when its application does. If before some turn the
  application drops its end of the queue and no datagram is waiting, the thread ends (it
  returns, or a panic ends it).
\<close>

theorem client_servicer_stops:
  assumes "\<And>s. cll_told_to_stop (env k s)"
  shows "cll_spin ext env s \<noteq> Diverge"
  using cll_stops.spin_stops [of env k ext s] assms by (simp add: cll_spin_def returns)

theorem client_servicer_stops_witness:
  "cll_spin \<lparr>cll_serialize = (\<lambda>m. Inr [0]), cll_deserialize = (\<lambda>bs. Inl ())\<rparr> (\<lambda>n s. if n = 2 then s\<lparr>cll_from_application := mpsc_channel\<lparr>sender_alive := False\<rparr>,
      cll_socket := (cll_socket s)\<lparr>udp_in := []\<rparr>\<rparr> else s)
     (toy_client \<lparr>start_tick = 0, cs_seq = [bitvec_of [True]]\<rparr>) \<noteq> Diverge"
  by (rule client_servicer_stops [where k = 2]) (simp add: cll_told_to_stop_def)

text \<open>
  Inputs that no longer fit a packet end the connection. When the encoding of all
  unacknowledged inputs is longer than \<open>MAX_PACKET_SIZE\<close>, nothing is sent, no input is
  dropped, and the loop ends.
\<close>

theorem oversize_inputs_end_servicer:
  assumes "cs_seq (controller_seq s) \<noteq> []" "to_compressed (controller_seq s) = Ret (Some p)"
    and "cll_serialize ext (ControllerInput p) = Inr bs" "MAX_PACKET_SIZE < length bs"
    and "sender_alive (cll_from_application s)" "queue (cll_from_application s) = []"
    and "udp_in (cll_socket s) = []"
  shows "cll_spin_turn ext s = Ret (Break s)"
proof -
  have "cll_send_controller_inputs ext s = Ret (s, Inl Exit)"
    using assms by (simp add: cll_send_controller_inputs_def cs_is_empty_def)
  with assms(5,6) have "cll_forward_from_client_to_server ext s = Ret (s, Inl Exit)"
    by (simp add: cll_forward_out_eq control_states_def cll_drained)
  with assms(7) show ?thesis
    by (simp add: cll_spin_turn_def cll_spin_once_def cll_forward_from_server_to_client_def
        maybe_receive_udp_eq)
qed

lemma encodable_two: "encodable 1 \<lparr>start_tick = 0, cs_seq = [bitvec_of [True], bitvec_of [True]]\<rparr>"
  by (simp add: encodable_def uniform_inputs_def)

theorem oversize_inputs_end_servicer_witness:
  "cll_spin_turn \<lparr>cll_serialize = (\<lambda>m. Inr (replicate 2000 0)), cll_deserialize = (\<lambda>bs. Inl ())\<rparr>
     (toy_client \<lparr>start_tick = 0, cs_seq = [bitvec_of [True], bitvec_of [True]]\<rparr>) =
   Ret (Break (toy_client \<lparr>start_tick = 0, cs_seq = [bitvec_of [True], bitvec_of [True]]\<rparr>))"
  by (rule oversize_inputs_end_servicer [where bs = "replicate 2000 0"])
    (simp_all add: toy_client_def mpsc_channel_def MAX_PACKET_SIZE_def to_compressed_encodable [OF encodable_two])

end
