(* ===== verification/ClientReliable.thy ===== *)
theory ClientReliable
  imports EventLoop
begin

text \<open>
  \<^verbatim>\<open>src/client/reliable.rs\<close>: the TCP servicer of a client. \<open>bincode\<close> is the record \<open>cre_ext\<close>.
\<close>

datatype cre_app_message = AppChat string

datatype cre_servicer_message = ServicerChat chat_message

record 'be cre_ext =
  cre_serialize :: "re_client_message \<Rightarrow> 'be + byte list"
  cre_deserialize :: "byte list \<Rightarrow> 'be + re_server_message"

record cre_servicer =
  cre_stream :: tcp_stream
  cre_to_application :: "cre_servicer_message mpsc"
  cre_from_application :: "cre_app_message mpsc"
  cre_server_udp_port :: "u16 option"

definition receive_server_message ::
  "'be cre_ext \<Rightarrow> tcp_stream \<Rightarrow> (tcp_stream \<times> ('be comm_error + re_server_message)) rust" where
  "receive_server_message ext stream =
     rbind (tcp_read stream []) (\<lambda>(stream', r).
       case r of
         Inl err \<Rightarrow> Ret (stream', Inl (comm_error_from err))
       | Inr (bytes, buf) \<Rightarrow>
           Ret (stream',
             if bytes = 0 then Inl Exit
             else map_err (\<lambda>err. Warning (FailedToDeserialize err)) (cre_deserialize ext buf)))"

definition cre_handle_join_response ::
  "cre_servicer \<Rightarrow> join_response \<Rightarrow> cre_servicer \<times> ('be comm_error + unit)" where
  "cre_handle_join_response s response =
     (case response of
        Confirmation port \<Rightarrow> (s\<lparr>cre_server_udp_port := Some port\<rparr>, Inr ())
      | AuthenticationError \<Rightarrow> (s, Inl Exit))"

definition cre_handle_chat_message ::
  "cre_servicer \<Rightarrow> chat_message \<Rightarrow> cre_servicer \<times> ('be comm_error + unit)" where
  "cre_handle_chat_message s chat =
     (case mpsc_send (cre_to_application s) (ServicerChat chat) of
        (ch, res) \<Rightarrow>
          (s\<lparr>cre_to_application := ch\<rparr>, map_err (\<lambda>_. Drop ApplicationThreadDisconnected) res))"

definition cre_spin_once ::
  "'be cre_ext \<Rightarrow> cre_servicer \<Rightarrow> (cre_servicer \<times> ('be comm_error + unit)) rust" where
  "cre_spin_once ext s =
     rbind (receive_server_message ext (cre_stream s)) (\<lambda>(stream', r).
       case r of
         Inl e \<Rightarrow> Ret (s\<lparr>cre_stream := stream'\<rparr>, Inl e)
       | Inr (JoinResponse response) \<Rightarrow>
           Ret (cre_handle_join_response (s\<lparr>cre_stream := stream'\<rparr>) response)
       | Inr (ServerChat chat) \<Rightarrow>
           Ret (cre_handle_chat_message (s\<lparr>cre_stream := stream'\<rparr>) chat))"

partial_function (option) cre_connect_loop ::
  "'be cre_ext \<Rightarrow> cre_servicer \<Rightarrow> (cre_servicer \<times> ('be comm_error + unit)) rust option" where
  "cre_connect_loop ext s =
     (case cre_spin_once ext s of
        Panic \<Rightarrow> Some Panic
      | Diverge \<Rightarrow> Some Diverge
      | Ret turn \<Rightarrow>
     (case turn of (s', r) \<Rightarrow>
     (case r of
        Inr _ \<Rightarrow>
          (case cre_server_udp_port s' of
             Some _ \<Rightarrow> Some (Ret (s', Inr ()))
           | None \<Rightarrow> cre_connect_loop ext s')
      | Inl e \<Rightarrow> Some (Ret (s', Inl e)))))"

text \<open>\<open>connect\<close>, with the servicer as the loop leaves it.\<close>

definition cre_connect ::
  "'be cre_ext \<Rightarrow> credentials \<Rightarrow> socket_addr \<Rightarrow> tcp_stream \<Rightarrow> cre_servicer_message mpsc \<Rightarrow>
     cre_app_message mpsc \<Rightarrow> (tcp_stream \<times> ('be comm_error + cre_servicer)) rust" where
  "cre_connect ext cred addr stream to_app from_app =
     (case map_err (\<lambda>err. Warning (FailedToSerialize err)) (cre_serialize ext (JoinRequest cred)) of
        Inl e \<Rightarrow> Ret (stream, Inl e)
      | Inr encoded_request \<Rightarrow>
          rbind (tcp_write stream encoded_request) (\<lambda>(stream1, r).
          case r of
            Inl e \<Rightarrow> Ret (stream1, Inl (comm_error_from e))
          | Inr _ \<Rightarrow>
              rbind (loop_outcome (cre_connect_loop ext
                \<lparr>cre_stream = stream1, cre_to_application = to_app,
                 cre_from_application = from_app, cre_server_udp_port = None\<rparr>)) (\<lambda>(s, res).
                Ret (cre_stream s, case res of Inl e \<Rightarrow> Inl e | Inr _ \<Rightarrow> Inr s))))"

text \<open>
  \<open>spin\<close> paces itself with \<open>Instant::now() - time_of_next_tick\<close>. What subtracting a later
  instant does depends on the release of the standard library (older ones panic, newer ones
  give zero), so \<open>instant_sub\<close> is an argument. Times are in milliseconds; the period
  \<open>(1000.0 / 60.0) as u64\<close> is 16.
\<close>

record cre_loop =
  lp_servicer :: cre_servicer
  lp_now :: nat
  time_of_next_tick :: nat

definition cre_spin_turn ::
  "'be cre_ext \<Rightarrow> (nat \<Rightarrow> nat \<Rightarrow> nat rust) \<Rightarrow> cre_loop \<Rightarrow> cre_loop loop_turn rust" where
  "cre_spin_turn ext instant_sub l =
     rbind (cre_spin_once ext (lp_servicer l)) (\<lambda>(s', r).
       case r of
         Inl _ \<Rightarrow> Ret (Break (l\<lparr>lp_servicer := s'\<rparr>))
       | Inr _ \<Rightarrow>
           rbind (instant_sub (lp_now l) (time_of_next_tick l)) (\<lambda>d.
             let now = lp_now l + d
             in Ret (Continue \<lparr>lp_servicer = s', lp_now = now, time_of_next_tick = now + 16\<rparr>)))"

definition cre_spin ::
  "'be cre_ext \<Rightarrow> (nat \<Rightarrow> nat \<Rightarrow> nat rust) \<Rightarrow> (nat \<Rightarrow> cre_loop \<Rightarrow> cre_loop) \<Rightarrow> nat \<Rightarrow> cre_servicer \<Rightarrow>
     cre_loop rust" where
  "cre_spin ext instant_sub env now s =
     spin_loop (cre_spin_turn ext instant_sub) env
       \<lparr>lp_servicer = s, lp_now = now, time_of_next_tick = now + 16\<rparr>"

subsection \<open>What the servicer receives\<close>

text \<open>The read fills an empty vector, so no message of the server is ever received.\<close>

lemma receive_server_message_cases:
  obtains (blocks) "receive_server_message ext stream = Diverge" "tcp_in stream = []" "\<not> tcp_in_closed stream"
  | (error) stream' e where "receive_server_message ext stream = Ret (stream', Inl e)"
proof (cases rule: tcp_read_cases [of stream "[]"])
  case blocks
  with that(1) show thesis by (simp add: receive_server_message_def)
next
  case (returns stream' r)
  with that(2) show thesis
    using tcp_read_empty_Inr [of stream stream'] by (cases r) (auto simp: receive_server_message_def)
qed

lemma cre_spin_once_cases:
  obtains (blocks) "cre_spin_once ext s = Diverge" "tcp_in (cre_stream s) = []" "\<not> tcp_in_closed (cre_stream s)"
  | (error) stream' e where "cre_spin_once ext s = Ret (s\<lparr>cre_stream := stream'\<rparr>, Inl e)"
  by (cases rule: receive_server_message_cases [of ext "cre_stream s"]) (auto simp: cre_spin_once_def)

lemma cre_connect_loop_cases:
  obtains (blocks) "cre_connect_loop ext s = Some Diverge" "tcp_in (cre_stream s) = []"
      "\<not> tcp_in_closed (cre_stream s)"
  | (error) s' e where "cre_connect_loop ext s = Some (Ret (s', Inl e))"
  by (cases rule: cre_spin_once_cases [of ext s]) (auto simp: cre_connect_loop.simps [of ext s])

lemma cre_connect_cases:
  obtains (blocks) "cre_connect ext cred addr stream to_app from_app = Diverge" "tcp_may_block stream"
  | (error) stream' e where "cre_connect ext cred addr stream to_app from_app = Ret (stream', Inl e)"
proof (cases "cre_serialize ext (JoinRequest cred)")
  case (Inl e)
  with error show thesis by (simp add: cre_connect_def)
next
  case (Inr bs)
  show thesis
  proof (cases "tcp_write stream bs")
    case Panic
    with tcp_write_not_Panic show thesis by blast
  next
    case Diverge
    with Inr blocks tcp_write_returns [of stream bs] show thesis
      by (auto simp: cre_connect_def tcp_may_block_def)
  next
    case (Ret p)
    obtain stream1 r where p: "p = (stream1, r)" by fastforce
    let ?s = "\<lparr>cre_stream = stream1, cre_to_application = to_app, cre_from_application = from_app,
      cre_server_udp_port = None\<rparr>"
    show thesis
    proof (cases r)
      case (Inl e)
      with Inr Ret p error show thesis by (simp add: cre_connect_def)
    next
      case written: (Inr n)
      show thesis
      proof (cases rule: cre_connect_loop_cases [of ext ?s])
        case blocks
        with Inr Ret p written that(1) tcp_write_frame [of stream bs stream1 r] show thesis
          by (simp add: cre_connect_def loop_outcome_def tcp_may_block_def)
      next
        case (error s' e)
        with Inr Ret p written that(2) show thesis by (simp add: cre_connect_def loop_outcome_def)
      qed
    qed
  qed
qed

interpretation cre_stops: stoppable "cre_spin_turn ext instant_sub" "\<lambda>l. True"
  for ext :: "'be cre_ext" and instant_sub
proof unfold_locales
  show "cre_spin_turn ext instant_sub l \<noteq> Ret (Continue l')" for l l'
    by (cases rule: cre_spin_once_cases [of ext "lp_servicer l"]) (simp_all add: cre_spin_turn_def)
qed

end
