(* ===== verification/Client.thy ===== *)
theory Client
  imports ClientLowLatency ClientReliable Handle
begin

text \<open>
  \<^verbatim>\<open>src/client/mod.rs\<close>: the handle of the client's application thread. The results of
  \<open>UdpSocket::bind\<close> and \<open>TcpStream::connect\<close> are arguments of \<open>connect\<close>.
\<close>

record client =
  cl_seq :: controller_sequence
  chat_history :: "chat_message list"
  world_state :: "byte list option"
  cl_shutdown :: bool
  from_reliable_servicer :: "cre_servicer_message mpsc"
  cl_to_reliable_servicer :: "cre_app_message mpsc"
  from_low_latency_servicer :: "cll_servicer_message mpsc"
  cl_to_low_latency_servicer :: "cll_app_message mpsc"

text \<open>\<open>connect\<close> also gives the two servicers it starts.\<close>

definition cl_connect ::
  "'be cre_ext \<Rightarrow> (io_error + udp_socket) \<Rightarrow> (io_error + tcp_stream) \<Rightarrow> string \<Rightarrow> string \<Rightarrow>
     socket_addr \<Rightarrow> ('be comm_error + client \<times> cre_servicer \<times> cll_servicer) rust" where
  "cl_connect ext bind_result connect_result user pass addr =
     (let from_re_servicer = mpsc_channel; to_re_servicer = mpsc_channel in
      case map_err comm_error_from bind_result of
        Inl e \<Rightarrow> Ret (Inl e)
      | Inr udp \<Rightarrow>
     (case map_err comm_error_from (udp_local udp) of
        Inl e \<Rightarrow> Ret (Inl e)
      | Inr local_udp_addr \<Rightarrow>
     (let cred = \<lparr>cr_username = Username user, password = pass, udp_port = addr_port local_udp_addr\<rparr> in
      case map_err comm_error_from connect_result of
        Inl e \<Rightarrow> Ret (Inl e)
      | Inr stream \<Rightarrow>
          rbind (cre_connect ext cred addr stream from_re_servicer to_re_servicer) (\<lambda>(stream', r).
          case r of
            Inl e \<Rightarrow> Ret (Inl e)
          | Inr re \<Rightarrow>
              (case cre_server_udp_port re of
                 None \<Rightarrow> Panic
               | Some server_udp_port \<Rightarrow>
                   (let from_ll_servicer = mpsc_channel; to_ll_servicer = mpsc_channel in
                    case map_err comm_error_from
                      (cll_connect udp (set_port addr server_udp_port) from_ll_servicer to_ll_servicer) of
                      Inl e \<Rightarrow> Ret (Inl e)
                    | Inr ll \<Rightarrow>
                        Ret (Inr (\<lparr>cl_seq = cs_new, chat_history = [], world_state = None,
                            cl_shutdown = False, from_reliable_servicer = from_re_servicer,
                            cl_to_reliable_servicer = to_re_servicer,
                            from_low_latency_servicer = from_ll_servicer,
                            cl_to_low_latency_servicer = to_ll_servicer\<rparr>, re, ll))))))))"

text \<open>\<open>quit\<close>: the four queue ends as dropping the client leaves them.\<close>

definition cl_quit ::
  "client \<Rightarrow> cre_servicer_message mpsc \<times> cre_app_message mpsc \<times> cll_servicer_message mpsc \<times>
     cll_app_message mpsc" where
  "cl_quit c =
     ((from_reliable_servicer c)\<lparr>receiver_end := False\<rparr>,
      (cl_to_reliable_servicer c)\<lparr>sender_alive := False\<rparr>,
      (from_low_latency_servicer c)\<lparr>receiver_end := False\<rparr>,
      (cl_to_low_latency_servicer c)\<lparr>sender_alive := False\<rparr>)"

definition send_controller_input :: "client \<Rightarrow> bitvec \<Rightarrow> client \<times> (application_error + unit)" where
  "send_controller_input c controller_input =
     (if cl_shutdown c then (c, Inl Shutdown)
      else case mpsc_send (cl_to_low_latency_servicer c) (Control controller_input) of
        (ch, Inl _) \<Rightarrow> (c\<lparr>cl_to_low_latency_servicer := ch, cl_shutdown := True\<rparr>, Inl Shutdown)
      | (ch, Inr _) \<Rightarrow> (c\<lparr>cl_to_low_latency_servicer := ch\<rparr>, Inr ()))"

definition send_chat_message :: "client \<Rightarrow> string \<Rightarrow> client \<times> (application_error + unit)" where
  "send_chat_message c chat_msg =
     (if cl_shutdown c then (c, Inl Shutdown)
      else case mpsc_send (cl_to_reliable_servicer c) (AppChat chat_msg) of
        (ch, Inl _) \<Rightarrow> (c\<lparr>cl_to_reliable_servicer := ch, cl_shutdown := True\<rparr>, Inl Shutdown)
      | (ch, Inr _) \<Rightarrow> (c\<lparr>cl_to_reliable_servicer := ch\<rparr>, Inr ()))"

fun store_world_states :: "byte list option \<Rightarrow> cll_servicer_message list \<Rightarrow> byte list option" where
  "store_world_states ws [] = ws"
| "store_world_states ws (ClientWorldState w # rest) = store_world_states (Some w) rest"

definition take_world_state :: "client \<Rightarrow> (client \<times> (application_error + byte list)) rust" where
  "take_world_state c =
     (if cl_shutdown c then Ret (c, Inl Shutdown)
      else rbind (drain_mpsc_receiver (from_low_latency_servicer c)) (\<lambda>(ch, res).
        let c1 = c\<lparr>from_low_latency_servicer := ch\<rparr> in
        case res of
          Inl err \<Rightarrow> Ret (c1\<lparr>cl_shutdown := True\<rparr>, Inl Shutdown)
        | Inr msg_vec \<Rightarrow>
            (let ws = store_world_states (world_state c1) msg_vec
             in Ret (c1\<lparr>world_state := None\<rparr>, case ws of Some w \<Rightarrow> Inr w | None \<Rightarrow> Inr []))))"

fun store_chats :: "chat_message list \<Rightarrow> cre_servicer_message list \<Rightarrow> chat_message list" where
  "store_chats hist [] = hist"
| "store_chats hist (ServicerChat chat # rest) = store_chats (hist @ [chat]) rest"

definition take_chat_history :: "client \<Rightarrow> (client \<times> (application_error + chat_message list)) rust" where
  "take_chat_history c =
     (if cl_shutdown c then Ret (c, Inl Shutdown)
      else rbind (drain_mpsc_receiver (from_reliable_servicer c)) (\<lambda>(ch, res).
        let c1 = c\<lparr>from_reliable_servicer := ch\<rparr> in
        case res of
          Inl err \<Rightarrow> Ret (c1\<lparr>cl_shutdown := True\<rparr>, Inl Shutdown)
        | Inr msg_vec \<Rightarrow>
            (let hist = store_chats (chat_history c1) msg_vec
             in Ret (c1\<lparr>chat_history := []\<rparr>, Inr hist))))"

subsection \<open>The handle after its first failure\<close>

interpretation cl_input: latched_handle "\<lambda>c b. Ret (send_controller_input c b)" cl_shutdown
  by unfold_locales (auto simp: send_controller_input_def split: prod.split sum.split)

interpretation cl_chat: latched_handle "\<lambda>c msg. Ret (send_chat_message c msg)" cl_shutdown
  by unfold_locales (auto simp: send_chat_message_def split: prod.split sum.split)

interpretation cl_world: latched_handle "\<lambda>c (_ :: unit). take_world_state c" cl_shutdown
  by unfold_locales (auto simp: take_world_state_def Let_def split: option.split)

interpretation cl_history: latched_handle "\<lambda>c (_ :: unit). take_chat_history c" cl_shutdown
  by unfold_locales (auto simp: take_chat_history_def Let_def)

text \<open>The four methods of a client, as one operation with the sum of their results.\<close>

definition client_call ::
  "client \<Rightarrow> (bitvec + string) + (unit + unit) \<Rightarrow>
     (client \<times> (application_error + unit + byte list + chat_message list)) rust" where
  "client_call c = case_sum
     (\<lambda>a. tagged Inl (case_sum (\<lambda>b. Ret (send_controller_input c b)) (\<lambda>msg. Ret (send_chat_message c msg)) a))
     (\<lambda>a. tagged Inr (case_sum (\<lambda>_. tagged Inl (take_world_state c)) (\<lambda>_. tagged Inr (take_chat_history c)) a))"

interpretation cl_any: latched_handle client_call cl_shutdown
  using latched_handle_sum [OF
      latched_handle_tagged [OF latched_handle_sum [OF cl_input.latched_handle_axioms cl_chat.latched_handle_axioms], of Inl]
      latched_handle_tagged [OF latched_handle_sum [OF
          latched_handle_tagged [OF cl_world.latched_handle_axioms, of Inl]
          latched_handle_tagged [OF cl_history.latched_handle_axioms, of Inr]], of Inr]]
  by (simp add: client_call_def [abs_def])

lemma send_inputs:
  "\<not> cl_shutdown c \<Longrightarrow> receiver_end (cl_to_low_latency_servicer c) \<Longrightarrow>
     run_calls (\<lambda>c b. Ret (send_controller_input c b)) c inputs =
       Ret (c\<lparr>cl_to_low_latency_servicer := (cl_to_low_latency_servicer c)
          \<lparr>queue := queue (cl_to_low_latency_servicer c) @ map Control inputs\<rparr>\<rparr>,
         replicate (length inputs) (Inr ()))"
  by (induction inputs arbitrary: c)
    (simp_all add: send_controller_input_def mpsc_send_def case_prod_beta)

subsection \<open>What is taken\<close>

definition world_of :: "cll_servicer_message \<Rightarrow> byte list" where
  "world_of m = (case m of ClientWorldState w \<Rightarrow> w)"

definition chat_of :: "cre_servicer_message \<Rightarrow> chat_message" where
  "chat_of m = (case m of ServicerChat c \<Rightarrow> c)"

lemma store_world_states_eq:
  "store_world_states ws ms = (if ms = [] then ws else Some (world_of (last ms)))"
  by (induction ws ms rule: store_world_states.induct) (auto simp: world_of_def)

lemma store_chats_eq: "store_chats hist ms = hist @ map chat_of ms"
  by (induction hist ms rule: store_chats.induct) (simp_all add: chat_of_def)

subsection \<open>Properties\<close>

text \<open>
  C33: \<open>connect\<close> never succeeds. The reliable servicer reads the server's answer into an empty
  vector, takes the zero bytes it gets for the end of the stream and gives up, whatever the
  server has sent. Every call returns an error, or waits for ever, which it does only on a
  server that stays silent or that stops reading; it does not panic.
\<close>

theorem connect_never_succeeds:
  "if cl_connect ext bind_result connect_result user pass addr = Diverge
   then \<exists>stream. connect_result = Inr stream \<and> tcp_may_block stream
   else \<exists>e. cl_connect ext bind_result connect_result user pass addr = Ret (Inl e)"
proof (cases bind_result)
  case (Inr udp)
  note bound = this
  show ?thesis
  proof (cases "udp_local udp")
    case (Inr local_addr)
    note address = this
    show ?thesis
    proof (cases connect_result)
      case (Inr stream)
      let ?cred = "\<lparr>cr_username = Username user, password = pass, udp_port = addr_port local_addr\<rparr>"
      show ?thesis
        by (cases rule: cre_connect_cases [of ext ?cred addr stream mpsc_channel mpsc_channel])
          (simp_all add: cl_connect_def bound address Inr)
    qed (use bound Inr in \<open>simp add: cl_connect_def\<close>)
  qed (use bound in \<open>simp add: cl_connect_def\<close>)
qed (simp add: cl_connect_def)

text \<open>The stream of a server that closes it at once, or stays silent.\<close>

definition toy_server_stream :: "bool \<Rightarrow> tcp_stream" where
  "toy_server_stream closed = \<lparr>tcp_in = [], tcp_in_closed = closed, tcp_out = [], tcp_write_script = [],
     tcp_out_stalled = False, tcp_peer = Inr (SockV4 0 0)\<rparr>"

theorem connect_never_succeeds_witness:
  "\<exists>e. cl_connect \<lparr>cre_serialize = (\<lambda>m. Inr [1]), cre_deserialize = (\<lambda>bs. Inl ())\<rparr>
     (Inr (cll_socket (toy_client cs_new))) (Inr (toy_server_stream True)) ''ann'' ''pw'' (SockV4 0 0) = Ret (Inl e)"
  using connect_never_succeeds [of "\<lparr>cre_serialize = (\<lambda>m. Inr [1]), cre_deserialize = (\<lambda>bs. Inl ())\<rparr>"
      "Inr (cll_socket (toy_client cs_new))" "Inr (toy_server_stream True)" "''ann''" "''pw''" "SockV4 0 0"]
  by (auto simp: toy_server_stream_def tcp_may_block_def split: if_splits)

text \<open>
  \<open>take_world_state\<close> gives the most recent world state that has arrived since the last
  call, an empty one if none has, and forgets it, so that asking again at once gives an empty
  one; when the servicer has gone it shuts the handle down.
\<close>

theorem take_world_state_spec:
  assumes "\<not> cl_shutdown c"
  defines "emptied \<equiv> c\<lparr>from_low_latency_servicer := (from_low_latency_servicer c)\<lparr>queue := []\<rparr>\<rparr>"
  shows "take_world_state c =
    (if sender_alive (from_low_latency_servicer c)
     then Ret (emptied\<lparr>world_state := None\<rparr>,
       Inr (if queue (from_low_latency_servicer c) = []
            then (case world_state c of None \<Rightarrow> [] | Some w \<Rightarrow> w)
            else world_of (last (queue (from_low_latency_servicer c)))))
     else Ret (emptied\<lparr>cl_shutdown := True\<rparr>, Inl Shutdown))"
  using assms by (auto simp: take_world_state_def Let_def store_world_states_eq split: option.split)

definition toy_handle :: client where
  "toy_handle = \<lparr>cl_seq = cs_new, chat_history = [], world_state = None, cl_shutdown = False,
     from_reliable_servicer = mpsc_channel\<lparr>queue := [ServicerChat \<lparr>chat_from = Username ''bob'', chat_text = ''hi''\<rparr>]\<rparr>,
     cl_to_reliable_servicer = mpsc_channel,
     from_low_latency_servicer = mpsc_channel\<lparr>queue := [ClientWorldState [1], ClientWorldState [2, 3]]\<rparr>,
     cl_to_low_latency_servicer = mpsc_channel\<rparr>"

theorem take_world_state_spec_witness:
  "take_world_state toy_handle =
     Ret (toy_handle\<lparr>from_low_latency_servicer := mpsc_channel\<rparr>, Inr [2, 3])"
  using take_world_state_spec [of toy_handle]
  by (simp add: toy_handle_def mpsc_channel_def world_of_def)

text \<open>
  C38: \<open>take_chat_history\<close> gives every chat message that has arrived since the last call, once
  and in order, and forgets them; when the servicer has gone it shuts the handle down.
\<close>

theorem take_chat_history_spec:
  assumes "\<not> cl_shutdown c"
  defines "emptied \<equiv> c\<lparr>from_reliable_servicer := (from_reliable_servicer c)\<lparr>queue := []\<rparr>\<rparr>"
  shows "take_chat_history c =
    (if sender_alive (from_reliable_servicer c)
     then Ret (emptied\<lparr>chat_history := []\<rparr>,
       Inr (chat_history c @ map chat_of (queue (from_reliable_servicer c))))
     else Ret (emptied\<lparr>cl_shutdown := True\<rparr>, Inl Shutdown))"
  using assms by (auto simp: take_chat_history_def Let_def store_chats_eq)

theorem take_chat_history_spec_witness:
  "take_chat_history toy_handle =
     Ret (toy_handle\<lparr>from_reliable_servicer := mpsc_channel\<rparr>,
       Inr [\<lparr>chat_from = Username ''bob'', chat_text = ''hi''\<rparr>])"
  using take_chat_history_spec [of toy_handle]
  by (simp add: toy_handle_def mpsc_channel_def chat_of_def)

end
