(* ===== verification/Turns.thy ===== *)
theory Turns
  imports Server Client
begin

text \<open>
  One turn of each low-latency servicer, as the properties that span a client and a server use
  it: what a turn puts on the network or on a queue when nothing else happens in it.
\<close>

subsection \<open>Controller inputs\<close>

text \<open>A turn of the client's servicer with a silent network: all inputs leave in one datagram.\<close>

lemma client_turn_sends:
  assumes "udp_in (cll_socket c) = []" "udp_send_script (cll_socket c) = []"
    and "sender_alive (cll_from_application c)"
    and "cs = (controller_seq c)\<lparr>cs_seq := cs_seq (controller_seq c) @ control_states (queue (cll_from_application c))\<rparr>"
    and "encodable n cs" "cs_seq cs \<noteq> []" "to_compressed cs = Ret (Some p)"
    and "cll_serialize ext (ControllerInput p) = Inr bs" "length bs \<le> MAX_PACKET_SIZE"
  shows "\<exists>c'. cll_spin_once ext c = Ret (c', Inr ()) \<and> controller_seq c' = cs \<and>
    udp_out (cll_socket c') = udp_out (cll_socket c) @ [(bs, server_addr c)]"
proof -
  let ?c1 = "c\<lparr>cll_from_application := (cll_from_application c)\<lparr>queue := []\<rparr>, controller_seq := cs\<rparr>"
  have "cll_send_controller_inputs ext ?c1 =
      Ret (?c1\<lparr>cll_socket := (cll_socket c)\<lparr>udp_out := udp_out (cll_socket c) @ [(bs, server_addr c)]\<rparr>\<rparr>, Inr ())"
    using assms(2,5-9) cll_send_encodable [of n ?c1 p ext bs] by (simp add: udp_send_to_def)
  moreover have "cll_forward_from_client_to_server ext c = cll_send_controller_inputs ext ?c1"
    using assms(3,4) by (simp add: cll_forward_out_eq)
  ultimately show ?thesis
    using assms(1) by (simp add: cll_spin_once_def cll_forward_from_server_to_client_def maybe_receive_udp_eq)
qed

text \<open>A turn of the server's servicer that finds nothing from the application and a datagram.\<close>

lemma server_turn_receives:
  assumes "drain_spmc_receiver (ext_try_recv ext) (sll_from_application s) = Ret (q, Inr [])"
    and "udp_in (sll_socket s) = Inr (bs, src) # rest" "length bs \<le> MAX_PACKET_SIZE"
    and "ext_deserialize ext bs = Inr (ControllerInput input)"
    and "bm_get_by_first ext (address_user s) src = Some user"
    and "to_controller_sequence input = Ret (Some cs)" "last_tick cs = Ret lt"
    and "last_tick_received s < lt" "receiver_end (sll_to_application s)"
  shows "\<exists>s' r. sll_spin_once ext s = Ret (s', r) \<and> last_tick_received s' = lt \<and>
    sll_to_application s' = (sll_to_application s)\<lparr>queue := queue (sll_to_application s) @
      [\<lparr>sm_from = user, sm_payload = PayloadControllerSequence cs\<rparr>]\<rparr>"
proof -
  let ?s1 = "s\<lparr>sll_from_application := q\<rparr>"
  let ?s2 = "?s1\<lparr>sll_socket := (sll_socket s)\<lparr>udp_in := rest\<rparr>\<rparr>"
  have "sll_forward_from_server_to_client ext s = Ret (?s1, Inr ())"
    using assms(1) by (simp add: sll_forward_from_server_to_client_def parse_spec last_such_def)
  moreover have "sll_forward_from_client_to_server ext ?s1 = sll_handle_controller_input ext ?s2 src input"
    using assms(2-4)
    by (simp add: sll_forward_from_client_to_server_def maybe_receive_from_udp_eq sll_process_udp_def)
  moreover obtain s' r where "sll_handle_controller_input ext ?s2 src input = Ret (s', r)"
    "last_tick_received s' = lt"
    "sll_to_application s' = (sll_to_application s)\<lparr>queue := queue (sll_to_application s) @
      [\<lparr>sm_from = user, sm_payload = PayloadControllerSequence cs\<rparr>]\<rparr>"
    using handle_fresh [of ext ?s2 src user input cs lt] assms(5-9) by simp
  ultimately show ?thesis
    by (cases r) (auto simp: sll_spin_once_def)
qed

text \<open>A client's codec that fits the server's toy codec.\<close>

definition toy_cll_ext :: "unit cll_ext" where
  "toy_cll_ext = \<lparr>cll_serialize = (\<lambda>m. if m = ControllerInput toy_compressed then Inr toy_datagram else Inl ()),
     cll_deserialize = (\<lambda>bs. Inl ())\<rparr>"

lemma toy_encodable: "encodable 2 toy_inputs"
  by (simp add: toy_inputs_def encodable_def uniform_inputs_def)

lemma toy_compresses: "to_compressed toy_inputs = Ret (Some toy_compressed)"
  by (simp add: to_compressed_encodable [OF toy_encodable])
    (simp add: toy_inputs_def toy_compressed_def front_size_def)

subsection \<open>World states\<close>

text \<open>
  A turn of the server's servicer with a silent network sends the last world state that waits
  in its queue to the address of the user it is for, before anything else.
\<close>

lemma server_turn_sends:
  assumes "drain_spmc_receiver (ext_try_recv ext) (sll_from_application s) = Ret (q, Inr ms)"
    and "last_such is_world_state ms = Some \<lparr>ll_to = user, ll_payload = WorldState w\<rparr>"
    and "bm_get_by_second ext (fold (book_step ext) ms (address_user s)) user = Some a"
    and "ext_serialize ext (WorldState w) = Inr bs"
    and "udp_send_script (sll_socket s) = []" "udp_in (sll_socket s) = []"
  shows "\<exists>s' r more. sll_spin_once ext s = Ret (s', r) \<and>
    udp_out (sll_socket s') = udp_out (sll_socket s) @ (bs, a) # more"
proof -
  let ?book = "fold (book_step ext) ms (address_user s)"
  let ?sock = "(sll_socket s)\<lparr>udp_out := udp_out (sll_socket s) @ [(bs, a)]\<rparr>"
  obtain sock' r where rest: "sll_send_outgoing ext ?book ?sock [last_such is_last_tick ms] = (sock', r)"
    by fastforce
  have "sll_send_message ext ?book (sll_socket s) \<lparr>ll_to = user, ll_payload = WorldState w\<rparr> = (?sock, Inr ())"
    using assms(3-5) by (simp add: sll_send_message_def udp_send_to_def)
  with rest have "sll_send_outgoing ext ?book (sll_socket s)
      [last_such is_world_state ms, last_such is_last_tick ms] = (sock', r)"
    by (simp add: assms(2))
  then have out: "sll_forward_from_server_to_client ext s =
      Ret (s\<lparr>sll_from_application := q, address_user := ?book, sll_socket := sock'\<rparr>, r)"
    using assms(1) by (simp add: sll_forward_from_server_to_client_def parse_spec)
  obtain more where more: "udp_out sock' = udp_out (sll_socket s) @ (bs, a) # more"
    using sll_send_outgoing_out [OF rest] by auto
  have "udp_in sock' = []" using sll_send_outgoing_frame [OF rest] assms(6) by simp
  then have "sll_spin_once ext s = Ret (s\<lparr>sll_from_application := q, address_user := ?book, sll_socket := sock'\<rparr>, r)"
    using out by (cases r) (simp_all add: sll_spin_once_def sll_forward_from_client_to_server_def maybe_receive_from_udp_eq)
  with more show ?thesis by auto
qed

text \<open>A turn of the client's servicer hands the world state it receives to the application.\<close>

lemma client_turn_receives:
  assumes "udp_in (cll_socket c) = Inr (bs, src) # rest" "bs \<noteq> []" "length bs \<le> MAX_PACKET_SIZE"
    and "cll_deserialize ext bs = Inr (WorldState w)" "receiver_end (cll_to_application c)"
    and "cll_spin_once ext c = Ret (c', r)"
  shows "cll_to_application c' = (cll_to_application c)
    \<lparr>queue := queue (cll_to_application c) @ [ClientWorldState w]\<rparr>"
proof -
  let ?c1 = "c\<lparr>cll_socket := (cll_socket c)\<lparr>udp_in := rest\<rparr>, cll_to_application := (cll_to_application c)
    \<lparr>queue := queue (cll_to_application c) @ [ClientWorldState w]\<rparr>\<rparr>"
  have "cll_forward_from_server_to_client ext c = Ret (?c1, Inr ())"
    using assms(1-5)
    by (simp add: cll_forward_from_server_to_client_def maybe_receive_udp_eq cll_parse_server_message_def mpsc_send_def)
  with assms(6) have "cll_forward_from_client_to_server ext ?c1 = Ret (c', r)"
    by (auto simp: cll_spin_once_def rtry_Ret_iff)
  then show ?thesis
    by (auto simp: cll_forward_out_eq dest: cll_send_cases split: if_splits)
qed

lemma send_low_latency_queue:
  assumes "channel try_recv pending connected send alive" "connected (to_low_latency_servicer v)"
    and "send_low_latency send v m = (v', Inr ())"
  shows "pending (to_low_latency_servicer v') = pending (to_low_latency_servicer v) @ [m] \<and>
    connected (to_low_latency_servicer v')"
proof (cases "alive (to_low_latency_servicer v)")
  case True
  from channel.send_alive [OF assms(1) True, of m] assms(2,3) show ?thesis
    by (auto simp: send_low_latency_def split: if_splits)
next
  case False
  from channel.send_dead [OF assms(1) False, of m] assms(3) show ?thesis
    by (auto simp: send_low_latency_def split: if_splits)
qed

end
