(* ===== verification/GameNetwork.thy ===== *)
theory GameNetwork
  imports Turns "HOL-Library.Sublist"
begin

text \<open>
  The low-latency side of a whole game as one transition system: a server with its UDP servicer
  and its application, clients with their handles and UDP servicers, and the network between
  them. Every step of a program is one of the operations of the other theories; the network
  keeps every datagram it was ever given and delivers any of them to its destination at any
  time, any number of times or never, so it loses, repeats and reorders. Strangers put datagrams
  of any content on it, from addresses that are not a client's.

  Parameters: the crates outside the repository (\<open>ext\<close>, \<open>cext\<close> and \<open>pending\<close>, the messages that
  wait in the server's \<open>spmc\<close> queue), the addresses of the clients (\<open>addr i\<close>) and of the server
  (\<open>here\<close>), and the registry \<open>reg\<close>: the application announces a client only under the name that
  the registry has for its address.
\<close>

record ('r, 'm) net =
  net_server :: "('r, 'm) sll_servicer"
  net_handle :: "nat \<Rightarrow> client"
  net_client :: "nat \<Rightarrow> cll_servicer"
  net_wire :: "(byte list \<times> socket_addr \<times> socket_addr) set"
  net_submitted :: "nat \<Rightarrow> bitvec list"
  net_taken :: "servicer_message list"

text \<open>A method of the handle works on the queue the servicer has the other end of.\<close>

definition app_submit ::
  "client \<Rightarrow> cll_servicer \<Rightarrow> bitvec \<Rightarrow> (client \<times> cll_servicer) \<times> (application_error + unit)" where
  "app_submit h c b =
     (case send_controller_input (h\<lparr>cl_to_low_latency_servicer := cll_from_application c\<rparr>) b of
        (h', r) \<Rightarrow> ((h', c\<lparr>cll_from_application := cl_to_low_latency_servicer h'\<rparr>), r))"

definition announced :: "(socket_addr \<rightharpoonup> username) \<Rightarrow> sll_app_message \<Rightarrow> bool" where
  "announced reg m = (case m of NewClient cd \<Rightarrow> reg (udp_addr cd) = Some (cd_username cd) | _ \<Rightarrow> True)"

text \<open>The datagrams that a turn of a servicer has added to its socket's log.\<close>

definition newly_sent :: "udp_socket \<Rightarrow> udp_socket \<Rightarrow> socket_addr \<Rightarrow> (byte list \<times> socket_addr \<times> socket_addr) set" where
  "newly_sent before after src =
     (\<lambda>(bs, dst). (bs, src, dst)) ` set (drop (length (udp_out before)) (udp_out after))"

inductive net_step ::
  "('r, 'm, 'be) sll_ext \<Rightarrow> 'ce cll_ext \<Rightarrow> ('r \<Rightarrow> sll_app_message list) \<Rightarrow> (nat \<Rightarrow> socket_addr) \<Rightarrow>
     socket_addr \<Rightarrow> (socket_addr \<rightharpoonup> username) \<Rightarrow> ('r, 'm) net \<Rightarrow> ('r, 'm) net \<Rightarrow> bool"
  for ext :: "('r, 'm, 'be) sll_ext" and cext :: "'ce cll_ext" and pending :: "'r \<Rightarrow> sll_app_message list"
    and addr :: "nat \<Rightarrow> socket_addr" and here :: socket_addr and reg :: "socket_addr \<rightharpoonup> username" where
  submit: "app_submit (net_handle s i) (net_client s i) b = ((h, c), Inr ()) \<Longrightarrow>
    sender_alive (cll_from_application (net_client s i)) \<Longrightarrow>
    net_step ext cext pending addr here reg s
      (s\<lparr>net_handle := (net_handle s)(i := h), net_client := (net_client s)(i := c),
         net_submitted := (net_submitted s)(i := net_submitted s i @ [b])\<rparr>)"
| submit_fails: "app_submit (net_handle s i) (net_client s i) b = ((h, c), Inl e) \<Longrightarrow>
    net_step ext cext pending addr here reg s
      (s\<lparr>net_handle := (net_handle s)(i := h), net_client := (net_client s)(i := c)\<rparr>)"
| client_quits: "c = (net_client s i)\<lparr>cll_from_application :=
      (cll_from_application (net_client s i))\<lparr>sender_alive := False\<rparr>\<rparr> \<Longrightarrow>
    net_step ext cext pending addr here reg s (s\<lparr>net_client := (net_client s)(i := c)\<rparr>)"
| client_servicer_ends: "c = (net_client s i)\<lparr>cll_from_application :=
      (cll_from_application (net_client s i))\<lparr>receiver_end := False\<rparr>\<rparr> \<Longrightarrow>
    net_step ext cext pending addr here reg s (s\<lparr>net_client := (net_client s)(i := c)\<rparr>)"
| client_turn: "cll_spin_once cext (net_client s i) = Ret (c, r) \<Longrightarrow>
    net_step ext cext pending addr here reg s
      (s\<lparr>net_client := (net_client s)(i := c),
         net_wire := net_wire s \<union> newly_sent (cll_socket (net_client s i)) (cll_socket c) (addr i)\<rparr>)"
| client_receives: "(bs, src, addr i) \<in> net_wire s \<Longrightarrow>
    sock = (cll_socket (net_client s i))\<lparr>udp_in := udp_in (cll_socket (net_client s i)) @ [Inr (bs, src)]\<rparr> \<Longrightarrow>
    net_step ext cext pending addr here reg s
      (s\<lparr>net_client := (net_client s)(i := (net_client s i)\<lparr>cll_socket := sock\<rparr>)\<rparr>)"
| client_network: "sock = (cll_socket (net_client s i))
      \<lparr>udp_in := udp_in (cll_socket (net_client s i)) @ [Inl e], udp_send_script := script\<rparr> \<Longrightarrow>
    net_step ext cext pending addr here reg s
      (s\<lparr>net_client := (net_client s)(i := (net_client s i)\<lparr>cll_socket := sock\<rparr>)\<rparr>)"
| server_turn: "sll_spin_once ext (net_server s) = Ret (v, r) \<Longrightarrow>
    net_step ext cext pending addr here reg s
      (s\<lparr>net_server := v, net_wire := net_wire s \<union> newly_sent (sll_socket (net_server s)) (sll_socket v) here\<rparr>)"
| server_receives: "(bs, src, here) \<in> net_wire s \<Longrightarrow>
    sock = (sll_socket (net_server s))\<lparr>udp_in := udp_in (sll_socket (net_server s)) @ [Inr (bs, src)]\<rparr> \<Longrightarrow>
    net_step ext cext pending addr here reg s (s\<lparr>net_server := (net_server s)\<lparr>sll_socket := sock\<rparr>\<rparr>)"
| server_network: "sock = (sll_socket (net_server s))
      \<lparr>udp_in := udp_in (sll_socket (net_server s)) @ [Inl e], udp_send_script := script\<rparr> \<Longrightarrow>
    net_step ext cext pending addr here reg s (s\<lparr>net_server := (net_server s)\<lparr>sll_socket := sock\<rparr>\<rparr>)"
| stranger: "src \<notin> range addr \<Longrightarrow>
    net_step ext cext pending addr here reg s (s\<lparr>net_wire := insert (bs, src, dst) (net_wire s)\<rparr>)"
| app_announces: "pending q = pending (sll_from_application (net_server s)) @ ms \<Longrightarrow>
    list_all (announced reg) ms \<Longrightarrow>
    net_step ext cext pending addr here reg s (s\<lparr>net_server := (net_server s)\<lparr>sll_from_application := q\<rparr>\<rparr>)"
| app_takes: "receive_iter_next ((w :: ('r, 'm, unit, unit) server)\<lparr>from_servicer := sll_to_application (net_server s)\<rparr>) = Ret (w', Some m) \<Longrightarrow>
    net_step ext cext pending addr here reg s
      (s\<lparr>net_server := (net_server s)\<lparr>sll_to_application := from_servicer w'\<rparr>,
         net_taken := net_taken s @ [m]\<rparr>)"
| app_hangs_up: "ch = (sll_to_application (net_server s))\<lparr>receiver_end := False\<rparr> \<Longrightarrow>
    net_step ext cext pending addr here reg s (s\<lparr>net_server := (net_server s)\<lparr>sll_to_application := ch\<rparr>\<rparr>)"
| reliable_sends: "mpsc_send (sll_to_application (net_server s)) m = (ch, res) \<Longrightarrow>
    (\<And>cs. sm_payload m \<noteq> PayloadControllerSequence cs) \<Longrightarrow>
    net_step ext cext pending addr here reg s (s\<lparr>net_server := (net_server s)\<lparr>sll_to_application := ch\<rparr>\<rparr>)"

inductive net_reach ::
  "('r, 'm, 'be) sll_ext \<Rightarrow> 'ce cll_ext \<Rightarrow> ('r \<Rightarrow> sll_app_message list) \<Rightarrow> (nat \<Rightarrow> socket_addr) \<Rightarrow>
     socket_addr \<Rightarrow> (socket_addr \<rightharpoonup> username) \<Rightarrow> ('r, 'm) net \<Rightarrow> ('r, 'm) net \<Rightarrow> bool"
  for ext :: "('r, 'm, 'be) sll_ext" and cext :: "'ce cll_ext" and pending :: "'r \<Rightarrow> sll_app_message list"
    and addr :: "nat \<Rightarrow> socket_addr" and here :: socket_addr and reg :: "socket_addr \<rightharpoonup> username" and s0 where
  net_start: "net_reach ext cext pending addr here reg s0 s0"
| net_go: "net_reach ext cext pending addr here reg s0 s \<Longrightarrow> net_step ext cext pending addr here reg s t \<Longrightarrow>
    net_reach ext cext pending addr here reg s0 t"

text \<open>The address book, and the announcements on their way to it, follow the registry.\<close>

definition book_registered ::
  "('r, 'm, 'be) sll_ext \<Rightarrow> ('m \<Rightarrow> bool) \<Rightarrow> ('r \<Rightarrow> sll_app_message list) \<Rightarrow> (socket_addr \<rightharpoonup> username) \<Rightarrow>
     ('r, 'm) sll_servicer \<Rightarrow> bool" where
  "book_registered ext ok pending reg v \<longleftrightarrow>
     ok (address_user v) \<and> (\<forall>a u. bm_get_by_first ext (address_user v) a = Some u \<longrightarrow> reg a = Some u) \<and>
     list_all (announced reg) (pending (sll_from_application v))"

text \<open>A game before its first step: nothing is queued, sent, submitted or received.\<close>

definition net_init ::
  "('r, 'm, 'be) sll_ext \<Rightarrow> ('m \<Rightarrow> bool) \<Rightarrow> ('r \<Rightarrow> sll_app_message list) \<Rightarrow> (socket_addr \<rightharpoonup> username) \<Rightarrow>
     ('r, 'm) net \<Rightarrow> bool" where
  "net_init ext ok pending reg s \<longleftrightarrow>
     udp_in (sll_socket (net_server s)) = [] \<and> queue (sll_to_application (net_server s)) = [] \<and>
     book_registered ext ok pending reg (net_server s) \<and>
     (\<forall>i. cs_seq (controller_seq (net_client s i)) = [] \<and> queue (cll_from_application (net_client s i)) = []) \<and>
     net_wire s = {} \<and> (\<forall>i. net_submitted s i = []) \<and> net_taken s = []"

text \<open>All messages the server's application has got or will get from its queue, in order.\<close>

definition net_delivered :: "('r, 'm) net \<Rightarrow> servicer_message list" where
  "net_delivered s = net_taken s @ queue (sll_to_application (net_server s))"

subsection \<open>The client's inputs stay in line\<close>

lemma app_submit_cases:
  assumes "app_submit h c b = ((h', c'), r)"
  shows "c' = c\<lparr>cll_from_application := cll_from_application c'\<rparr> \<and>
    sender_alive (cll_from_application c') = sender_alive (cll_from_application c) \<and>
    queue (cll_from_application c') = queue (cll_from_application c) @ (if r = Inr () then [Control b] else [])"
  using assms
  by (cases c) (auto simp: app_submit_def send_controller_input_def mpsc_send_def split: prod.splits sum.splits if_splits)

text \<open>The inputs a client still has to send: those of the sequence, then those in its queue.\<close>

definition in_line :: "cll_servicer \<Rightarrow> bitvec list" where
  "in_line c = cs_seq (controller_seq c) @ control_states (queue (cll_from_application c))"

definition client_in_order :: "cll_servicer \<Rightarrow> bitvec list \<Rightarrow> bool" where
  "client_in_order c submitted \<longleftrightarrow> sublist (in_line c) submitted \<and>
     (sender_alive (cll_from_application c) \<longrightarrow> suffix (in_line c) submitted)"

lemma control_states_simps [simp]:
  "control_states [] = []" "control_states (xs @ ys) = control_states xs @ control_states ys"
  "control_states [Control b] = [b]"
  by (simp_all add: control_states_def)

lemma client_in_order_submit:
  assumes "client_in_order c sub" "app_submit h c b = ((h', c'), Inr ())" "sender_alive (cll_from_application c)"
  shows "client_in_order c' (sub @ [b])"
proof -
  from app_submit_cases [OF assms(2)] have "in_line c' = in_line c @ [b]"
    by (cases c'; cases c) (auto simp: in_line_def)
  with assms(1,3) have "suffix (in_line c') (sub @ [b])"
    by (auto simp: client_in_order_def suffix_def)
  then show ?thesis by (simp add: client_in_order_def)
qed

lemma sublist_drop_left: "sublist (xs @ ys) zs \<Longrightarrow> sublist (drop j xs @ ys) zs"
  by (metis append.assoc append_take_drop_id sublist_order.order_trans sublist_append_leftI)

lemma suffix_drop_left: "suffix (xs @ ys) zs \<Longrightarrow> suffix (drop j xs @ ys) zs"
  by (metis append.assoc append_take_drop_id suffix_appendD)

lemma in_line_fields [simp]:
  "in_line (c\<lparr>cll_socket := sock\<rparr>) = in_line c"
  "in_line (c\<lparr>cll_from_application := ch\<rparr>) = cs_seq (controller_seq c) @ control_states (queue ch)"
  by (simp_all add: in_line_def)

lemma client_in_order_turn:
  assumes "client_in_order c sub" "cll_spin_once ext c = Ret (c', r)"
  shows "client_in_order c' sub \<and>
    (udp_out (cll_socket c') = udp_out (cll_socket c) \<or>
     (\<exists>bs. cll_packet ext (controller_seq c') bs \<and> sublist (cs_seq (controller_seq c')) sub \<and>
        udp_out (cll_socket c') = udp_out (cll_socket c) @ [(bs, server_addr c)]))"
  using assms(2)
proof (cases rule: cll_spin_once_cases)
  case (kept j)
  have "sublist (drop j (cs_seq (controller_seq c)) @ control_states (queue (cll_from_application c))) sub"
    using assms(1) by (simp add: client_in_order_def in_line_def sublist_drop_left)
  then have "sublist (drop j (cs_seq (controller_seq c))) sub"
    by (metis sublist_order.order_trans sublist_append_rightI)
  with kept assms(1) show ?thesis
    by (auto simp: client_in_order_def in_line_def sublist_drop_left suffix_drop_left)
next
  case (taken j)
  let ?rest = "drop j (cs_seq (controller_seq c)) @ control_states (queue (cll_from_application c))"
  have line: "in_line c' = ?rest" using taken(3,4) by (simp add: in_line_def)
  have "suffix (in_line c) sub" using assms(1) taken(2) by (simp add: client_in_order_def)
  then have "suffix ?rest sub" unfolding in_line_def by (rule suffix_drop_left)
  moreover from this have "sublist ?rest sub" by (rule suffix_imp_sublist)
  ultimately have "client_in_order c' sub" "sublist (cs_seq (controller_seq c')) sub"
    unfolding client_in_order_def line taken(4) by blast+
  with taken(5) show ?thesis by blast
qed

lemma net_reach_invariant:
  assumes "net_reach ext cext pending addr here reg s0 s" "P s0"
    and "\<And>s t. P s \<Longrightarrow> net_step ext cext pending addr here reg s t \<Longrightarrow> P t"
  shows "P s"
  using assms(1) by (induction rule: net_reach.induct) (use assms(2,3) in blast)+

definition clients_in_order :: "('r, 'm) net \<Rightarrow> bool" where
  "clients_in_order s \<longleftrightarrow> (\<forall>i. client_in_order (net_client s i) (net_submitted s i))"

lemma clients_in_order_step:
  assumes "clients_in_order s" "net_step ext cext pending addr here reg s t"
  shows "clients_in_order t"
  using assms(2)
proof (cases rule: net_step.cases)
  case (submit i b h c)
  then show ?thesis
    using assms(1) client_in_order_submit by (fastforce simp: clients_in_order_def)
next
  case (submit_fails i b h c e)
  then have "client_in_order c (net_submitted s i)"
    using assms(1) app_submit_cases [of "net_handle s i" "net_client s i" b h c "Inl e"]
    by (simp add: clients_in_order_def client_in_order_def in_line_def) (metis in_line_def in_line_fields(2))
  with submit_fails assms(1) show ?thesis by (simp add: clients_in_order_def)
next
  case (client_quits c i)
  with assms(1) show ?thesis by (auto simp: clients_in_order_def client_in_order_def in_line_def)
next
  case (client_servicer_ends c i)
  with assms(1) show ?thesis by (auto simp: clients_in_order_def client_in_order_def in_line_def)
next
  case (client_turn i c r)
  with assms(1) client_in_order_turn show ?thesis by (fastforce simp: clients_in_order_def)
qed (use assms(1) in \<open>auto simp: clients_in_order_def client_in_order_def in_line_def\<close>)

lemma clients_in_order_reach:
  assumes "net_init ext ok pending reg s0" "net_reach ext cext pending addr here reg s0 s"
  shows "clients_in_order s"
  using assms(2)
proof (rule net_reach_invariant)
  show "clients_in_order s0"
    using assms(1) by (simp add: net_init_def clients_in_order_def client_in_order_def in_line_def)
qed (rule clients_in_order_step)

subsection \<open>The address book follows the registry\<close>

lemma users_step_registered:
  "announced reg m \<Longrightarrow> users \<subseteq>\<^sub>m reg \<Longrightarrow> users_step m users \<subseteq>\<^sub>m reg"
  by (cases m) (auto simp: map_le_def announced_def dom_def split: if_splits)

lemma users_steps_registered:
  "list_all (announced reg) ms \<Longrightarrow> users \<subseteq>\<^sub>m reg \<Longrightarrow> fold users_step ms users \<subseteq>\<^sub>m reg"
  by (induction ms arbitrary: users) (simp_all add: users_step_registered)

lemma map_le_Some_iff: "f \<subseteq>\<^sub>m g \<longleftrightarrow> (\<forall>a u. f a = Some u \<longrightarrow> g a = Some u)"
  by (auto simp: map_le_def dom_def)

lemma book_registered_turn:
  assumes "receiver (ext_try_recv ext) pending connected" "bidir_laws ext ok"
    and "book_registered ext ok pending reg v" "sll_spin_once ext v = Ret (v', r)"
  shows "book_registered ext ok pending reg v'"
proof -
  let ?q = "sll_from_application v"
  from sll_spin_once_frame [OF assms(4)] obtain q res
    where drain: "drain_spmc_receiver (ext_try_recv ext) ?q = Ret (q, res)"
      and v': "sll_from_application v' = q" "address_user v' =
        (case res of Inl _ \<Rightarrow> address_user v | Inr ms \<Rightarrow> fold (book_step ext) ms (address_user v))"
    by blast
  have q: "pending q = [] \<and> (case res of Inl _ \<Rightarrow> True | Inr ms \<Rightarrow> ms = pending ?q)"
    using drain receiver.drain_connected [OF assms(1), of ?q] receiver.drain_disconnected [OF assms(1), of ?q]
    by (cases "connected ?q") auto
  show ?thesis
  proof (cases res)
    case (Inl d)
    with assms(3) v' q show ?thesis by (simp add: book_registered_def)
  next
    case (Inr ms)
    with q assms(3) have "list_all (announced reg) ms" "ok (address_user v)"
      "bm_get_by_first ext (address_user v) \<subseteq>\<^sub>m reg"
      by (simp_all add: book_registered_def map_le_Some_iff)
    note facts = this
    let ?book = "fold (book_step ext) ms (address_user v)"
    have "ok ?book" "bm_get_by_first ext ?book = fold users_step ms (bm_get_by_first ext (address_user v))"
      using book_steps [OF assms(2) facts(2), of ms] by blast+
    moreover have "fold users_step ms (bm_get_by_first ext (address_user v)) \<subseteq>\<^sub>m reg"
      using facts(1,3) by (rule users_steps_registered)
    ultimately have "ok ?book" "bm_get_by_first ext ?book \<subseteq>\<^sub>m reg" by (simp_all only:)
    moreover have "address_user v' = ?book" "pending (sll_from_application v') = []"
      using Inr q v' by simp_all
    ultimately show ?thesis unfolding book_registered_def map_le_Some_iff by simp
  qed
qed

lemma book_registered_fields [simp]:
  "book_registered ext ok pending reg (v\<lparr>sll_socket := sock\<rparr>) = book_registered ext ok pending reg v"
  "book_registered ext ok pending reg (v\<lparr>sll_to_application := ch\<rparr>) = book_registered ext ok pending reg v"
  by (simp_all add: book_registered_def)

lemma book_registered_step:
  assumes "receiver (ext_try_recv ext) pending connected" "bidir_laws ext ok"
    and "book_registered ext ok pending reg (net_server s)" "net_step ext cext pending addr here reg s t"
  shows "book_registered ext ok pending reg (net_server t)"
  using assms(4)
proof (cases rule: net_step.cases)
  case (server_turn v r)
  with book_registered_turn [OF assms(1,2,3)] show ?thesis by simp
next
  case (app_announces q ms)
  with assms(3) show ?thesis by (simp add: book_registered_def)
qed (use assms(3) in simp_all)

subsection \<open>What is on the wire\<close>

definition decodes_into :: "('r, 'm, 'be) sll_ext \<Rightarrow> byte list \<Rightarrow> bitvec list \<Rightarrow> bool" where
  "decodes_into ext bs sub \<longleftrightarrow>
     (\<forall>input cs. ext_deserialize ext (take MAX_PACKET_SIZE bs) = Inr (ControllerInput input) \<longrightarrow>
        to_controller_sequence input = Ret (Some cs) \<longrightarrow> sublist (cs_seq cs) sub)"

text \<open>
  The serializers of the two sides fit together, and what the applications submit can be coded:
  states of one width, not so many that their code outgrows \<open>usize\<close>.
\<close>

definition codecs_agree :: "'ce cll_ext \<Rightarrow> ('r, 'm, 'be) sll_ext \<Rightarrow> bool" where
  "codecs_agree cext ext \<longleftrightarrow>
     (\<forall>p bs. cll_serialize cext (ControllerInput p) = Inr bs \<longrightarrow> ext_deserialize ext bs = Inr (ControllerInput p))"

definition codable :: "bitvec list \<Rightarrow> bool" where
  "codable sub \<longleftrightarrow> (\<exists>n. uniform n sub \<and> length sub * Suc n + n < 2 ^ 64)"

lemma codable_sublist:
  assumes "codable sub" "sublist (cs_seq cs) sub"
  shows "\<exists>n. encodable n cs"
proof -
  from assms(1) obtain n where n: "uniform n sub" "length sub * Suc n + n < 2 ^ 64"
    by (auto simp: codable_def)
  from assms(2) obtain xs ys where "sub = xs @ cs_seq cs @ ys" by (auto simp: sublist_def)
  then have "uniform n (cs_seq cs)" "length (cs_seq cs) \<le> length sub"
    using n(1) by simp_all
  moreover from this(2) have "length (cs_seq cs) * Suc n \<le> length sub * Suc n" by (rule mult_le_mono1)
  ultimately show ?thesis using n(2) by (auto simp: encodable_def uniform_inputs_def intro!: exI [of _ n])
qed

lemma codable_append:
  assumes "codable (xs @ ys)"
  shows "codable xs"
proof -
  from assms obtain n where n: "uniform n (xs @ ys)" "length (xs @ ys) * Suc n + n < 2 ^ 64"
    unfolding codable_def by blast
  have "length xs * Suc n \<le> length (xs @ ys) * Suc n" by (rule mult_le_mono1) simp
  with n(2) have "length xs * Suc n + n < 2 ^ 64" by linarith
  with n(1) show ?thesis unfolding codable_def by auto
qed

lemma packet_decodes:
  assumes "codecs_agree cext ext" "codable sub" "sublist (cs_seq cs) sub" "cll_packet cext cs bs"
  shows "decodes_into ext bs sub"
proof -
  obtain n where n: "encodable n cs" using codable_sublist [OF assms(2,3)] by blast
  from assms(4) obtain p where "to_compressed cs = Ret (Some p)" "cll_serialize cext (ControllerInput p) = Inr bs"
    and small: "length bs \<le> MAX_PACKET_SIZE"
    by (auto simp: cll_packet_def)
  with assms(1) have "ext_deserialize ext (take MAX_PACKET_SIZE bs) = Inr (ControllerInput p)"
    "to_controller_sequence p = Ret (Some cs)"
    using to_compressed_encodable [OF n] to_controller_sequence_encodable [OF n, of "start_tick cs"]
    by (auto simp: codecs_agree_def)
  with assms(3) show ?thesis by (simp add: decodes_into_def)
qed

lemma decodes_into_append: "decodes_into ext bs sub \<Longrightarrow> decodes_into ext bs (sub @ xs)"
  unfolding decodes_into_def by (metis sublist_append_rightI sublist_order.order_trans)

text \<open>A datagram from a client's address decodes into a stretch of that client's inputs.\<close>

definition honest ::
  "('r, 'm, 'be) sll_ext \<Rightarrow> (nat \<Rightarrow> socket_addr) \<Rightarrow> (nat \<Rightarrow> bitvec list) \<Rightarrow> byte list \<Rightarrow> socket_addr \<Rightarrow> bool" where
  "honest ext addr sub bs src \<longleftrightarrow>
     src \<notin> range addr \<or> (\<exists>i. src = addr i \<and> decodes_into ext bs (sub i))"

lemma honest_mono:
  "honest ext addr sub bs src \<Longrightarrow> honest ext addr (sub(i := sub i @ xs)) bs src"
  unfolding honest_def by (metis decodes_into_append fun_upd_apply)

definition traffic_honest :: "('r, 'm, 'be) sll_ext \<Rightarrow> (nat \<Rightarrow> socket_addr) \<Rightarrow> ('r, 'm) net \<Rightarrow> bool" where
  "traffic_honest ext addr s \<longleftrightarrow>
     (\<forall>bs src dst. (bs, src, dst) \<in> net_wire s \<longrightarrow> honest ext addr (net_submitted s) bs src) \<and>
     (\<forall>bs src. Inr (bs, src) \<in> set (udp_in (sll_socket (net_server s))) \<longrightarrow>
        honest ext addr (net_submitted s) bs src)"

definition all_codable :: "('r, 'm) net \<Rightarrow> bool" where
  "all_codable s \<longleftrightarrow> (\<forall>i. codable (net_submitted s i))"

lemma all_codable_back:
  assumes "net_step ext cext pending addr here reg s t" "all_codable t"
  shows "all_codable s"
  using assms(1)
proof (cases rule: net_step.cases)
  case (submit i b h c)
  have "codable (net_submitted s k)" for k
  proof -
    have "codable (net_submitted t k)" using assms(2) by (simp add: all_codable_def)
    then show ?thesis using submit codable_append by (cases "k = i") auto
  qed
  then show ?thesis by (simp add: all_codable_def)
qed (use assms(2) in \<open>simp_all add: all_codable_def\<close>)

text \<open>What a client's turn puts on the wire is the code of a stretch of its inputs.\<close>

lemma client_turn_wire:
  assumes "client_in_order c sub" "codecs_agree cext ext" "codable sub"
    and "cll_spin_once cext c = Ret (c', r)" "(bs, src, dst) \<in> newly_sent (cll_socket c) (cll_socket c') a"
  shows "src = a \<and> decodes_into ext bs sub"
proof -
  from assms(5) have src: "src = a"
    and sent: "(bs, dst) \<in> set (drop (length (udp_out (cll_socket c))) (udp_out (cll_socket c')))"
    by (auto simp: newly_sent_def)
  from sent client_in_order_turn [OF assms(1,4)]
  have "cll_packet cext (controller_seq c') bs" "sublist (cs_seq (controller_seq c')) sub"
    by auto
  then have "decodes_into ext bs sub" by (intro packet_decodes [OF assms(2,3)])
  with src show ?thesis by simp
qed

lemma newly_sent_src: "(bs, src, dst) \<in> newly_sent before after a \<Longrightarrow> src = a"
  by (auto simp: newly_sent_def)

lemma honest_stranger: "src \<notin> range addr \<Longrightarrow> honest ext addr sub bs src"
  by (simp add: honest_def)

lemma honest_client: "decodes_into ext bs (sub i) \<Longrightarrow> honest ext addr sub bs (addr i)"
  unfolding honest_def by blast

lemma traffic_honest_step:
  assumes "traffic_honest ext addr s" "clients_in_order s" "all_codable s"
    and "codecs_agree cext ext" "here \<notin> range addr" "net_step ext cext pending addr here reg s t"
  shows "traffic_honest ext addr t"
proof -
  note wire = assms(1) [unfolded traffic_honest_def, THEN conjunct1, rule_format]
  note inbox = assms(1) [unfolded traffic_honest_def, THEN conjunct2, rule_format]
  from assms(6) show ?thesis
  proof (cases rule: net_step.cases)
    case (submit i b h c)
    then show ?thesis
      using wire inbox honest_mono [of ext addr "net_submitted s" _ _ i "[b]"] by (simp add: traffic_honest_def)
  next
    case (client_turn i c r)
    have ord: "client_in_order (net_client s i) (net_submitted s i)" and cod: "codable (net_submitted s i)"
      using assms(2,3) by (simp_all add: clients_in_order_def all_codable_def)
    have "honest ext addr (net_submitted s) bs src"
      if "(bs, src, dst) \<in> newly_sent (cll_socket (net_client s i)) (cll_socket c) (addr i)" for bs src dst
      using client_turn_wire [OF ord assms(4) cod client_turn(2) that]
        honest_client [of ext bs "net_submitted s" i addr] by simp
    with wire inbox show ?thesis unfolding client_turn(1) traffic_honest_def by auto
  next
    case (server_turn v r)
    have "set (udp_in (sll_socket v)) \<subseteq> set (udp_in (sll_socket (net_server s)))"
      using sll_spin_once_frame [OF server_turn(2)] by blast
    moreover have "honest ext addr (net_submitted s) bs src"
      if "(bs, src, dst) \<in> newly_sent (sll_socket (net_server s)) (sll_socket v) here" for bs src dst
      using newly_sent_src [OF that] assms(5) by (simp add: honest_stranger)
    ultimately show ?thesis using wire inbox unfolding server_turn(1) traffic_honest_def by auto
  next
    case (server_receives bs src sock)
    with wire inbox show ?thesis by (auto simp: traffic_honest_def)
  next
    case (stranger src bs dst)
    have "honest ext addr (net_submitted s) bs src" using stranger(2) by (rule honest_stranger)
    with wire inbox show ?thesis unfolding stranger(1) traffic_honest_def by auto
  qed (use wire inbox in \<open>auto simp: traffic_honest_def\<close>)
qed

subsection \<open>What the application gets\<close>

text \<open>A delivered sequence is a stretch of the inputs of a client of the name it is under.\<close>

definition has_a_cause :: "(nat \<Rightarrow> socket_addr) \<Rightarrow> (socket_addr \<rightharpoonup> username) \<Rightarrow> (nat \<Rightarrow> bitvec list) \<Rightarrow> servicer_message \<Rightarrow> bool" where
  "has_a_cause addr reg sub m \<longleftrightarrow>
     (\<forall>cs. sm_payload m = PayloadControllerSequence cs \<longrightarrow>
        (\<exists>i. reg (addr i) = Some (sm_from m) \<and> sublist (cs_seq cs) (sub i)))"

lemma has_a_cause_mono:
  "has_a_cause addr reg sub m \<Longrightarrow> has_a_cause addr reg (sub(i := sub i @ xs)) m"
  unfolding has_a_cause_def by (metis fun_upd_apply sublist_append_rightI sublist_order.order_trans)

lemma server_turn_cause:
  assumes "book_registered ext ok pending reg v" "dom reg \<subseteq> range addr"
    and "\<And>bs src. Inr (bs, src) \<in> set (udp_in (sll_socket s)) \<Longrightarrow> honest ext addr sub bs src"
    and "sll_spin_once ext s = Ret (v, r)"
  shows "queue (sll_to_application v) = queue (sll_to_application s) \<or>
    (\<exists>m. has_a_cause addr reg sub m \<and> queue (sll_to_application v) = queue (sll_to_application s) @ [m])"
  using sll_spin_once_queue [OF assms(4)]
proof (elim disjE exE conjE)
  fix d src rest input m
  assume inbox: "udp_in (sll_socket s) = Inr (d, src) # rest"
    and input: "ext_deserialize ext (take MAX_PACKET_SIZE d) = Inr (ControllerInput input)"
    and fwd: "forwards ext (address_user v) (last_tick_received s) src input (last_tick_received v) m"
    and new: "queue (sll_to_application v) = queue (sll_to_application s) @ [m]"
  from fwd assms(1) have src: "reg src = Some (sm_from m)"
    by (simp add: forwards_def book_registered_def)
  moreover have "honest ext addr sub d src" using assms(3) inbox by simp
  ultimately obtain i where i: "src = addr i" "decodes_into ext d (sub i)"
    using assms(2) unfolding honest_def by blast
  have "has_a_cause addr reg sub m"
    using fwd input i src unfolding forwards_def has_a_cause_def decodes_into_def by auto
  with new show ?thesis by blast
qed simp

lemma app_takes_delivered:
  assumes "receive_iter_next (w\<lparr>from_servicer := sll_to_application (net_server s)\<rparr>) = Ret (w', Some m)"
  shows "net_delivered (s\<lparr>net_server := (net_server s)\<lparr>sll_to_application := from_servicer w'\<rparr>,
    net_taken := net_taken s @ [m]\<rparr>) = net_delivered s"
  using assms by (auto simp: net_delivered_def receive_iter_next_def split: list.splits if_splits)

text \<open>How a step changes what has been delivered.\<close>

lemma delivered_step:
  assumes "net_step ext cext pending addr here reg s t"
  shows "net_delivered t = net_delivered s \<or>
    (\<exists>v r. sll_spin_once ext (net_server s) = Ret (v, r) \<and> net_server t = v \<and> net_submitted t = net_submitted s \<and>
       net_delivered t = net_taken s @ queue (sll_to_application v)) \<or>
    (\<exists>m. (\<forall>cs. sm_payload m \<noteq> PayloadControllerSequence cs) \<and> net_submitted t = net_submitted s \<and>
       last_tick_received (net_server t) = last_tick_received (net_server s) \<and>
       net_delivered t = net_delivered s @ [m])"
  using assms
proof (cases rule: net_step.cases)
  case (app_takes w w' m)
  with app_takes_delivered [OF app_takes(2)] show ?thesis by simp
next
  case (reliable_sends m ch res)
  then show ?thesis by (auto simp: net_delivered_def mpsc_send_def split: if_splits)
qed (simp_all add: net_delivered_def)

lemma submitted_grows:
  assumes "net_step ext cext pending addr here reg s t"
  shows "net_submitted t = net_submitted s \<or>
    (\<exists>i b. net_submitted t = (net_submitted s)(i := net_submitted s i @ [b]))"
  using assms by (cases rule: net_step.cases) auto

definition all_caused :: "(nat \<Rightarrow> socket_addr) \<Rightarrow> (socket_addr \<rightharpoonup> username) \<Rightarrow> ('r, 'm) net \<Rightarrow> bool" where
  "all_caused addr reg s \<longleftrightarrow> (\<forall>m \<in> set (net_delivered s). has_a_cause addr reg (net_submitted s) m)"

lemma all_caused_step:
  assumes "all_caused addr reg s" "traffic_honest ext addr s" "book_registered ext ok pending reg (net_server t)"
    and "dom reg \<subseteq> range addr" "net_step ext cext pending addr here reg s t"
  shows "all_caused addr reg t"
  using delivered_step [OF assms(5)]
proof (elim disjE exE conjE)
  assume same: "net_delivered t = net_delivered s"
  from submitted_grows [OF assms(5)] assms(1) has_a_cause_mono show ?thesis
    unfolding all_caused_def same by fastforce
next
  fix v r
  assume turn: "sll_spin_once ext (net_server s) = Ret (v, r)" "net_server t = v" "net_submitted t = net_submitted s"
    and delivered: "net_delivered t = net_taken s @ queue (sll_to_application v)"
  have "honest ext addr (net_submitted s) bs src" if "Inr (bs, src) \<in> set (udp_in (sll_socket (net_server s)))" for bs src
    using assms(2) that by (auto simp: traffic_honest_def)
  from server_turn_cause [OF assms(3) [unfolded turn(2)] assms(4) this turn(1)] assms(1) show ?thesis
    unfolding all_caused_def turn(3) delivered by (auto simp: net_delivered_def)
next
  fix m
  assume "\<forall>cs. sm_payload m \<noteq> PayloadControllerSequence cs" "net_submitted t = net_submitted s"
    "net_delivered t = net_delivered s @ [m]"
  with assms(1) show ?thesis by (auto simp: all_caused_def has_a_cause_def)
qed

text \<open>The invariant of the game.\<close>

definition game_invariant ::
  "('r, 'm, 'be) sll_ext \<Rightarrow> ('m \<Rightarrow> bool) \<Rightarrow> ('r \<Rightarrow> sll_app_message list) \<Rightarrow> (nat \<Rightarrow> socket_addr) \<Rightarrow>
     (socket_addr \<rightharpoonup> username) \<Rightarrow> ('r, 'm) net \<Rightarrow> bool" where
  "game_invariant ext ok pending addr reg s \<longleftrightarrow>
     clients_in_order s \<and> book_registered ext ok pending reg (net_server s) \<and>
     (all_codable s \<longrightarrow> traffic_honest ext addr s \<and> all_caused addr reg s)"

lemma game_invariant_step:
  assumes "receiver (ext_try_recv ext) pending connected" "bidir_laws ext ok" "codecs_agree cext ext"
    and "here \<notin> range addr" "dom reg \<subseteq> range addr"
    and "game_invariant ext ok pending addr reg s" "net_step ext cext pending addr here reg s t"
  shows "game_invariant ext ok pending addr reg t"
proof -
  from assms(6) have inv: "clients_in_order s" "book_registered ext ok pending reg (net_server s)"
    and honest: "all_codable s \<Longrightarrow> traffic_honest ext addr s" "all_codable s \<Longrightarrow> all_caused addr reg s"
    by (simp_all add: game_invariant_def)
  have ord: "clients_in_order t" using inv(1) assms(7) by (rule clients_in_order_step)
  have book: "book_registered ext ok pending reg (net_server t)"
    using assms(1,2) inv(2) assms(7) by (rule book_registered_step)
  have "traffic_honest ext addr t \<and> all_caused addr reg t" if t: "all_codable t"
  proof -
    have s: "all_codable s" using assms(7) t by (rule all_codable_back)
    show ?thesis
      using traffic_honest_step [OF honest(1) [OF s] inv(1) s assms(3,4,7)]
        all_caused_step [OF honest(2) [OF s] honest(1) [OF s] book assms(5,7)] by blast
  qed
  with ord book show ?thesis by (simp add: game_invariant_def)
qed

lemma game_invariant_init: "net_init ext ok pending reg s \<Longrightarrow> game_invariant ext ok pending addr reg s"
  by (simp add: net_init_def game_invariant_def clients_in_order_def client_in_order_def in_line_def
      traffic_honest_def all_caused_def net_delivered_def)

subsection \<open>Ticks of what the application gets\<close>

definition ends_by :: "usize \<Rightarrow> servicer_message \<Rightarrow> bool" where
  "ends_by tick m \<longleftrightarrow>
     (\<forall>cs. sm_payload m = PayloadControllerSequence cs \<longrightarrow> (\<exists>t. last_tick cs = Ret t \<and> t \<le> tick))"

definition ends_before :: "servicer_message \<Rightarrow> servicer_message \<Rightarrow> bool" where
  "ends_before m m' \<longleftrightarrow>
     (\<forall>cs cs'. sm_payload m = PayloadControllerSequence cs \<longrightarrow> sm_payload m' = PayloadControllerSequence cs' \<longrightarrow>
        (\<exists>t t'. last_tick cs = Ret t \<and> last_tick cs' = Ret t' \<and> t < t'))"

lemma ends_by_mono: "ends_by t m \<Longrightarrow> t \<le> t' \<Longrightarrow> ends_by t' m"
  unfolding ends_by_def by (meson order_trans)

lemma ends_before_forwarded:
  "ends_by before m \<Longrightarrow> forwards ext book before src input t m' \<Longrightarrow> ends_before m m'"
  unfolding ends_by_def ends_before_def forwards_def by fastforce

lemma ends_before_irrefl: "sm_payload m = PayloadControllerSequence cs \<Longrightarrow> \<not> ends_before m m"
  by (auto simp: ends_before_def)

lemma sorted_wrt_count:
  "sorted_wrt P xs \<Longrightarrow> x \<in> set xs \<Longrightarrow> \<not> P x x \<Longrightarrow> count_list xs x = 1"
  by (induction xs) (auto simp: count_list_0_iff)

definition ticks_in_order :: "('r, 'm) net \<Rightarrow> bool" where
  "ticks_in_order s \<longleftrightarrow> sorted_wrt ends_before (net_delivered s) \<and>
     (\<forall>m \<in> set (net_delivered s). ends_by (last_tick_received (net_server s)) m)"

lemma ticks_in_order_same:
  "ticks_in_order s \<Longrightarrow> net_delivered t = net_delivered s \<Longrightarrow>
   last_tick_received (net_server s) \<le> last_tick_received (net_server t) \<Longrightarrow> ticks_in_order t"
  unfolding ticks_in_order_def using ends_by_mono by metis

lemma ticks_in_order_turn:
  assumes "ticks_in_order s" "sll_spin_once ext (net_server s) = Ret (v, r)"
    and "net_server t = v" "net_delivered t = net_taken s @ queue (sll_to_application v)"
  shows "ticks_in_order t"
  using sll_spin_once_queue [OF assms(2)]
proof (elim disjE exE conjE)
  assume "queue (sll_to_application v) = queue (sll_to_application (net_server s))"
  with assms(4) have "net_delivered t = net_delivered s" by (simp add: net_delivered_def)
  with assms(1) show ?thesis
    by (rule ticks_in_order_same) (use sll_spin_once_mono [OF assms(2)] assms(3) in simp)
next
  fix d src rest input m
  assume fwd: "forwards ext (address_user v) (last_tick_received (net_server s)) src input (last_tick_received v) m"
    and "queue (sll_to_application v) = queue (sll_to_application (net_server s)) @ [m]"
  then have new: "net_delivered t = net_delivered s @ [m]"
    using assms(4) by (simp add: net_delivered_def)
  have old: "sorted_wrt ends_before (net_delivered s)"
    "\<And>x. x \<in> set (net_delivered s) \<Longrightarrow> ends_by (last_tick_received (net_server s)) x"
    using assms(1) by (simp_all add: ticks_in_order_def)
  have "ends_by (last_tick_received v) m" using fwd by (auto simp: ends_by_def forwards_def)
  moreover have "ends_by (last_tick_received v) x" if "x \<in> set (net_delivered s)" for x
    using old(2) [OF that] sll_spin_once_mono [OF assms(2)] by (rule ends_by_mono)
  ultimately show ?thesis
    using old ends_before_forwarded [OF _ fwd] by (auto simp: ticks_in_order_def new sorted_wrt_append assms(3))
qed

lemma last_tick_step:
  assumes "net_step ext cext pending addr here reg s t"
  shows "last_tick_received (net_server s) \<le> last_tick_received (net_server t)"
  using assms
proof (cases rule: net_step.cases)
  case (server_turn v r)
  with sll_spin_once_mono [OF server_turn(2)] show ?thesis by simp
qed simp_all

lemma ticks_in_order_step:
  assumes "ticks_in_order s" "net_step ext cext pending addr here reg s t"
  shows "ticks_in_order t"
  using delivered_step [OF assms(2)]
proof (elim disjE exE conjE)
  assume "net_delivered t = net_delivered s"
  with assms(1) show ?thesis by (rule ticks_in_order_same) (rule last_tick_step [OF assms(2)])
next
  fix v r
  assume "sll_spin_once ext (net_server s) = Ret (v, r)" "net_server t = v"
    "net_delivered t = net_taken s @ queue (sll_to_application v)"
  then show ?thesis by (rule ticks_in_order_turn [OF assms(1)])
next
  fix m
  assume "\<forall>cs. sm_payload m \<noteq> PayloadControllerSequence cs"
    "last_tick_received (net_server t) = last_tick_received (net_server s)"
    "net_delivered t = net_delivered s @ [m]"
  with assms(1) show ?thesis
    by (auto simp: ticks_in_order_def sorted_wrt_append ends_before_def ends_by_def)
qed

lemma ticks_in_order_init: "net_init ext ok pending reg s \<Longrightarrow> ticks_in_order s"
  by (simp add: net_init_def ticks_in_order_def net_delivered_def)

subsection \<open>A small game\<close>

definition toy_addr :: "nat \<Rightarrow> socket_addr" where
  "toy_addr i = (if i = 0 then ann_addr else bob_addr)"

definition toy_reg :: "socket_addr \<rightharpoonup> username" where
  "toy_reg = [ann_addr \<mapsto> ann, bob_addr \<mapsto> bob]"

definition toy_net :: "(sll_app_message mpsc, (socket_addr \<times> username) list) net" where
  "toy_net = \<lparr>net_server = toy_servicer [], net_handle = (\<lambda>i. toy_handle), net_client = (\<lambda>i. toy_client cs_new),
     net_wire = {}, net_submitted = (\<lambda>i. []), net_taken = []\<rparr>"

definition toy_input :: bitvec where
  "toy_input = bitvec_of [True, False]"

text \<open>Ann submits two inputs, her servicer sends them, and they arrive.\<close>

definition toy_waiting :: "bitvec list \<Rightarrow> cll_servicer" where
  "toy_waiting bs = (toy_client cs_new)\<lparr>cll_from_application := mpsc_channel\<lparr>queue := map Control bs\<rparr>\<rparr>"

definition toy_submitted :: "bitvec list \<Rightarrow> (sll_app_message mpsc, (socket_addr \<times> username) list) net" where
  "toy_submitted bs = toy_net\<lparr>net_handle := (\<lambda>i. toy_handle)
        (0 := toy_handle\<lparr>cl_to_low_latency_servicer := mpsc_channel\<lparr>queue := map Control bs\<rparr>\<rparr>),
     net_client := (\<lambda>i. toy_client cs_new)(0 := toy_waiting bs), net_submitted := (\<lambda>i. [])(0 := bs)\<rparr>"

lemma toy_submits:
  "app_submit (toy_handle\<lparr>cl_to_low_latency_servicer := ch\<rparr>) (toy_waiting bs) b =
     ((toy_handle\<lparr>cl_to_low_latency_servicer := mpsc_channel\<lparr>queue := map Control (bs @ [b])\<rparr>\<rparr>,
       toy_waiting (bs @ [b])), Inr ())"
  by (simp add: app_submit_def send_controller_input_def mpsc_send_def toy_waiting_def toy_handle_def mpsc_channel_def)

lemma toy_client_turn:
  "\<exists>c. cll_spin_once toy_cll_ext (toy_waiting (cs_seq toy_inputs)) = Ret (c, Inr ()) \<and>
     udp_out (cll_socket c) = [(toy_datagram, SockV4 0 0)]"
  using client_turn_sends [of "toy_waiting (cs_seq toy_inputs)" toy_inputs 2 toy_compressed toy_cll_ext toy_datagram]
    toy_encodable toy_compresses
  by (auto simp: toy_waiting_def toy_client_def cs_new_def control_states_def toy_inputs_def toy_cll_ext_def
      mpsc_channel_def toy_datagram_def MAX_PACKET_SIZE_def)

abbreviation toy_reach ::
  "(sll_app_message mpsc, (socket_addr \<times> username) list) net \<Rightarrow> bool" where
  "toy_reach \<equiv> net_reach toy_ext toy_cll_ext queue toy_addr (SockV4 0 0) toy_reg toy_net"

lemma toy_game_submit:
  assumes "toy_reach (toy_submitted bs)"
  shows "toy_reach (toy_submitted (bs @ [b]))"
proof (rule net_go [OF assms])
  have "net_step toy_ext toy_cll_ext queue toy_addr (SockV4 0 0) toy_reg (toy_submitted bs)
    ((toy_submitted bs)\<lparr>net_handle := (net_handle (toy_submitted bs))
        (0 := toy_handle\<lparr>cl_to_low_latency_servicer := mpsc_channel\<lparr>queue := map Control (bs @ [b])\<rparr>\<rparr>),
      net_client := (net_client (toy_submitted bs))(0 := toy_waiting (bs @ [b])),
      net_submitted := (net_submitted (toy_submitted bs))(0 := net_submitted (toy_submitted bs) 0 @ [b])\<rparr>)"
    by (rule net_step.submit) (simp_all add: toy_submitted_def toy_submits, simp add: toy_waiting_def mpsc_channel_def)
  then show "net_step toy_ext toy_cll_ext queue toy_addr (SockV4 0 0) toy_reg (toy_submitted bs) (toy_submitted (bs @ [b]))"
    by (simp add: toy_submitted_def)
qed

lemma toy_game:
  "\<exists>s. toy_reach s \<and>
     net_delivered s = [\<lparr>sm_from = ann, sm_payload = PayloadControllerSequence toy_inputs\<rparr>] \<and>
     net_submitted s = (\<lambda>i. if i = 0 then cs_seq toy_inputs else [])"
proof -
  have "toy_submitted [] = toy_net"
    by (simp add: toy_submitted_def toy_net_def toy_waiting_def toy_handle_def toy_client_def mpsc_channel_def fun_eq_iff)
  then have "toy_reach (toy_submitted [])" by (simp add: net_start)
  from toy_game_submit [OF toy_game_submit [OF this], of toy_input toy_input]
  have s1: "toy_reach (toy_submitted (cs_seq toy_inputs))" by (simp add: toy_inputs_def toy_input_def)
  let ?s1 = "toy_submitted (cs_seq toy_inputs)"
  obtain c where c: "cll_spin_once toy_cll_ext (net_client ?s1 0) = Ret (c, Inr ())"
    "udp_out (cll_socket c) = [(toy_datagram, SockV4 0 0)]"
    using toy_client_turn by (auto simp: toy_submitted_def)
  let ?s2 = "?s1\<lparr>net_client := (net_client ?s1)(0 := c),
    net_wire := net_wire ?s1 \<union> newly_sent (cll_socket (net_client ?s1 0)) (cll_socket c) (toy_addr 0)\<rparr>"
  have s2: "toy_reach ?s2" by (rule net_go [OF s1], rule net_step.client_turn [OF c(1)])
  have "(toy_datagram, ann_addr, SockV4 0 0) \<in> net_wire ?s2"
    using c(2) by (simp add: newly_sent_def toy_submitted_def toy_waiting_def toy_client_def toy_addr_def toy_net_def)
  note arrives = net_step.server_receives [OF this refl]
  let ?s3 = "?s2\<lparr>net_server := toy_servicer [Inr (toy_datagram, ann_addr)]\<rparr>"
  have s3: "toy_reach ?s3"
    using net_go [OF s2 arrives] by (simp add: toy_submitted_def toy_net_def toy_servicer_def sll_new_def quiet_socket_def)
  have turn: "sll_spin_once toy_ext (net_server ?s3) = Ret (toy_served, Inr ())" using toy_turn by simp
  show ?thesis
    by (rule exI, rule conjI, rule net_go [OF s3], rule net_step.server_turn [OF turn])
      (simp add: net_delivered_def toy_submitted_def toy_net_def toy_served_def fun_eq_iff)
qed

lemma toy_init: "net_init toy_ext pairs_ok queue toy_reg toy_net"
proof -
  have "bm_get_by_first toy_ext (address_user (toy_servicer [])) = toy_reg"
    by (simp add: toy_defs toy_reg_def fun_eq_iff)
  then show ?thesis
    by (simp add: net_init_def toy_net_def book_registered_def)
      (simp add: toy_defs pairs_ok_def toy_client_def cs_new_def)
qed

lemma toy_codecs: "codecs_agree toy_cll_ext toy_ext"
  using toy_decodes(1) by (simp add: codecs_agree_def toy_cll_ext_def)

lemma toy_receiver: "receiver (ext_try_recv toy_ext) queue sender_alive"
  using mpsc.receiver_axioms by (simp add: toy_ext_def pairs_ext_def)

lemma toy_bidir: "bidir_laws toy_ext pairs_ok"
  unfolding toy_ext_def by (rule bidir_laws_pairs)

lemma toy_addresses: "SockV4 0 0 \<notin> range toy_addr" "dom toy_reg \<subseteq> range toy_addr"
proof -
  show "SockV4 0 0 \<notin> range toy_addr" by (auto simp: toy_addr_def ann_addr_def bob_addr_def)
  have "toy_addr 0 = ann_addr" "toy_addr 1 = bob_addr" by (simp_all add: toy_addr_def)
  then show "dom toy_reg \<subseteq> range toy_addr" by (auto simp: toy_reg_def intro: range_eqI [OF sym])
qed

lemma toy_codable:
  "net_submitted s = (\<lambda>i. if i = 0 then cs_seq toy_inputs else []) \<Longrightarrow> all_codable s"
  by (auto simp: all_codable_def codable_def toy_inputs_def intro!: exI [of _ 2])

subsection \<open>Properties\<close>

text \<open>
  C1: nothing is forged. In every reachable state of a game, over a network that loses, repeats
  and reorders datagrams and on which strangers put whatever they want, each controller sequence
  that the server's application has got, or will find on its queue, is a contiguous stretch,
  in order, of the inputs that some client's application has submitted, and it is under the
  name that the application registered for that client's address. (Strangers cannot send from a
  client's address; the serializers of the two sides agree; the inputs of a client have one
  width.)
\<close>

theorem delivered_inputs_have_a_cause:
  assumes "receiver (ext_try_recv ext) pending connected" "bidir_laws ext ok" "codecs_agree cext ext"
    and "here \<notin> range addr" "dom reg \<subseteq> range addr"
    and "net_init ext ok pending reg s0" "net_reach ext cext pending addr here reg s0 s" "all_codable s"
    and "m \<in> set (net_delivered s)" "sm_payload m = PayloadControllerSequence cs"
  shows "\<exists>i. reg (addr i) = Some (sm_from m) \<and> sublist (cs_seq cs) (net_submitted s i)"
proof -
  have "game_invariant ext ok pending addr reg s"
    using assms(7) game_invariant_init [OF assms(6)]
    by (rule net_reach_invariant) (rule game_invariant_step [OF assms(1-5)])
  with assms(8-10) show ?thesis
    by (auto simp: game_invariant_def all_caused_def has_a_cause_def)
qed

theorem delivered_inputs_have_a_cause_witness:
  "\<exists>s i. toy_reach s \<and> net_delivered s = [\<lparr>sm_from = ann, sm_payload = PayloadControllerSequence toy_inputs\<rparr>] \<and>
     toy_reg (toy_addr i) = Some ann \<and> sublist (cs_seq toy_inputs) (net_submitted s i)"
proof -
  obtain s where s: "toy_reach s"
    "net_delivered s = [\<lparr>sm_from = ann, sm_payload = PayloadControllerSequence toy_inputs\<rparr>]"
    "net_submitted s = (\<lambda>i. if i = 0 then cs_seq toy_inputs else [])"
    using toy_game by blast
  from delivered_inputs_have_a_cause [OF toy_receiver toy_bidir toy_codecs toy_addresses toy_init s(1)
      toy_codable [OF s(3)], of "\<lparr>sm_from = ann, sm_payload = PayloadControllerSequence toy_inputs\<rparr>" toy_inputs]
  show ?thesis using s(1,2) by auto
qed

text \<open>
  C3: deliveries advance. In every reachable state of a game the controller sequences that the
  server's application has got or will get end later one after another, and none ends after
  the tick on record: each brings the game to a later tick than all before it. So a datagram
  that the network delivers again is not forwarded again, and no sequence occurs twice under
  one name. A single input may: a longer sequence that starts with inputs already forwarded is
  forwarded whole (\<open>longer_sequence_repeats\<close>), and see C25.
\<close>

theorem delivered_inputs_advance:
  assumes "net_init ext ok pending reg s0" "net_reach ext cext pending addr here reg s0 s"
  shows "sorted_wrt ends_before (net_delivered s) \<and>
    (\<forall>m \<in> set (net_delivered s). ends_by (last_tick_received (net_server s)) m) \<and>
    (\<forall>m \<in> set (net_delivered s). \<forall>cs. sm_payload m = PayloadControllerSequence cs \<longrightarrow>
       count_list (net_delivered s) m = 1)"
proof -
  have "ticks_in_order s"
    using assms(2) ticks_in_order_init [OF assms(1)]
    by (rule net_reach_invariant) (rule ticks_in_order_step)
  then show ?thesis
    using sorted_wrt_count [of ends_before "net_delivered s"] ends_before_irrefl by (auto simp: ticks_in_order_def)
qed

theorem delivered_inputs_advance_witness:
  "\<exists>s. toy_reach s \<and> net_delivered s \<noteq> [] \<and> sorted_wrt ends_before (net_delivered s)"
proof -
  obtain s where "toy_reach s" "net_delivered s \<noteq> []" using toy_game by force
  with delivered_inputs_advance [OF toy_init this(1)] show ?thesis by blast
qed

text \<open>
  C4: a client neither loses an input from the middle, nor repeats, nor reorders any. In every
  reachable state of a game, what a client still holds (its sequence, then the queue from its
  application) is a contiguous stretch of what its application has submitted, and it reaches to
  the last one submitted for as long as the application lives: acknowledgments, whatever they
  say, only remove inputs from the front.
\<close>

theorem client_holds_inputs_in_order:
  assumes "net_init ext ok pending reg s0" "net_reach ext cext pending addr here reg s0 s"
  shows "let c = net_client s i; held = cs_seq (controller_seq c) @ control_states (queue (cll_from_application c))
    in sublist held (net_submitted s i) \<and>
       (sender_alive (cll_from_application c) \<longrightarrow> suffix held (net_submitted s i))"
  using clients_in_order_reach [OF assms]
  by (simp add: clients_in_order_def client_in_order_def in_line_def Let_def)

theorem client_holds_inputs_in_order_witness:
  "\<exists>s. toy_reach s \<and> net_submitted s 0 = cs_seq toy_inputs \<and>
     sublist (cs_seq (controller_seq (net_client s 0))) (cs_seq toy_inputs)"
proof -
  obtain s where s: "toy_reach s" "net_submitted s 0 = cs_seq toy_inputs" using toy_game by auto
  from client_holds_inputs_in_order [OF toy_init s(1), of 0] s show ?thesis
    unfolding Let_def by (metis sublist_append_rightI sublist_order.order_trans)
qed

end
