(* ===== verification/SharedQueue.thy ===== *)
theory SharedQueue
  imports Server
begin

text \<open>
  All TCP servicers of a server together with the queue they share. The application sends on
  the one \<open>spmc\<close> channel of the server's handle, every servicer holds a clone of its receiving
  end, and each message comes out of one of them only. The channel is one value that all ends
  work on: a servicer's turn starts with it and leaves it behind for the others.
\<close>

record 'q hall =
  hall_queue :: 'q
  hall_servicer :: "nat \<Rightarrow> 'q sre_servicer"
  hall_sent :: "sre_app_message list"
  hall_log :: "(nat option \<times> sre_app_message) list"

text \<open>
  \<open>hall_sent\<close> and \<open>hall_log\<close> record history only: what the application's calls have sent, and
  which servicer has got each message (\<open>None\<close> is a drain that found the sender gone and failed).
  Between its turns the streams, queues and flags of a servicer change as the network and the
  other threads please. A turn whose read waits for the client has taken its messages and written
  those for its user by then: \<open>waits\<close> is such a turn up to the read.
\<close>

inductive hall_step ::
  "('q, 'be) sre_ext \<Rightarrow> ('q, sre_app_message) send_fun \<Rightarrow> ('q \<Rightarrow> sre_app_message list) \<Rightarrow> ('q \<Rightarrow> bool) \<Rightarrow>
     'q hall \<Rightarrow> 'q hall \<Rightarrow> bool"
  for ext :: "('q, 'be) sre_ext" and send pending connected where
  sends: "send_reliable send ((v :: (unit, unit, unit, 'q) server)\<lparr>to_reliable_servicer := hall_queue s\<rparr>) m = (v', Inr ()) \<Longrightarrow>
    hall_step ext send pending connected s
      (s\<lparr>hall_queue := to_reliable_servicer v', hall_sent := hall_sent s @ [m]\<rparr>)"
| hangs_up: "pending q = pending (hall_queue s) \<Longrightarrow> \<not> connected q \<Longrightarrow>
    hall_step ext send pending connected s (s\<lparr>hall_queue := q\<rparr>)"
| turn: "sre_spin_once ext ((hall_servicer s i)\<lparr>sre_from_application := hall_queue s\<rparr>) = Ret (c, r) \<Longrightarrow>
    hall_step ext send pending connected s
      (s\<lparr>hall_queue := sre_from_application c, hall_servicer := (hall_servicer s)(i := c),
         hall_log := hall_log s @
           map (Pair (if connected (hall_queue s) then Some i else None)) (pending (hall_queue s))\<rparr>)"
| waits: "c0 = (hall_servicer s i)\<lparr>sre_from_application := hall_queue s\<rparr> \<Longrightarrow>
    drain_spmc_receiver (re_try_recv ext) (hall_queue s) = Ret (q, Inr ms) \<Longrightarrow>
    sre_forward ext (c0\<lparr>sre_from_application := q\<rparr>) ms = Ret (c, Inr ()) \<Longrightarrow> sre_receive ext c = Diverge \<Longrightarrow>
    hall_step ext send pending connected s
      (s\<lparr>hall_queue := sre_from_application c, hall_servicer := (hall_servicer s)(i := c),
         hall_log := hall_log s @ map (Pair (Some i)) (pending (hall_queue s))\<rparr>)"
| surroundings: "stream = (sre_stream (hall_servicer s i))\<lparr>tcp_in := arriving, tcp_in_closed := closed\<rparr> \<Longrightarrow>
    c = (hall_servicer s i)\<lparr>sre_stream := stream, server_running := running, sre_to_application := ch\<rparr> \<Longrightarrow>
    hall_step ext send pending connected s (s\<lparr>hall_servicer := (hall_servicer s)(i := c)\<rparr>)"

inductive hall_reach ::
  "('q, 'be) sre_ext \<Rightarrow> ('q, sre_app_message) send_fun \<Rightarrow> ('q \<Rightarrow> sre_app_message list) \<Rightarrow> ('q \<Rightarrow> bool) \<Rightarrow>
     'q hall \<Rightarrow> 'q hall \<Rightarrow> bool"
  for ext :: "('q, 'be) sre_ext" and send pending connected s0 where
  hall_start: "hall_reach ext send pending connected s0 s0"
| hall_go: "hall_reach ext send pending connected s0 s \<Longrightarrow> hall_step ext send pending connected s t \<Longrightarrow>
    hall_reach ext send pending connected s0 t"

text \<open>What servicer \<open>i\<close> has got.\<close>

definition taken_by :: "nat \<Rightarrow> (nat option \<times> sre_app_message) list \<Rightarrow> sre_app_message list" where
  "taken_by i log = map snd (filter (\<lambda>p. fst p = Some i) log)"

lemma taken_by_simps [simp]:
  "taken_by i [] = []" "taken_by i (xs @ ys) = taken_by i xs @ taken_by i ys"
  "taken_by i (map (Pair who) ms) = (if who = Some i then ms else [])"
  by (simp_all add: taken_by_def filter_map comp_def)

lemma addressed_to_append [simp]: "addressed_to u (xs @ ys) = addressed_to u xs @ addressed_to u ys"
  by (simp add: addressed_to_def)

subsection \<open>One turn\<close>

lemma open_drain:
  assumes "receiver (re_try_recv ext) pending connected" "\<And>m. re_serialize ext m = Inr (enc m)"
    and "tcp_open (sre_stream s)" "connected q0"
  obtains q where "drain_spmc_receiver (re_try_recv ext) q0 = Ret (q, Inr (pending q0))" "pending q = []"
    "sre_forward ext (s\<lparr>sre_from_application := q\<rparr>) (pending q0) =
       Ret (s\<lparr>sre_from_application := q, sre_stream := (sre_stream s)\<lparr>tcp_out := tcp_out (sre_stream s) @
         concat (map enc (addressed_to (sre_user s) (pending q0)))\<rparr>\<rparr>, Inr ())"
proof -
  obtain q where "drain_spmc_receiver (re_try_recv ext) q0 = Ret (q, Inr (pending q0))" "pending q = []"
    using receiver.drain_connected [OF assms(1,4)] by blast
  then show thesis
    using sre_forward_open [of "s\<lparr>sre_from_application := q\<rparr>" ext enc "pending q0"] assms(2,3) by (intro that) simp_all
qed

lemma open_turn:
  assumes "receiver (re_try_recv ext) pending connected" "\<And>m. re_serialize ext m = Inr (enc m)"
    and "tcp_open (sre_stream s)" "sre_spin_once ext s = Ret (s', r)"
  shows "sre_user s' = sre_user s \<and> tcp_open (sre_stream s') \<and>
    pending (sre_from_application s') = [] \<and>
    tcp_out (sre_stream s') = tcp_out (sre_stream s) @
      (if connected (sre_from_application s)
       then concat (map enc (addressed_to (sre_user s) (pending (sre_from_application s)))) else [])"
proof (cases "connected (sre_from_application s)")
  case True
  let ?ms = "pending (sre_from_application s)"
  obtain q where q: "drain_spmc_receiver (re_try_recv ext) (sre_from_application s) = Ret (q, Inr ?ms)" "pending q = []"
    "sre_forward ext (s\<lparr>sre_from_application := q\<rparr>) ?ms =
       Ret (s\<lparr>sre_from_application := q, sre_stream := (sre_stream s)\<lparr>tcp_out := tcp_out (sre_stream s) @
         concat (map enc (addressed_to (sre_user s) ?ms))\<rparr>\<rparr>, Inr ())" (is "_ = Ret (?s1, _)")
    by (rule open_drain [OF assms(1,2,3) True])
  from assms(4) q(1,3) have receive: "sre_receive ext ?s1 = Ret (s', r)" by (simp add: sre_spin_once_def)
  show ?thesis
    using sre_receive_frame [OF receive] q(2) True assms(3) by (simp add: sre_fixed_def tcp_open_def)
next
  case False
  obtain q where "drain_spmc_receiver (re_try_recv ext) (sre_from_application s) = Ret (q, Inl ApplicationThreadDisconnected)"
    "pending q = []"
    using receiver.drain_disconnected [OF assms(1) False] by blast
  with assms(3,4) False show ?thesis by (auto simp: sre_spin_once_def)
qed

subsection \<open>The invariant\<close>

text \<open>
  Every message sent has come out of the queue once, in order, or waits in it; and each
  servicer has written the messages for its user among those it got itself.
\<close>

definition hall_invariant ::
  "(re_server_message \<Rightarrow> byte list) \<Rightarrow> ('q \<Rightarrow> sre_app_message list) \<Rightarrow> 'q hall \<Rightarrow> 'q hall \<Rightarrow> bool" where
  "hall_invariant enc pending s0 s \<longleftrightarrow>
     hall_sent s = map snd (hall_log s) @ pending (hall_queue s) \<and>
     (\<forall>i. tcp_open (sre_stream (hall_servicer s i)) \<and>
        sre_user (hall_servicer s i) = sre_user (hall_servicer s0 i) \<and>
        tcp_out (sre_stream (hall_servicer s i)) = tcp_out (sre_stream (hall_servicer s0 i)) @
          concat (map enc (addressed_to (sre_user (hall_servicer s0 i)) (taken_by i (hall_log s)))))"

lemma send_reliable_queue:
  assumes "channel try_recv pending connected send alive"
    and "send_reliable send (v\<lparr>to_reliable_servicer := q\<rparr>) m = (v', Inr ())"
  shows "pending (to_reliable_servicer v') = pending q @ [m]"
proof (cases "alive q")
  case True
  from channel.send_alive [OF assms(1) True, of m] assms(2) show ?thesis
    by (auto simp: send_reliable_def split: if_splits)
next
  case False
  from channel.send_dead [OF assms(1) False, of m] assms(2) show ?thesis
    by (auto simp: send_reliable_def split: if_splits)
qed

lemma hall_invariant_step:
  assumes "channel (re_try_recv ext) pending connected send alive" "\<And>m. re_serialize ext m = Inr (enc m)"
    and "hall_invariant enc pending s0 s" "hall_step ext send pending connected s t"
  shows "hall_invariant enc pending s0 t"
  using assms(4)
proof (cases rule: hall_step.cases)
  case (sends v m v')
  with assms(3) send_reliable_queue [OF assms(1) sends(2)] show ?thesis by (simp add: hall_invariant_def)
next
  case (turn i c r)
  let ?c = "(hall_servicer s i)\<lparr>sre_from_application := hall_queue s\<rparr>"
  have "receiver (re_try_recv ext) pending connected" using assms(1) by (rule channel.axioms)
  moreover have "tcp_open (sre_stream ?c)" using assms(3) by (simp add: hall_invariant_def)
  ultimately have "sre_user c = sre_user ?c \<and> tcp_open (sre_stream c) \<and>
    pending (sre_from_application c) = [] \<and>
    tcp_out (sre_stream c) = tcp_out (sre_stream ?c) @ (if connected (sre_from_application ?c)
       then concat (map enc (addressed_to (sre_user ?c) (pending (sre_from_application ?c)))) else [])"
    using assms(2) turn(2) by (intro open_turn) auto
  with assms(3) turn(1) show ?thesis by (simp add: hall_invariant_def comp_def)
next
  case (waits c0 i q ms c)
  have recv: "receiver (re_try_recv ext) pending connected" using assms(1) by (rule channel.axioms)
  have "connected (hall_queue s)"
    using receiver.drain_disconnected [OF recv] waits(3) by fastforce
  moreover have "tcp_open (sre_stream c0)" using assms(3) waits(2) by (simp add: hall_invariant_def)
  ultimately obtain q' where "drain_spmc_receiver (re_try_recv ext) (hall_queue s) = Ret (q', Inr (pending (hall_queue s)))"
    "pending q' = []" "sre_forward ext (c0\<lparr>sre_from_application := q'\<rparr>) (pending (hall_queue s)) =
       Ret (c0\<lparr>sre_from_application := q', sre_stream := (sre_stream c0)\<lparr>tcp_out := tcp_out (sre_stream c0) @
         concat (map enc (addressed_to (sre_user c0) (pending (hall_queue s))))\<rparr>\<rparr>, Inr ())"
    using open_drain [OF recv assms(2)] by metis
  with assms(3) waits show ?thesis by (auto simp: hall_invariant_def comp_def)
qed (use assms(3) in \<open>simp_all add: hall_invariant_def tcp_open_def\<close>)

lemma hall_invariant_reach:
  assumes "channel (re_try_recv ext) pending connected send alive" "\<And>m. re_serialize ext m = Inr (enc m)"
    and "hall_reach ext send pending connected s0 s" "hall_invariant enc pending s0 s0"
  shows "hall_invariant enc pending s0 s"
  using assms(3)
proof (induction rule: hall_reach.induct)
  case (hall_go s t)
  show ?case by (rule hall_invariant_step [OF assms(1,2) hall_go.IH hall_go.hyps(2)])
qed (rule assms(4))

subsection \<open>Two servicers\<close>

definition toy_hall :: "sre_app_message mpsc hall" where
  "toy_hall = \<lparr>hall_queue = mpsc_channel,
     hall_servicer = (\<lambda>i. (toy_re_servicer [])\<lparr>sre_user := Username (if i = 0 then ''ann'' else ''bob'')\<rparr>),
     hall_sent = [], hall_log = []\<rparr>"

abbreviation toy_hall_reach :: "sre_app_message mpsc hall \<Rightarrow> bool" where
  "toy_hall_reach \<equiv> hall_reach toy_re_ext mpsc_send queue sender_alive toy_hall"

text \<open>A message for Ann is sent, and Bob's servicer is the next to look.\<close>

lemma toy_hall_run:
  "\<exists>s. toy_hall_reach s \<and> hall_sent s = [toy_chat ''ann''] \<and> hall_log s = [(Some 1, toy_chat ''ann'')] \<and>
     queue (hall_queue s) = []"
proof -
  let ?q = "mpsc_channel\<lparr>queue := [toy_chat ''ann'']\<rparr>"
  let ?v = "\<lparr>listener_kill_switch = True, low_latency_servicer = \<lparr>sll_socket = quiet_socket, sll_to_application = mpsc_channel,
      sll_from_application = (), address_user = (), last_tick_received = 0, sll_shutting_down = False\<rparr>,
    from_servicer = mpsc_channel, to_low_latency_servicer = (), to_reliable_servicer = mpsc_channel,
    srv_shutdown = False\<rparr> :: (unit, unit, unit, sre_app_message mpsc) server"
  have send: "send_reliable mpsc_send (?v\<lparr>to_reliable_servicer := hall_queue toy_hall\<rparr>) (toy_chat ''ann'') =
      (?v\<lparr>to_reliable_servicer := ?q\<rparr>, Inr ())"
    by (simp add: send_reliable_def mpsc_send_def toy_hall_def mpsc_channel_def)
  let ?s1 = "toy_hall\<lparr>hall_queue := to_reliable_servicer (?v\<lparr>to_reliable_servicer := ?q\<rparr>),
    hall_sent := hall_sent toy_hall @ [toy_chat ''ann'']\<rparr>"
  have s1: "toy_hall_reach ?s1" by (rule hall_go [OF hall_start], rule hall_step.sends [OF send])
  let ?c = "(hall_servicer ?s1 1)\<lparr>sre_from_application := hall_queue ?s1\<rparr>"
  have turn: "sre_spin_once toy_re_ext ?c =
      Ret (?c\<lparr>sre_from_application := mpsc_channel\<rparr>, Inl (Warning (FailedToDeserialize ())))"
    by (simp add: sre_spin_once_def drain_spmc_receiver_def drain_receiver_mpsc sre_receive_eq
        tcp_read_def toy_re_defs toy_hall_def)
  show ?thesis
    by (rule exI, rule conjI, rule hall_go [OF s1], rule hall_step.turn [OF turn])
      (simp add: toy_hall_def mpsc_channel_def)
qed

subsection \<open>Properties\<close>

text \<open>
  C10: one queue, many servicers. However the turns of the servicers, the application's calls and
  the network interleave, every message the application has sent comes out of the shared queue
  at most once, in the order of sending, and the others still wait in it: no message is
  duplicated, reordered or handed to two servicers. A servicer whose stream takes everything
  has written the encodings, in order, of exactly those messages for its user that it took
  from the queue itself; what another servicer took, it never writes.
\<close>

theorem shared_queue_partitioned:
  assumes "channel (re_try_recv ext) pending connected send alive" "\<And>m. re_serialize ext m = Inr (enc m)"
    and "hall_reach ext send pending connected s0 s"
    and "hall_log s0 = []" "hall_sent s0 = pending (hall_queue s0)"
    and "\<And>i. tcp_open (sre_stream (hall_servicer s0 i))"
  shows "hall_sent s = map snd (hall_log s) @ pending (hall_queue s) \<and>
    (\<forall>i. tcp_out (sre_stream (hall_servicer s i)) = tcp_out (sre_stream (hall_servicer s0 i)) @
       concat (map enc (addressed_to (sre_user (hall_servicer s0 i))
         (map snd (filter (\<lambda>p. fst p = Some i) (hall_log s))))))"
proof -
  have "hall_invariant enc pending s0 s"
    by (rule hall_invariant_reach [OF assms(1,2,3)]) (use assms(4-6) in \<open>simp_all add: hall_invariant_def\<close>)
  then show ?thesis by (simp add: hall_invariant_def taken_by_def)
qed

text \<open>Ann's message is gone, and nothing was written to Ann or to Bob.\<close>

theorem shared_queue_partitioned_witness:
  "\<exists>s. toy_hall_reach s \<and> hall_sent s = [toy_chat ''ann''] \<and> queue (hall_queue s) = [] \<and>
     (\<forall>i. tcp_out (sre_stream (hall_servicer s i)) = [])"
proof -
  let ?enc = "\<lambda>m. case m of
        JoinResponse r \<Rightarrow> [0] | ServerChat c \<Rightarrow> 1 # map (\<lambda>ch. of_bool (ch = CHR ''a'')) (chat_text c)"
  have ch: "channel (re_try_recv toy_re_ext) queue sender_alive mpsc_send receiver_end"
    using mpsc.channel_axioms by (simp add: toy_re_ext_def)
  have enc: "re_serialize toy_re_ext m = Inr (?enc m)" for m by (simp add: toy_re_ext_def)
  obtain s where s: "toy_hall_reach s" "hall_sent s = [toy_chat ''ann'']"
    "hall_log s = [(Some 1, toy_chat ''ann'')]" "queue (hall_queue s) = []"
    using toy_hall_run by blast
  have "\<forall>i. tcp_out (sre_stream (hall_servicer s i)) = []"
    using shared_queue_partitioned [OF ch enc s(1)] s(3) by (simp add: toy_hall_def toy_re_defs tcp_open_def)
  with s show ?thesis by blast
qed

end
