(* ===== verification/UnitTests.thy ===== *)
theory UnitTests
  imports Turns
begin

text \<open>
  The repository's own unit tests, and its example program, as programs over the model. A
  failed assertion and an \<open>unwrap\<close> of nothing are panics, so a test passes when it returns. The
  \<open>spmc\<close> channel is an argument with its two ends in one value, and so are the sockets that the
  tests bind; the loopback network delivers what is sent to a bound address.
\<close>

definition assert_that :: "bool \<Rightarrow> unit rust" where
  "assert_that b = (if b then Ret () else Panic)"

definition unwrap_option :: "'a option \<Rightarrow> 'a rust" where
  "unwrap_option x = (case x of None \<Rightarrow> Panic | Some a \<Rightarrow> Ret a)"

definition unwrap_result :: "'e + 'a \<Rightarrow> 'a rust" where
  "unwrap_result r = (case r of Inl e \<Rightarrow> Panic | Inr a \<Rightarrow> Ret a)"

definition index_at :: "'a list \<Rightarrow> nat \<Rightarrow> 'a rust" where
  "index_at xs i = (if i < length xs then Ret (xs ! i) else Panic)"

lemma unwrap_simps [simp]:
  "assert_that True = Ret ()" "unwrap_option (Some a) = Ret a" "unwrap_result (Inr a) = Ret a"
  "i < length xs \<Longrightarrow> index_at xs i = Ret (xs ! i)"
  by (simp_all add: assert_that_def unwrap_option_def unwrap_result_def index_at_def)

subsection \<open>Bit vectors and the coder\<close>

definition test_bitvec_empty :: "unit rust" where
  "test_bitvec_empty =
     (let bitvec = bv_new in
      rbind (bv_len bitvec) (\<lambda>n.
      rbind (assert_that (0 = n)) (\<lambda>_.
      assert_that (bv_is_empty bitvec))))"

definition test_bitvec_not_empty :: "unit rust" where
  "test_bitvec_not_empty =
     rbind (bv_push bv_new True) (\<lambda>bitvec.
     rbind (bv_len bitvec) (\<lambda>n.
     rbind (assert_that (1 = n)) (\<lambda>_.
     assert_that (False = bv_is_empty bitvec))))"

definition test_bitvec_gt_32 :: "unit rust" where
  "test_bitvec_gt_32 =
     (let indices = map (word_of_nat :: nat \<Rightarrow> usize) [0..<33] in
      rbind (rfold (\<lambda>bitvec i. bv_push bitvec (i mod 2 = 1)) bv_new indices) (\<lambda>bitvec.
      rbind (rfold (\<lambda>_ i. rbind (bv_get bitvec i) (\<lambda>r. assert_that (Some (i mod 2 = 1) = r))) () indices) (\<lambda>_.
      rbind (bv_len bitvec) (\<lambda>n.
      rbind (assert_that (33 = n)) (\<lambda>_.
      rbind (bv_get bitvec 33) (\<lambda>r.
      assert_that (None = r)))))))"

definition test_bitvec_push_get :: "unit rust" where
  "test_bitvec_push_get =
     (let expect_get = (\<lambda>expected bitvec i. rbind (bv_get bitvec i) (\<lambda>r. assert_that (expected = r))) in
      rbind (expect_get None bv_new 0) (\<lambda>_.
      rbind (expect_get None bv_new 1) (\<lambda>_.
      rbind (bv_push bv_new True) (\<lambda>bitvec.
      rbind (expect_get (Some True) bitvec 0) (\<lambda>_.
      rbind (expect_get None bitvec 1) (\<lambda>_.
      rbind (bv_push bitvec False) (\<lambda>bitvec.
      rbind (expect_get (Some True) bitvec 0) (\<lambda>_.
      rbind (expect_get (Some False) bitvec 1) (\<lambda>_.
      expect_get None bitvec 2)))))))))"

definition test_bitvec_range :: "unit rust" where
  "test_bitvec_range =
     rbind (bv_from_slice [False, True, False]) (\<lambda>first.
     rbind (rbind (bv_range first 0 3) unwrap_option) (\<lambda>r.
     rbind (assert_that (first = r)) (\<lambda>_.
     rbind (bv_range first 0 4) (\<lambda>r.
     assert_that (None = r)))))"

definition test_bitvec_append :: "unit rust" where
  "test_bitvec_append =
     rbind (bv_from_slice [False, True, False]) (\<lambda>first.
     rbind (bv_push bv_new True) (\<lambda>second.
     rbind (bv_append second first) (\<lambda>second.
     rbind (rbind (bv_range second 1 4) unwrap_option) (\<lambda>r.
     rbind (assert_that (first = r)) (\<lambda>_.
     rbind (rbind (bv_range second 0 3) unwrap_option) (\<lambda>r.
     rbind (assert_that (first \<noteq> r)) (\<lambda>_.
     rbind (rbind (bv_range second 1 3) unwrap_option) (\<lambda>r.
     assert_that (first \<noteq> r)))))))))"

definition test_compress :: "unit rust" where
  "test_compress =
     rbind (bv_from_slice [True, True, False]) (\<lambda>bits.
     rbind (rbind (compress 3 [bits, bits]) unwrap_option) (\<lambda>comp.
     rbind (bv_from_slice [True, True, True, False, False]) (\<lambda>expected.
     assert_that (expected = comp))))"

definition test_decompress :: "unit rust" where
  "test_decompress =
     rbind (bv_from_slice [True, True, True, False, False]) (\<lambda>comp.
     rbind (bv_from_slice [True, True, False]) (\<lambda>bits.
     rbind (rbind (decompress 3 comp) unwrap_option) (\<lambda>decomp.
     assert_that ([bits, bits] = decomp))))"

definition test_round_trip :: "unit rust" where
  "test_round_trip =
     rbind (bv_from_slice [True, True, False]) (\<lambda>bits.
     let expected = [bits, bits] in
     rbind (rbind (cbv_compress expected) unwrap_option) (\<lambda>obj.
     rbind (rbind (cbv_decompress obj) unwrap_option) (\<lambda>decomp.
     assert_that (expected = decomp))))"

lemma bv_new_eq: "bv_new = bitvec_of []"
  by (intro eq_bitvec_ofI wf_bv_new) (simp add: bits_def bv_size_def bv_new_def)

lemma bv_from_slice_eq: "bv_from_slice xs = Ret (bitvec_of xs)"
  using bv_from_slice_ok [of xs] by (auto intro: eq_bitvec_ofI)

lemma bitvec_of_eq_iff [simp]: "bitvec_of xs = bitvec_of ys \<longleftrightarrow> xs = ys"
  by (metis bits_bitvec_of)

lemma bitvec_of_len: "length xs < 2 ^ 64 \<Longrightarrow> bv_len (bitvec_of xs) = Ret (word_of_nat (length xs))"
  by (simp add: bv_len_ok wf_storage)

lemma bitvec_of_get:
  "length xs < 2 ^ 64 \<Longrightarrow> bv_get (bitvec_of xs) i = Ret (if unat i < length xs then Some (xs ! unat i) else None)"
  by (simp add: bv_get_ok)

lemma bitvec_of_is_empty: "bv_is_empty (bitvec_of xs) \<longleftrightarrow> xs = []"
  by (simp add: bv_is_empty_iff)

lemmas bitvec_of_ops = bv_new_eq bv_from_slice_eq bitvec_of_len bitvec_of_get bitvec_of_is_empty
  bv_push_bitvec_of bv_append_bitvec_of bv_range_bitvec_of

lemma rfold_map: "rfold (\<lambda>s x. f s (g x)) s xs = rfold f s (map g xs)"
  by (induction xs arbitrary: s) simp_all

lemma rfold_checks: "(\<And>x. x \<in> set xs \<Longrightarrow> f () x = Ret ()) \<Longrightarrow> rfold f () xs = Ret ()"
  by (induction xs) simp_all

lemma bitvec_tests:
  "test_bitvec_empty = Ret ()" "test_bitvec_not_empty = Ret ()" "test_bitvec_push_get = Ret ()"
  "test_bitvec_range = Ret ()" "test_bitvec_append = Ret ()"
  by (simp_all add: test_bitvec_empty_def test_bitvec_not_empty_def test_bitvec_push_get_def
      test_bitvec_range_def test_bitvec_append_def bitvec_of_ops)

lemma coder_tests: "test_compress = Ret ()" "test_decompress = Ret ()" "test_round_trip = Ret ()"
  by (simp_all add: test_compress_def test_decompress_def test_round_trip_def bv_from_slice_eq
      compress_refines decompress_refines cbv_compress_uniform [of 3] cbv_decompress_def front_size_def Let_def)

lemma bitvec_gt_32_test: "test_bitvec_gt_32 = Ret ()"
proof -
  let ?is = "map (word_of_nat :: nat \<Rightarrow> usize) [0..<33]" and ?bit = "\<lambda>i :: usize. i mod 2 = 1"
  let ?b = "bitvec_of (map ?bit ?is)"
  have "rfold (\<lambda>b i. bv_push b (?bit i)) bv_new ?is = Ret ?b"
    using bv_from_slice_eq [of "map ?bit ?is"] rfold_map [of bv_push ?bit bv_new ?is]
    by (simp only: bv_from_slice_def)
  moreover have "bv_get ?b i = Ret (Some (?bit i))" if "i \<in> set ?is" for i
  proof -
    from that obtain n where n: "n < 33" "i = word_of_nat n" by auto
    then have "unat i = n" by (simp add: unat_of_nat_usize)
    with n show ?thesis by (simp add: bitvec_of_get)
  qed
  then have "rfold (\<lambda>_ i. rbind (bv_get ?b i) (\<lambda>r. assert_that (Some (?bit i) = r))) () ?is = Ret ()"
    by (intro rfold_checks) simp
  moreover have "bv_len ?b = Ret 33" by (simp add: bitvec_of_len)
  moreover have "bv_get ?b 33 = Ret None" by (simp add: bitvec_of_get)
  ultimately show ?thesis unfolding test_bitvec_gt_32_def Let_def by simp
qed

subsection \<open>Queues\<close>

definition test_drain_receiver_empty :: "('q, bool) recv_fun \<Rightarrow> 'q \<Rightarrow> unit rust" where
  "test_drain_receiver_empty try_recv ch =
     rbind (drain_spmc_receiver try_recv ch) (\<lambda>(ch, r).
     rbind (unwrap_result r) (\<lambda>msgs.
     assert_that (0 = length msgs)))"

definition test_drain_receiver_nonempty ::
  "('q, bool) recv_fun \<Rightarrow> ('q \<Rightarrow> bool \<Rightarrow> 'q \<times> (bool + unit)) \<Rightarrow> 'q \<Rightarrow> unit rust" where
  "test_drain_receiver_nonempty try_recv send ch =
     (case send ch True of (ch, sent) \<Rightarrow>
      rbind (unwrap_result sent) (\<lambda>_.
      rbind (drain_spmc_receiver try_recv ch) (\<lambda>(ch, r).
      rbind (unwrap_result r) (\<lambda>msgs.
      rbind (assert_that (1 = length msgs)) (\<lambda>_.
      rbind (index_at msgs 0) (\<lambda>msg.
      assert_that (True = msg)))))))"

definition test_drain_receiver_disconnected ::
  "('q, bool) recv_fun \<Rightarrow> ('q \<Rightarrow> bool \<Rightarrow> 'q \<times> (bool + unit)) \<Rightarrow> ('q \<Rightarrow> 'q) \<Rightarrow> 'q \<Rightarrow> unit rust" where
  "test_drain_receiver_disconnected try_recv send drop_sender ch =
     (case send ch True of (ch, sent) \<Rightarrow>
      rbind (unwrap_result sent) (\<lambda>_.
      rbind (drain_spmc_receiver try_recv (drop_sender ch)) (\<lambda>(ch, r).
      assert_that (case r of Inl _ \<Rightarrow> True | Inr _ \<Rightarrow> False))))"

definition test_drain_mpsc_receiver_empty :: "unit rust" where
  "test_drain_mpsc_receiver_empty =
     rbind (drain_mpsc_receiver (mpsc_channel :: bool mpsc)) (\<lambda>(ch, r).
     rbind (unwrap_result r) (\<lambda>msgs.
     assert_that (0 = length msgs)))"

definition test_drain_mpsc_receiver_nonempty :: "unit rust" where
  "test_drain_mpsc_receiver_nonempty =
     (case mpsc_send mpsc_channel True of (ch, sent) \<Rightarrow>
      rbind (unwrap_result sent) (\<lambda>_.
      rbind (drain_mpsc_receiver ch) (\<lambda>(ch, r).
      rbind (unwrap_result r) (\<lambda>msgs.
      rbind (assert_that (1 = length msgs)) (\<lambda>_.
      rbind (index_at msgs 0) (\<lambda>msg.
      assert_that (True = msg)))))))"

definition test_drain_mpsc_receiver_disconnected :: "unit rust" where
  "test_drain_mpsc_receiver_disconnected =
     (case mpsc_send mpsc_channel True of (ch, sent) \<Rightarrow>
      rbind (unwrap_result sent) (\<lambda>_.
      rbind (drain_mpsc_receiver (ch\<lparr>sender_alive := False\<rparr>)) (\<lambda>(ch, r).
      assert_that (case r of Inl _ \<Rightarrow> True | Inr _ \<Rightarrow> False))))"

text \<open>A channel that has just been made, and what dropping its sender does.\<close>

definition fresh_channel ::
  "('q \<Rightarrow> bool list) \<Rightarrow> ('q \<Rightarrow> bool) \<Rightarrow> ('q \<Rightarrow> bool) \<Rightarrow> ('q \<Rightarrow> 'q) \<Rightarrow> 'q \<Rightarrow> bool" where
  "fresh_channel pending connected alive drop_sender ch \<longleftrightarrow>
     pending ch = [] \<and> connected ch \<and> alive ch \<and>
     (\<forall>c. pending (drop_sender c) = pending c \<and> \<not> connected (drop_sender c))"

lemma spmc_tests:
  assumes "channel try_recv pending connected send alive" "fresh_channel pending connected alive drop_sender ch"
  shows "test_drain_receiver_empty try_recv ch = Ret ()"
    and "test_drain_receiver_nonempty try_recv send ch = Ret ()"
    and "test_drain_receiver_disconnected try_recv send drop_sender ch = Ret ()"
proof -
  have recv: "receiver try_recv pending connected" using assms(1) by (rule channel.axioms)
  note fresh = assms(2) [unfolded fresh_channel_def]
  show "test_drain_receiver_empty try_recv ch = Ret ()"
    using receiver.drain_connected [OF recv, of ch] fresh by (auto simp: test_drain_receiver_empty_def)
  obtain c where c: "send ch True = (c, Inr ())" "pending c = [True]" "connected c"
    using channel.send_alive [OF assms(1), of ch True] fresh by auto
  show "test_drain_receiver_nonempty try_recv send ch = Ret ()"
    using receiver.drain_connected [OF recv c(3)] c by (auto simp: test_drain_receiver_nonempty_def)
  have "\<not> connected (drop_sender c)" using fresh by blast
  from receiver.drain_disconnected [OF recv this] c
  show "test_drain_receiver_disconnected try_recv send drop_sender ch = Ret ()"
    by (auto simp: test_drain_receiver_disconnected_def)
qed

lemma mpsc_tests:
  "test_drain_mpsc_receiver_empty = Ret ()" "test_drain_mpsc_receiver_nonempty = Ret ()"
  "test_drain_mpsc_receiver_disconnected = Ret ()"
  by (simp_all add: test_drain_mpsc_receiver_empty_def test_drain_mpsc_receiver_nonempty_def
      test_drain_mpsc_receiver_disconnected_def mpsc_send_def mpsc_channel_def)

subsection \<open>UDP\<close>

text \<open>The loopback network brings what one socket has sent to a socket bound to the destination.\<close>

definition loopback :: "udp_socket \<Rightarrow> udp_socket \<Rightarrow> udp_socket" where
  "loopback from to = to\<lparr>udp_in := udp_in to @ concat (map
     (\<lambda>(bs, dst). case udp_local from of
        Inl e \<Rightarrow> []
      | Inr src \<Rightarrow> if udp_local to = Inr dst then [Inr (bs, src)] else []) (udp_out from))\<rparr>"

definition test_buf :: "byte list" where
  "test_buf = [0, 1, 2, 3, 4]"

definition test_maybe_receive_from_no_data :: "(io_error + udp_socket) \<Rightarrow> unit rust" where
  "test_maybe_receive_from_no_data bind_result =
     rbind (unwrap_result bind_result) (\<lambda>socket.
     rbind (unwrap_result (udp_set_read_timeout socket)) (\<lambda>_.
     case (maybe_receive_from_udp socket :: _ \<times> (unit comm_error + _)) of (socket, r) \<Rightarrow>
     rbind (unwrap_result r) (\<lambda>actual.
     assert_that (None = actual))))"

definition test_maybe_receive_from_udp :: "(io_error + udp_socket) \<Rightarrow> (io_error + udp_socket) \<Rightarrow> unit rust" where
  "test_maybe_receive_from_udp bind_a bind_b =
     rbind (unwrap_result bind_a) (\<lambda>socket_a.
     rbind (unwrap_result bind_b) (\<lambda>socket_b.
     rbind (unwrap_result (udp_local socket_a)) (\<lambda>addr_a.
     case udp_send_to socket_b test_buf addr_a of (socket_b, sent) \<Rightarrow>
     rbind (unwrap_result sent) (\<lambda>_.
     case (maybe_receive_from_udp (loopback socket_b socket_a) :: _ \<times> (unit comm_error + _)) of (socket_a, r) \<Rightarrow>
     rbind (unwrap_result r) (\<lambda>actual.
     rbind (unwrap_result (udp_local socket_b)) (\<lambda>addr_b.
     assert_that (Some (test_buf, addr_b) = actual)))))))"

definition test_maybe_receive_no_data :: "(io_error + udp_socket) \<Rightarrow> unit rust" where
  "test_maybe_receive_no_data bind_result =
     rbind (unwrap_result bind_result) (\<lambda>socket.
     rbind (unwrap_result (udp_set_read_timeout socket)) (\<lambda>_.
     case (maybe_receive_udp socket :: _ \<times> (unit comm_error + _)) of (socket, r) \<Rightarrow>
     rbind (unwrap_result r) (\<lambda>actual.
     assert_that ([] = actual))))"

definition test_maybe_receive_udp :: "(io_error + udp_socket) \<Rightarrow> (io_error + udp_socket) \<Rightarrow> unit rust" where
  "test_maybe_receive_udp bind_a bind_b =
     rbind (unwrap_result bind_a) (\<lambda>socket_a.
     rbind (unwrap_result bind_b) (\<lambda>socket_b.
     rbind (unwrap_result (udp_local socket_a)) (\<lambda>addr_a.
     case udp_send_to socket_b test_buf addr_a of (socket_b, sent) \<Rightarrow>
     rbind (unwrap_result sent) (\<lambda>_.
     case (maybe_receive_udp (loopback socket_b socket_a) :: _ \<times> (unit comm_error + _)) of (socket_a, r) \<Rightarrow>
     rbind (unwrap_result r) (\<lambda>actual.
     assert_that (test_buf = actual))))))"

definition test_try_udp :: "(io_error + udp_socket) \<Rightarrow> unit rust" where
  "test_try_udp bind_result =
     rbind (unwrap_result bind_result) (\<lambda>socket.
     rbind (unwrap_result (udp_local socket)) (\<lambda>addr.
     let buf = replicate 10 0 in
     case udp_send_to socket buf addr of (socket, sent) \<Rightarrow>
     rbind (unwrap_result sent) (\<lambda>_.
     case udp_recv_from (loopback socket socket) buf of (socket, r) \<Rightarrow>
     rbind (unwrap_result r) (\<lambda>(amt, buf, src).
     let buf = rev (take amt buf) in
     case udp_send_to socket buf src of (socket, sent) \<Rightarrow>
     unwrap_result sent))))"

definition bound_socket :: "socket_addr \<Rightarrow> (io_error + udp_socket) \<Rightarrow> bool" where
  "bound_socket addr r \<longleftrightarrow> (case r of Inl _ \<Rightarrow> False | Inr s \<Rightarrow>
     udp_local s = Inr addr \<and> udp_in s = [] \<and> udp_out s = [] \<and> udp_send_script s = [] \<and>
     udp_set_read_timeout s = Inr ())"

lemma bound_socketE:
  assumes "bound_socket addr r"
  obtains s where "r = Inr s" "udp_local s = Inr addr" "udp_in s = []" "udp_out s = []"
    "udp_send_script s = []" "udp_set_read_timeout s = Inr ()"
  using assms by (auto simp: bound_socket_def split: sum.splits)

lemma udp_tests:
  assumes "bound_socket addr_a a" "bound_socket addr_b b"
  shows "test_maybe_receive_from_no_data a = Ret ()" "test_maybe_receive_from_udp a b = Ret ()"
    "test_maybe_receive_no_data a = Ret ()" "test_maybe_receive_udp a b = Ret ()" "test_try_udp a = Ret ()"
  using assms
  by (auto elim!: bound_socketE simp: test_maybe_receive_from_no_data_def test_maybe_receive_from_udp_def
      test_maybe_receive_no_data_def test_maybe_receive_udp_def test_try_udp_def udp_send_to_def loopback_def
      maybe_receive_from_udp_eq maybe_receive_udp_eq test_buf_def MAX_PACKET_SIZE_def udp_recv_from_def Let_def)

subsection \<open>The server\<close>

definition test_client :: client_data where
  "test_client = \<lparr>cd_username = Username ''client_data'', udp_addr = SockV4 0x7F000001 12345\<rparr>"

definition test_to_client :: "ll_server_message \<Rightarrow> ll_to_client" where
  "test_to_client payload = \<lparr>ll_to = Username ''to_client'', ll_payload = payload\<rparr>"

definition test_parse_app_msgs :: "('r, 'm, 'be) sll_ext \<Rightarrow> ('m \<Rightarrow> bool) \<Rightarrow> unit rust" where
  "test_parse_app_msgs ext is_empty =
     (let msg_vec = [ToClient (test_to_client (WorldState [127])), NewClient test_client];
          (outgoing_msgs, address_user) = sll_parse_application_messages ext msg_vec (bm_new ext) in
      rbind (index_at outgoing_msgs 0) (\<lambda>world_state_opt.
      rbind (index_at outgoing_msgs 1) (\<lambda>last_tick.
      rbind (assert_that (world_state_opt \<noteq> None)) (\<lambda>_.
      rbind (assert_that (last_tick = None)) (\<lambda>_.
      assert_that (\<not> is_empty address_user))))))"

definition test_parse_app_msgs_repeated :: "('r, 'm, 'be) sll_ext \<Rightarrow> unit rust" where
  "test_parse_app_msgs_repeated ext =
     (let msg_vec = [ToClient (test_to_client (WorldState [127])), ToClient (test_to_client (LastTickReceived 2)),
            ToClient (test_to_client (LastTickReceived 3)), ToClient (test_to_client (WorldState [123]))];
          (outgoing_msgs, address_user) = sll_parse_application_messages ext msg_vec (bm_new ext) in
      rbind (index_at outgoing_msgs 0) (\<lambda>world_state_opt.
      rbind (index_at outgoing_msgs 1) (\<lambda>last_tick.
      rbind (assert_that (Some (test_to_client (WorldState [123])) = world_state_opt)) (\<lambda>_.
      assert_that (Some (test_to_client (LastTickReceived 3)) = last_tick)))))"

definition test_parse_app_msgs_disconnect :: "('r, 'm, 'be) sll_ext \<Rightarrow> ('m \<Rightarrow> bool) \<Rightarrow> unit rust" where
  "test_parse_app_msgs_disconnect ext is_empty =
     (let msg_vec = [NewClient test_client, ClientDisconnect (Username ''client_data'')];
          (outgoing_msgs, address_user) = sll_parse_application_messages ext msg_vec (bm_new ext) in
      rbind (index_at outgoing_msgs 0) (\<lambda>world_state_opt.
      rbind (index_at outgoing_msgs 1) (\<lambda>last_tick.
      rbind (assert_that (world_state_opt = None)) (\<lambda>_.
      rbind (assert_that (last_tick = None)) (\<lambda>_.
      assert_that (is_empty address_user))))))"

text \<open>The test decodes the whole buffer, with the zeros behind what was received.\<close>

definition test_send_message ::
  "('r, 'm, 'be) sll_ext \<Rightarrow> (byte list \<Rightarrow> 'be + ll_server_message) \<Rightarrow> (io_error + udp_socket) \<Rightarrow> unit rust" where
  "test_send_message ext deserialize bind_result =
     rbind (unwrap_result bind_result) (\<lambda>socket.
     rbind (unwrap_result (udp_local socket)) (\<lambda>addr.
     let address_user = bm_insert ext (bm_new ext) addr (Username ''client_data'');
         msg = \<lparr>ll_to = Username ''client_data'', ll_payload = WorldState [127]\<rparr> in
     case sll_send_message ext address_user socket msg of (socket, sent) \<Rightarrow>
     rbind (unwrap_result sent) (\<lambda>_.
     case udp_recv_from (loopback socket socket) (replicate 1500 0) of (socket, r) \<Rightarrow>
     rbind (unwrap_result r) (\<lambda>(amt, buf, src).
     rbind (unwrap_result (deserialize buf)) (\<lambda>server_message.
     assert_that (WorldState [127] = server_message))))))"

text \<open>What the tests use of \<open>bidir_map\<close> and \<open>bincode\<close> beyond \<open>bidir_laws\<close>.\<close>

definition test_codec ::
  "('r, 'm, 'be) sll_ext \<Rightarrow> ('m \<Rightarrow> bool) \<Rightarrow> ('m \<Rightarrow> bool) \<Rightarrow> (byte list \<Rightarrow> 'be + ll_server_message) \<Rightarrow> bool" where
  "test_codec ext ok is_empty deserialize \<longleftrightarrow>
     (\<forall>m. ok m \<longrightarrow> (is_empty m \<longleftrightarrow> (\<forall>a. bm_get_by_first ext m a = None))) \<and>
     (\<exists>bs. ext_serialize ext (WorldState [127]) = Inr bs \<and> length bs \<le> 1500 \<and>
        (\<forall>k. deserialize (bs @ replicate k 0) = Inr (WorldState [127])))"

lemma parse_tests:
  fixes ext :: "('r, 'm, 'be) sll_ext"
  assumes "bidir_laws ext ok" "test_codec ext ok is_empty deserialize"
  shows "test_parse_app_msgs ext is_empty = Ret ()" "test_parse_app_msgs_repeated ext = Ret ()"
    "test_parse_app_msgs_disconnect ext is_empty = Ret ()"
proof -
  have new: "ok (bm_new ext)" "bm_get_by_first ext (bm_new ext) = (\<lambda>a. None)"
    using assms(1) by (auto simp: bidir_laws_def fun_eq_iff)
  have empty: "is_empty (fold (book_step ext) ms (bm_new ext)) \<longleftrightarrow> fold users_step ms (\<lambda>a. None) = (\<lambda>a. None)" for ms
    using book_steps [OF assms(1) new(1), of ms] assms(2) by (simp add: test_codec_def new(2) fun_eq_iff)
  note simps = parse_spec last_such_def is_world_state_def is_last_tick_def test_to_client_def test_client_def
  show "test_parse_app_msgs ext is_empty = Ret ()"
    using empty [of "[ToClient (test_to_client (WorldState [127])), NewClient test_client]"]
    by (auto simp: test_parse_app_msgs_def simps fun_eq_iff split: if_splits)
  show "test_parse_app_msgs_repeated ext = Ret ()"
    by (simp add: test_parse_app_msgs_repeated_def simps)
  show "test_parse_app_msgs_disconnect ext is_empty = Ret ()"
    using empty [of "[NewClient test_client, ClientDisconnect (Username ''client_data'')]"]
    by (auto simp: test_parse_app_msgs_disconnect_def simps fun_eq_iff split: if_splits)
qed

lemma send_message_test:
  assumes "bidir_laws ext ok" "test_codec ext ok is_empty deserialize" "bound_socket addr a"
  shows "test_send_message ext deserialize a = Ret ()"
proof -
  obtain bs where bs: "ext_serialize ext (WorldState [127]) = Inr bs" "length bs \<le> 1500"
    "\<And>k. deserialize (bs @ replicate k 0) = Inr (WorldState [127])"
    using assms(2) by (auto simp: test_codec_def)
  let ?book = "bm_insert ext (bm_new ext) addr (Username ''client_data'')"
  have "ok ?book" "bm_get_by_first ext ?book addr = Some (Username ''client_data'')"
    using assms(1) by (simp_all add: bidir_laws_def)
  then have "bm_get_by_second ext ?book (Username ''client_data'') = Some addr"
    using bidir_agree [OF assms(1)] by blast
  with assms(3) bs show ?thesis
    by (auto elim!: bound_socketE simp: test_send_message_def sll_send_message_def udp_send_to_def loopback_def
        udp_recv_from_def Let_def)
qed

subsection \<open>The listener and the example\<close>

text \<open>
  Both listener tests start a listener on a flag that is set and clear the flag about 100 ms
  later; the second connects in between. How often the listener has polled by then, whether it
  accepts the connection before it sees the flag and what else it is answered is up to the
  scheduler: \<open>script\<close> is any run in which the flag is cleared. The threads it starts do nothing,
  so joining them returns.
\<close>

definition test_listener_start_stop :: "((io_error + tcp_stream) \<times> bool) list \<Rightarrow> unit rust" where
  "test_listener_start_stop script =
     rbind (listen (Inr ()) (\<lambda>_. ()) (\<lambda>_. Ret ()) script) (\<lambda>(threads, result).
     assert_that (case result of Inl _ \<Rightarrow> False | Inr _ \<Rightarrow> True))"

definition test_listener_connect_nonblocking ::
  "(io_error + tcp_stream) \<Rightarrow> ((io_error + tcp_stream) \<times> bool) list \<Rightarrow> unit rust" where
  "test_listener_connect_nonblocking connected script =
     rbind (unwrap_result connected) (\<lambda>tcp_stream.
     rbind (listen (Inr ()) (\<lambda>_. ()) (\<lambda>_. Ret ()) script) (\<lambda>(threads, result).
     assert_that (case result of Inl _ \<Rightarrow> False | Inr _ \<Rightarrow> True)))"

lemma join_all_Ret: "(\<And>t. join t = Ret ()) \<Longrightarrow> join_all join threads = Ret ()"
  unfolding join_all_def by (induction threads) simp_all

lemma listener_tests:
  assumes "\<exists>(ev, running) \<in> set script. \<not> running"
  shows "test_listener_start_stop script = Ret ()" "test_listener_connect_nonblocking (Inr stream) script = Ret ()"
  using assms
  by (simp_all add: test_listener_start_stop_def test_listener_connect_nonblocking_def listen_eq join_all_Ret)

definition example_main ::
  "('r, 'm, 'be) sll_ext \<Rightarrow> 'l \<times> 'r \<Rightarrow> 't \<times> 'u \<Rightarrow> (io_error + udp_socket) \<Rightarrow> (io_error + unit) \<Rightarrow> unit rust" where
  "example_main ext ll re udp_bind tcp_bind =
     rbind (unwrap_result udp_bind) (\<lambda>udp_socket.
     rbind (unwrap_result tcp_bind) (\<lambda>tcp_listener.
     rbind (srv_new ext ll re udp_socket) (\<lambda>server.
     Ret ())))"

lemma example_runs: "bound_socket addr a \<Longrightarrow> example_main ext ll re a (Inr ()) = Ret ()"
  by (auto elim!: bound_socketE simp: example_main_def srv_new_def split: prod.split)

subsection \<open>Properties\<close>

text \<open>
  The model passes the repository's unit tests, and the example program starts a server and
  returns, for every channel, address book and codec that keep their contracts, every pair of
  freshly bound sockets, and every run of the listener in which the flag is cleared. This checks
  the definitions against the expectations the repository states; the properties proper are in
  the theories of the components.
\<close>

theorem unit_tests_pass:
  assumes "channel try_recv pending connected send alive" "fresh_channel pending connected alive drop_sender ch"
    and "bound_socket addr_a a" "bound_socket addr_b b"
    and "bidir_laws ext ok" "test_codec ext ok is_empty deserialize"
    and "\<exists>(ev, running) \<in> set script. \<not> running"
  shows "test_bitvec_empty = Ret () \<and> test_bitvec_not_empty = Ret () \<and> test_bitvec_gt_32 = Ret () \<and>
    test_bitvec_push_get = Ret () \<and> test_bitvec_range = Ret () \<and> test_bitvec_append = Ret () \<and>
    test_compress = Ret () \<and> test_decompress = Ret () \<and> test_round_trip = Ret () \<and>
    test_drain_receiver_empty try_recv ch = Ret () \<and>
    test_drain_receiver_nonempty try_recv send ch = Ret () \<and>
    test_drain_receiver_disconnected try_recv send drop_sender ch = Ret () \<and>
    test_drain_mpsc_receiver_empty = Ret () \<and> test_drain_mpsc_receiver_nonempty = Ret () \<and>
    test_drain_mpsc_receiver_disconnected = Ret () \<and>
    test_maybe_receive_from_no_data a = Ret () \<and> test_maybe_receive_from_udp a b = Ret () \<and>
    test_maybe_receive_no_data a = Ret () \<and> test_maybe_receive_udp a b = Ret () \<and> test_try_udp a = Ret () \<and>
    test_parse_app_msgs ext is_empty = Ret () \<and> test_parse_app_msgs_repeated ext = Ret () \<and>
    test_parse_app_msgs_disconnect ext is_empty = Ret () \<and> test_send_message ext deserialize a = Ret () \<and>
    test_listener_start_stop script = Ret () \<and> test_listener_connect_nonblocking (Inr stream) script = Ret () \<and>
    example_main ext ll re a (Inr ()) = Ret ()"
  using bitvec_tests coder_tests bitvec_gt_32_test spmc_tests [OF assms(1,2)] mpsc_tests udp_tests [OF assms(3,4)]
    parse_tests [OF assms(5,6)] send_message_test [OF assms(5,6,3)] listener_tests [OF assms(7)] example_runs [OF assms(3)]
  by simp

text \<open>An mpsc queue, two quiet sockets and the toy codec keep the contracts.\<close>

definition toy_decode :: "byte list \<Rightarrow> unit + ll_server_message" where
  "toy_decode bs = (case bs of tag # x # _ \<Rightarrow> Inr (WorldState [x]) | _ \<Rightarrow> Inl ())"

theorem unit_tests_pass_witness:
  "test_drain_receiver_disconnected mpsc_try_recv mpsc_send (\<lambda>c. c\<lparr>sender_alive := False\<rparr>) mpsc_channel = Ret () \<and>
   test_maybe_receive_from_udp (Inr quiet_socket) (Inr quiet_socket) = Ret () \<and>
   test_parse_app_msgs_disconnect toy_ext (\<lambda>m. m = []) = Ret () \<and>
   test_send_message toy_ext toy_decode (Inr quiet_socket) = Ret () \<and>
   test_listener_start_stop [(Inl (IoError WouldBlock), False)] = Ret ()"
proof -
  have fresh: "fresh_channel queue sender_alive receiver_end (\<lambda>c. c\<lparr>sender_alive := False\<rparr>) mpsc_channel"
    by (simp add: fresh_channel_def mpsc_channel_def)
  have bound: "bound_socket (SockV4 0 0) (Inr quiet_socket)" by (simp add: bound_socket_def quiet_socket_def)
  have laws: "bidir_laws toy_ext pairs_ok" unfolding toy_ext_def by (rule bidir_laws_pairs)
  have "m = [] \<longleftrightarrow> (\<forall>a. bm_get_by_first toy_ext m a = None)" for m
    by (cases m) (auto simp: toy_ext_def pairs_ext_def)
  then have codec: "test_codec toy_ext pairs_ok (\<lambda>m. m = []) toy_decode"
    by (simp add: test_codec_def toy_ext_def pairs_ext_def toy_decode_def)
  have script: "\<exists>(ev, running) \<in> set [(Inl (IoError WouldBlock) :: io_error + tcp_stream, False)]. \<not> running" by simp
  from unit_tests_pass [OF mpsc.channel_axioms fresh bound bound laws codec script] show ?thesis by blast
qed

end
