(* ===== verification/Spec2Isabelle.thy ===== *)
theory Spec2Isabelle
  imports Release GameNetwork SharedQueue UnitTests
begin

text \<open>
  A model of the \<open>game_network\<close> library: the networking layer of a multi-player game, with a
  server and any number of clients. Each side has an application thread with a handle
  (\<open>Server\<close>, \<open>Client\<close>) and servicer threads that it talks to over in-process queues: one UDP
  servicer per side for controller inputs, world states and acknowledgments, and TCP
  servicers (one per client on the server) for joining and chat. The client's inputs are kept
  in a sequence with a start tick, compressed by a run-length code on bit vectors, sent in
  full in every turn, and dropped when the server acknowledges a tick.

  \<^bold>\<open>Theories and code\<close> (paths from the repository's root).
  \<^item> \<^verbatim>\<open>Prelude\<close>: panics and non-termination as values (\<open>rust\<close>), the \<open>?\<close> operator, checked
    arithmetic, \<open>Vec::resize\<close>. No code of the repository.
  \<^item> \<^verbatim>\<open>Bit_Interface\<close>, \<^verbatim>\<open>BitVec\<close>: \<open>struct BitVec\<close> and its iterator (\<^verbatim>\<open>src/bitvec.rs\<close>). The locale
    \<open>bit_sequence\<close> is what the coder uses of it; \<open>bv\<close> interprets it on the model.
  \<^item> \<^verbatim>\<open>Compression\<close>: \<open>compress\<close>, \<open>decompress\<close> and \<open>CompressedBitVec\<close> (\<^verbatim>\<open>src/bitvec.rs\<close>), with
    the reference coder \<open>rle_encode\<close>, \<open>rle_decode\<close> on lists that they refine.
  \<^item> \<^verbatim>\<open>Control\<close>: \<open>ControllerSequence\<close> and its compressed form (\<^verbatim>\<open>src/control.rs\<close>).
  \<^item> \<^verbatim>\<open>Msg\<close>: names, credentials, errors and messages (\<^verbatim>\<open>src/msg.rs\<close>).
  \<^item> \<^verbatim>\<open>Channel\<close>: \<open>drain_spmc_receiver\<close>, \<open>drain_mpsc_receiver\<close> (\<^verbatim>\<open>src/util.rs\<close>) and the standard
    library's channel; the locales \<open>receiver\<close> and \<open>channel\<close> are the contract of a queue.
  \<^item> \<^verbatim>\<open>Transport\<close>: the sockets of the standard library and \<open>maybe_receive_from_udp\<close>,
    \<open>maybe_receive_udp\<close> (\<^verbatim>\<open>src/util.rs\<close>).
  \<^item> \<^verbatim>\<open>EventLoop\<close>: the loop every servicer's \<open>spin\<close> is; the locales \<open>stoppable\<close> and
    \<open>monotone_loop\<close> are interpreted for each servicer.
  \<^item> \<^verbatim>\<open>Handle\<close>: the contract of the handles' methods (locale \<open>latched_handle\<close>).
  \<^item> \<^verbatim>\<open>ServerMessages\<close>, \<^verbatim>\<open>Server\<close>: \<^verbatim>\<open>src/server/mod.rs\<close>; \<^verbatim>\<open>ServerLowLatency\<close>:
    \<^verbatim>\<open>src/server/low_latency.rs\<close> (prefix \<open>sll\<close>); \<^verbatim>\<open>ServerReliable\<close>: \<^verbatim>\<open>src/server/reliable.rs\<close>
    (prefix \<open>sre\<close>).
  \<^item> \<^verbatim>\<open>Release\<close>: the arithmetic of \<^verbatim>\<open>src/bitvec.rs\<close> and \<^verbatim>\<open>src/control.rs\<close> without overflow checks
    (prefix \<open>rel\<close>), and the order of outcomes by definedness.
  \<^item> \<^verbatim>\<open>Client\<close>: \<^verbatim>\<open>src/client/mod.rs\<close>; \<^verbatim>\<open>ClientLowLatency\<close>: \<^verbatim>\<open>src/client/low_latency.rs\<close> (prefix
    \<open>cll\<close>); \<^verbatim>\<open>ClientReliable\<close>: \<^verbatim>\<open>src/client/reliable.rs\<close> (prefix \<open>cre\<close>).
  \<^item> \<^verbatim>\<open>Turns\<close>: one turn of each UDP servicer, from end to end. \<^verbatim>\<open>GameNetwork\<close>: the server's UDP
    servicer and application, any number of clients and the network as one transition system
    (\<open>net_step\<close>, \<open>net_reach\<close>) with its invariants. \<^verbatim>\<open>SharedQueue\<close>: all TCP servicers of a server
    and the queue they share as another (\<open>hall_step\<close>).
  \<^item> \<^verbatim>\<open>UnitTests\<close>: the test modules of the repository and \<^verbatim>\<open>src/example/main.rs\<close> over the model.

  \<^bold>\<open>State and effects.\<close> A struct is a record, a method a function that returns the record
  updated; \<open>Result\<close> is a sum with the error on the left; a panic and an endless loop are the
  values \<open>Panic\<close> and \<open>Diverge\<close>. \<open>usize\<close>, \<open>u32\<close>, \<open>u16\<close> and \<open>u8\<close> are words of 64, 32, 16 and
  8 bits; an overflow panics, as in Cargo's default profile. A socket is a record with the
  script of what arrives and of what its sends answer, and a log of what was sent. The UDP
  sockets do not block, or have a timeout. The TCP streams block, without a timeout: a read
  returns once something has arrived or the peer has closed the stream, also when the buffer is
  empty, and otherwise never (\<open>Diverge\<close>); so does a write to a peer that has stopped reading.
  A servicer's \<open>spin\<close> is \<open>spin_loop\<close> over one turn, with what the other threads and the network
  do before turn \<open>n\<close> given by \<open>env n\<close>.

  \<^bold>\<open>What the properties show.\<close> Of a whole game over a lossy, repeating, reordering network with
  strangers on it: what the application is given are inputs that the named client has really
  submitted, in order, each delivery reaches a later tick than all before it (single inputs may
  come again, see below), and clients keep theirs in order (C1, C3, C4); inputs handed
  to a client's handle come out of the server's \<open>receive_iter\<close> (C2), and world states sent by
  the server come out of the client's \<open>take_world_state\<close> (C11). The code of a sequence decodes
  to the sequence, and coder and decoder refine the reference on every well-formed input (C5,
  C6, C14, C15, C39), what any payload decodes to is well-formed (C21), and the bit vector behaves
  as a list of bits (C17 to C20); the coder of the release profile refines the same reference
  (C16): its functions return what the checked ones return wherever those do not panic. The
  server's UDP servicer accepts fresh inputs, drops stale ones, ignores strangers, never goes back in ticks
  and forwards inputs under the right name only (C7 to C9, C12, C13), and keeps the last message
  of each kind and a faithful address book (C22, C23); the TCP servicers divide the messages of
  their shared queue among them and speak for their own users only (C10, C34), the listener
  starts and joins them (C35), handles fail for good and give what has arrived (C37, C38), and
  every thread stops when told to, the TCP servicers if their clients let them (C29 to C31). The
  rest states what the code does where that is not what its comments promise: acknowledgments
  that remove the wrong inputs, which come a second time (C24, C25), ticks shared by all users
  (C26), a datagram that panics the server, or hangs it in the release profile (C27, C28), joins and connections that never succeed because every TCP read is into an
  empty vector (C32, C33), dropped clients whose servicer goes on (C36), a silent connection
  that keeps the server from shutting down (C40). Further facts about single components stand as
  theorems without a number beside these: the contracts of queues and sockets, \<open>take_world_state\<close> on every
  branch, the messages one servicer loses for the others, \<open>append\<close>, inputs that outgrow a packet,
  longer sequences that repeat inputs, \<open>remove_till_tick\<close> in the release profile; and the model
  passes the repository's unit tests (\<open>unit_tests_pass\<close>), which checks the definitions against
  what the repository expects of them.

  \<^bold>\<open>Bounds.\<close> Sizes are bounded by what \<open>usize\<close> can index (\<open>2 ^ 64\<close>), where the code computes with
  them; \<open>encodable\<close> is that bound for a sequence of inputs, \<open>codable\<close> for all that an application
  submits. No definition uses fuel: loops that move an index or empty a script are total
  functions with a measure; the drains, the client's \<open>connect\<close> loop, \<open>run_loop\<close> and the release
  profile's \<open>decompress\<close> may run for ever and are partial functions, and that they end is proved
  where it is claimed (the last one does not, C28).

  \<^bold>\<open>Outside the model.\<close> The crates \<open>bincode\<close> (argument \<open>serialize\<close>, \<open>deserialize\<close>), \<open>spmc\<close>
  (\<open>try_recv\<close>, \<open>send\<close>, with the hypotheses \<open>receiver\<close> and \<open>channel\<close>) and \<open>bidir_map\<close> (with the
  hypothesis \<open>bidir_laws\<close>) are not in the repository and are arguments of the definitions; an
  mpsc queue and a list of pairs show that the hypotheses can hold. Logging, sleeping and the
  clock have no effect on the state (the client's pacing subtracts two instants, whose result
  depends on the release of the standard library and is an argument). A drain is one step, and
  so is a turn of a servicer: messages that arrive during it are seen by the next (in \<^verbatim>\<open>SharedQueue\<close> a turn may also stop in
  its read, with the messages taken). How long a call waits is not modelled, only whether it
  returns.

  \<^bold>\<open>Not modelled.\<close> The crate root, which only declares modules, and the macros \<open>comm_log\<close> and
  \<open>log_and_exit\<close>, which only print (the return of the second is part of \<open>sre_thread\<close>).
\<close>

subsection \<open>Properties that span components\<close>

text \<open>
  C2: inputs reach the game server. The application's inputs, handed to the client one by one,
  leave in one datagram in the next turn of the client's servicer, behind those not yet
  acknowledged; when the datagram arrives at a server that knows the client's address and has
  seen only earlier ticks, the next turn of its servicer puts on the application's queue exactly
  that sequence, under the client's user name, and \<open>receive_iter\<close> yields it. The serializer
  is only assumed to decode what it encoded for this one message.
\<close>

theorem inputs_delivered:
  assumes "\<not> cl_shutdown h" "receiver_end (cl_to_low_latency_servicer h)"
    and "sender_alive (cl_to_low_latency_servicer h)" "queue (cl_to_low_latency_servicer h) = []"
    and "udp_in (cll_socket c) = []" "udp_send_script (cll_socket c) = []"
    and "cs = (controller_seq c)\<lparr>cs_seq := cs_seq (controller_seq c) @ inputs\<rparr>"
    and "encodable n cs" "cs_seq cs \<noteq> []" "to_compressed cs = Ret (Some p)"
    and "cll_serialize cext (ControllerInput p) = Inr bs" "length bs \<le> MAX_PACKET_SIZE"
    and "ext_deserialize ext bs = Inr (ControllerInput p)"
    and "drain_spmc_receiver (ext_try_recv ext) (sll_from_application s) = Ret (q, Inr [])"
    and "udp_in (sll_socket s) = Inr (bs, src) # rest"
    and "bm_get_by_first ext (address_user s) src = Some user"
    and "last_tick cs = Ret lt" "last_tick_received s < lt"
    and "receiver_end (sll_to_application s)" "queue (sll_to_application s) = []"
  shows "\<exists>h' c' s' r v'.
    run_calls (\<lambda>h b. Ret (send_controller_input h b)) h inputs = Ret (h', replicate (length inputs) (Inr ())) \<and>
    cll_spin_once cext (c\<lparr>cll_from_application := cl_to_low_latency_servicer h'\<rparr>) = Ret (c', Inr ()) \<and>
    udp_out (cll_socket c') = udp_out (cll_socket c) @ [(bs, server_addr c)] \<and>
    sll_spin_once ext s = Ret (s', r) \<and> last_tick_received s' = lt \<and>
    receive_iter_next (v\<lparr>from_servicer := sll_to_application s'\<rparr>) =
      Ret (v', Some \<lparr>sm_from = user, sm_payload = PayloadControllerSequence cs\<rparr>)"
proof -
  obtain h' where sent: "run_calls (\<lambda>h b. Ret (send_controller_input h b)) h inputs =
      Ret (h', replicate (length inputs) (Inr ()))"
    and ch: "sender_alive (cl_to_low_latency_servicer h')"
      "control_states (queue (cl_to_low_latency_servicer h')) = inputs"
    using assms(1-4) by (simp add: send_inputs control_states_def comp_def)
  let ?ch = "cl_to_low_latency_servicer h'"
  obtain c' where "cll_spin_once cext (c\<lparr>cll_from_application := ?ch\<rparr>) = Ret (c', Inr ())"
    "udp_out (cll_socket c') = udp_out (cll_socket c) @ [(bs, server_addr c)]"
    using client_turn_sends [of "c\<lparr>cll_from_application := ?ch\<rparr>" cs n p cext bs] assms(5-12) ch by auto
  moreover have "to_controller_sequence p = Ret (Some cs)"
    using to_compressed_encodable [OF assms(8)] to_controller_sequence_encodable [OF assms(8), of "start_tick cs"]
      assms(10) by simp
  then obtain s' r where "sll_spin_once ext s = Ret (s', r)" "last_tick_received s' = lt"
    "queue (sll_to_application s') = [\<lparr>sm_from = user, sm_payload = PayloadControllerSequence cs\<rparr>]"
    using server_turn_receives [OF assms(14,15,12,13,16) _ assms(17-19)] assms(20) by auto
  ultimately show ?thesis using sent by (auto simp: receive_iter_next_def)
qed

theorem inputs_delivered_witness:
  "\<forall>v. \<exists>h' c' s' r v'.
    run_calls (\<lambda>h b. Ret (send_controller_input h b)) toy_handle [bitvec_of [True, False], bitvec_of [True, False]] =
      Ret (h', [Inr (), Inr ()]) \<and>
    cll_spin_once toy_cll_ext ((toy_client cs_new)\<lparr>cll_from_application := cl_to_low_latency_servicer h'\<rparr>) =
      Ret (c', Inr ()) \<and>
    udp_out (cll_socket c') = [(toy_datagram, SockV4 0 0)] \<and>
    sll_spin_once toy_ext (toy_servicer [Inr (toy_datagram, ann_addr)]) = Ret (s', r) \<and>
    last_tick_received s' = 2 \<and>
    receive_iter_next (v\<lparr>from_servicer := sll_to_application s'\<rparr>) =
      Ret (v', Some \<lparr>sm_from = ann, sm_payload = PayloadControllerSequence toy_inputs\<rparr>)"
proof -
  have drained: "drain_spmc_receiver (ext_try_recv toy_ext)
      (sll_from_application (toy_servicer [Inr (toy_datagram, ann_addr)])) = Ret (mpsc_channel, Inr [])"
    by (simp add: drain_spmc_receiver_def drain_receiver_mpsc toy_defs)
  show ?thesis
  proof
    fix v
    show "\<exists>h' c' s' r v'.
      run_calls (\<lambda>h b. Ret (send_controller_input h b)) toy_handle [bitvec_of [True, False], bitvec_of [True, False]] =
        Ret (h', [Inr (), Inr ()]) \<and>
      cll_spin_once toy_cll_ext ((toy_client cs_new)\<lparr>cll_from_application := cl_to_low_latency_servicer h'\<rparr>) =
        Ret (c', Inr ()) \<and>
      udp_out (cll_socket c') = [(toy_datagram, SockV4 0 0)] \<and>
      sll_spin_once toy_ext (toy_servicer [Inr (toy_datagram, ann_addr)]) = Ret (s', r) \<and>
      last_tick_received s' = 2 \<and>
      receive_iter_next (v\<lparr>from_servicer := sll_to_application s'\<rparr>) =
        Ret (v', Some \<lparr>sm_from = ann, sm_payload = PayloadControllerSequence toy_inputs\<rparr>)"
    using inputs_delivered [OF _ _ _ _ _ _ _ toy_encodable _ toy_compresses _ _ toy_decodes(1) drained _ _ toy_decodes(3),
        of toy_handle "toy_client cs_new" "[bitvec_of [True, False], bitvec_of [True, False]]" toy_cll_ext
          ann_addr "[]" ann v]
    by (simp add: toy_handle_def toy_client_def cs_new_def toy_inputs_def toy_cll_ext_def toy_defs
        toy_datagram_def MAX_PACKET_SIZE_def)
  qed
qed

text \<open>
  C11: world states reach their client. The world state that the server's application sends last
  leaves in the next turn of the UDP servicer, before anything else, for the address that the
  application's announcements and disconnects so far give the user; when its datagram arrives,
  the client's next turn hands it to the application, and \<open>take_world_state\<close> returns it. The
  serializer is only assumed to decode what it encoded for this one message.
\<close>

theorem world_state_delivered:
  assumes "channel (ext_try_recv ext) pending connected send alive" "bidir_laws ext ok" "ok (address_user s)"
    and "send_low_latency send v (ToClient \<lparr>ll_to = user, ll_payload = WorldState w\<rparr>) = (v', Inr ())"
    and "connected (to_low_latency_servicer v)" "sll_from_application s = to_low_latency_servicer v'"
    and "fold users_step (pending (to_low_latency_servicer v)) (bm_get_by_first ext (address_user s)) a = Some user"
    and "ext_serialize ext (WorldState w) = Inr bs"
    and "udp_send_script (sll_socket s) = []" "udp_in (sll_socket s) = []"
    and "udp_in (cll_socket c) = Inr (bs, src) # rest" "bs \<noteq> []" "length bs \<le> MAX_PACKET_SIZE"
    and "cll_deserialize cext bs = Inr (WorldState w)"
    and "sender_alive (cll_to_application c)" "receiver_end (cll_to_application c)"
    and "cll_spin_once cext c = Ret (c', r)" "\<not> cl_shutdown h"
  shows "\<exists>s' rs more h'. sll_spin_once ext s = Ret (s', rs) \<and>
    udp_out (sll_socket s') = udp_out (sll_socket s) @ (bs, a) # more \<and>
    take_world_state (h\<lparr>from_low_latency_servicer := cll_to_application c'\<rparr>) = Ret (h', Inr w)"
proof -
  let ?m = "ToClient \<lparr>ll_to = user, ll_payload = WorldState w\<rparr>"
  let ?ms = "pending (to_low_latency_servicer v) @ [?m]"
  have sent: "pending (sll_from_application s) = ?ms" "connected (sll_from_application s)"
    using send_low_latency_queue [OF assms(1,5,4)] assms(6) by simp_all
  have recv: "receiver (ext_try_recv ext) pending connected" using assms(1) by (rule channel.axioms)
  obtain q where drained: "drain_spmc_receiver (ext_try_recv ext) (sll_from_application s) = Ret (q, Inr ?ms)"
    using receiver.drain_connected [OF recv sent(2)] sent(1) by auto
  have last: "last_such is_world_state ?ms = Some \<lparr>ll_to = user, ll_payload = WorldState w\<rparr>"
    by (simp add: last_such_snoc is_world_state_def)
  have "bm_get_by_first ext (fold (book_step ext) ?ms (address_user s)) a = Some user"
    "ok (fold (book_step ext) ?ms (address_user s))"
    using book_steps [OF assms(2,3), of ?ms] assms(7) by simp_all
  then have "bm_get_by_second ext (fold (book_step ext) ?ms (address_user s)) user = Some a"
    using bidir_agree [OF assms(2)] by blast
  from server_turn_sends [OF drained last this assms(8-10)] obtain s' rs more where
    "sll_spin_once ext s = Ret (s', rs)" "udp_out (sll_socket s') = udp_out (sll_socket s) @ (bs, a) # more"
    by blast
  moreover have "cll_to_application c' = (cll_to_application c)
      \<lparr>queue := queue (cll_to_application c) @ [ClientWorldState w]\<rparr>"
    by (rule client_turn_receives [OF assms(11-14,16,17)])
  then have "\<exists>h'. take_world_state (h\<lparr>from_low_latency_servicer := cll_to_application c'\<rparr>) = Ret (h', Inr w)"
    using assms(15,18) by (auto simp: take_world_state_def Let_def store_world_states_eq world_of_def)
  ultimately show ?thesis by blast
qed

definition toy_world_ext :: "unit cll_ext" where
  "toy_world_ext = \<lparr>cll_serialize = (\<lambda>m. Inl ()), cll_deserialize = (\<lambda>bs. Inr (WorldState (tl bs)))\<rparr>"

definition toy_news :: sll_app_message where
  "toy_news = ToClient \<lparr>ll_to = ann, ll_payload = WorldState [7]\<rparr>"

theorem world_state_delivered_witness:
  "\<exists>s' rs c' h'.
    sll_spin_once toy_ext ((toy_servicer [])\<lparr>sll_from_application := mpsc_channel\<lparr>queue := [toy_news]\<rparr>\<rparr>) = Ret (s', rs) \<and>
    (\<exists>more. udp_out (sll_socket s') = ([0, 7], ann_addr) # more) \<and>
    cll_spin_once toy_world_ext ((toy_client cs_new)\<lparr>cll_socket := (cll_socket (toy_client cs_new))
      \<lparr>udp_in := [Inr ([0, 7], SockV4 0 0)]\<rparr>\<rparr>) = Ret (c', Inr ()) \<and>
    take_world_state (toy_handle\<lparr>from_low_latency_servicer := cll_to_application c'\<rparr>) = Ret (h', Inr [7])"
proof -
  let ?q = "mpsc_channel\<lparr>queue := [toy_news]\<rparr>"
  let ?s = "(toy_servicer [])\<lparr>sll_from_application := ?q\<rparr>"
  let ?c = "(toy_client cs_new)\<lparr>cll_socket := (cll_socket (toy_client cs_new))\<lparr>udp_in := [Inr ([0, 7], SockV4 0 0)]\<rparr>\<rparr>"
  let ?v = "\<lparr>listener_kill_switch = True, low_latency_servicer = toy_servicer [], from_servicer = mpsc_channel,
    to_low_latency_servicer = mpsc_channel, to_reliable_servicer = (), srv_shutdown = False\<rparr>"
  have ch: "channel (ext_try_recv toy_ext) queue sender_alive mpsc_send receiver_end"
    using mpsc.channel_axioms by (simp add: toy_ext_def pairs_ext_def)
  have sent: "send_low_latency mpsc_send ?v (ToClient \<lparr>ll_to = ann, ll_payload = WorldState [7]\<rparr>) =
      (?v\<lparr>to_low_latency_servicer := ?q\<rparr>, Inr ())"
    by (simp add: send_low_latency_def mpsc_send_def mpsc_channel_def toy_news_def)
  obtain c' where turn: "cll_spin_once toy_world_ext ?c = Ret (c', Inr ())"
    by (simp add: cll_spin_once_def cll_forward_from_server_to_client_def maybe_receive_udp_eq toy_client_def
        toy_world_ext_def cll_parse_server_message_def mpsc_send_def mpsc_channel_def MAX_PACKET_SIZE_def
        cll_forward_out_eq cll_send_controller_inputs_def cs_is_empty_def cs_new_def control_states_def)
  from world_state_delivered [OF ch toy_bidir _ sent _ _ _ _ _ _ _ _ _ _ _ _ turn, of ?s ann_addr "[0, 7]" "SockV4 0 0" "[]" toy_handle]
  obtain s' rs more h' where "sll_spin_once toy_ext ?s = Ret (s', rs)"
    "udp_out (sll_socket s') = ([0, 7], ann_addr) # more"
    "take_world_state (toy_handle\<lparr>from_low_latency_servicer := cll_to_application c'\<rparr>) = Ret (h', Inr [7])"
    by (simp add: toy_defs pairs_ok_def toy_client_def toy_world_ext_def MAX_PACKET_SIZE_def toy_handle_def) blast
  with turn show ?thesis by blast
qed

text \<open>
  C25: an acknowledged client sends everything again, under new ticks. When the server has
  received the whole sequence and the client learns it, \<open>remove_till_tick\<close> keeps every input
  and moves the sequence past what was acknowledged; sent again it is fresh to the server,
  which hands the same inputs to the application a second time.
\<close>

theorem acknowledged_inputs_are_duplicated:
  assumes "encodable n cs" "cs_seq cs \<noteq> []"
    and "unat (start_tick cs) + 2 * length (cs_seq cs) + 1 < 2 ^ 64"
    and "last_tick cs = Ret (last_tick_received s)"
    and "bm_get_by_first ext (address_user s) src = Some user" "receiver_end (sll_to_application s)"
  shows "\<exists>cs' p s' r. remove_till_tick cs (last_tick_received s) = Ret cs' \<and>
    cs_seq cs' = cs_seq cs \<and> last_tick_received s < start_tick cs' \<and>
    to_compressed cs' = Ret (Some p) \<and>
    sll_handle_controller_input ext s src p = Ret (s', r) \<and>
    queue (sll_to_application s') = queue (sll_to_application s) @
      [\<lparr>sm_from = user, sm_payload = PayloadControllerSequence cs'\<rparr>]"
proof -
  let ?n = "length (cs_seq cs)"
  have ltr: "unat (last_tick_received s) = unat (start_tick cs) + ?n"
    using last_tick_eq [of cs] assms(3,4) by simp
  let ?cs' = "\<lparr>start_tick = start_tick cs + vec_len (cs_seq cs) + 1, cs_seq = cs_seq cs\<rparr>"
  have removed: "remove_till_tick cs (last_tick_received s) = Ret ?cs'"
    using remove_till_tick_eq [of cs "last_tick_received s"] assms(3) ltr by simp
  have len: "unat (vec_len (cs_seq cs)) = ?n" using assms(3) by (intro unat_vec_len) simp
  have start: "unat (start_tick ?cs') = unat (start_tick cs) + ?n + 1"
    using assms(3) by (simp add: unat_word_ariths len)
  then have later: "last_tick_received s < start_tick ?cs'" by (simp add: word_less_nat_alt ltr)
  have enc: "encodable n ?cs'" using assms(1) by (simp add: encodable_def uniform_inputs_def)
  obtain p where p: "to_compressed ?cs' = Ret (Some p)" "to_controller_sequence p = Ret (Some ?cs')"
    using to_compressed_encodable [OF enc] to_controller_sequence_encodable [OF enc, of "start_tick ?cs'"] by simp
  obtain lt where lt: "last_tick ?cs' = Ret lt" "unat lt = unat (start_tick ?cs') + ?n"
    using last_tick_eq [of ?cs'] start assms(3) by auto
  then have "last_tick_received s < lt" using later by (simp add: word_less_nat_alt)
  from handle_fresh [OF assms(5) p(2) lt(1) this assms(6)] show ?thesis
    using removed p(1) later by auto
qed

theorem acknowledged_inputs_are_duplicated_witness:
  "\<exists>cs' p s' r. remove_till_tick toy_inputs 2 = Ret cs' \<and> cs_seq cs' = cs_seq toy_inputs \<and>
    2 < start_tick cs' \<and> to_compressed cs' = Ret (Some p) \<and>
    sll_handle_controller_input toy_ext toy_served ann_addr p = Ret (s', r) \<and>
    queue (sll_to_application s') =
      [\<lparr>sm_from = ann, sm_payload = PayloadControllerSequence toy_inputs\<rparr>,
       \<lparr>sm_from = ann, sm_payload = PayloadControllerSequence cs'\<rparr>]"
proof -
  have s: "last_tick_received toy_served = 2" "receiver_end (sll_to_application toy_served)"
    "bm_get_by_first toy_ext (address_user toy_served) ann_addr = Some ann"
    "queue (sll_to_application toy_served) = [\<lparr>sm_from = ann, sm_payload = PayloadControllerSequence toy_inputs\<rparr>]"
    by (simp_all add: toy_served_def toy_defs)
  from acknowledged_inputs_are_duplicated [OF toy_encodable, of toy_served toy_ext ann_addr ann] s show ?thesis
    by (simp add: toy_decodes) (simp add: toy_inputs_def)
qed

text \<open>
  C37: a handle fails for good. For any sequence of calls of the sending methods of a server, or
  of the four methods of a client (sending inputs and chat, taking the world state and the chat
  history), in any order, no call panics or blocks, the results are successes followed by
  \<open>Shutdown\<close> errors only, and the handle is shut down afterwards exactly when it was before or a
  call has failed.
\<close>

theorem handles_latch:
  "(\<exists>s' xs n. run_calls (server_call send_ll send_re) s calls =
        Ret (s', map Inr xs @ replicate n (Inl Shutdown)) \<and>
      (srv_shutdown s' \<longleftrightarrow> srv_shutdown s \<or> n > 0)) \<and>
   (\<exists>c' xs n. run_calls client_call c ccalls = Ret (c', map Inr xs @ replicate n (Inl Shutdown)) \<and>
      (cl_shutdown c' \<longleftrightarrow> cl_shutdown c \<or> n > 0))"
  using srv_any.run_shape [of send_ll send_re s calls] cl_any.run_shape [of c ccalls] by blast

end
